(* ===== verification/Prelude.thy ===== *)
theory Prelude
  imports Main "HOL-Library.Char_ord" "HOL-Library.List_Lexorder" "HOL-Library.Product_Lexorder"
    "HOL-Library.Sublist" "HOL-Library.Code_Target_Nat"
begin

text \<open>
  The part of Rust and its standard library that the modelled components share: bounded unsigned
  arithmetic, time as chrono keeps it, results, text as UTF-8 byte strings, and the minimum and
  maximum searches of iterators. Every function here models documented behaviour of the language or
  its standard library; nothing here models code of the repository.
\<close>

named_theorems bt_simps \<open>rewriting lookups, sizes and well-formedness of ordered maps\<close>
named_theorems text_simps \<open>unfolding the text functions\<close>

section \<open>Unsigned integers\<close>

text \<open>
  Unsigned machine integers are natural numbers with the bounds written out where an operation can
  reach them. Saturating operations stop at the bound; the checked subtraction is a panic
  (\<open>None\<close>) when it would go below zero.
\<close>

definition u64_max :: nat where
  "u64_max = 18446744073709551615"

definition u32_max :: nat where
  "u32_max = 4294967295"

definition i64_max :: nat where
  "i64_max = 9223372036854775807"

abbreviation usize_max :: nat where
  "usize_max \<equiv> u64_max"

definition sat_add :: "nat \<Rightarrow> nat \<Rightarrow> nat \<Rightarrow> nat" where
  "sat_add mx a b = min mx (a + b)"

definition sat_mul :: "nat \<Rightarrow> nat \<Rightarrow> nat \<Rightarrow> nat" where
  "sat_mul mx a b = min mx (a * b)"

definition checked_sub :: "nat \<Rightarrow> nat \<Rightarrow> nat option" where
  "checked_sub a b = (if b \<le> a then Some (a - b) else None)"

lemma sat_add_le [simp]: "sat_add mx a b \<le> mx"
  by (simp add: sat_add_def)

lemma sat_mul_le [simp]: "sat_mul mx a b \<le> mx"
  by (simp add: sat_mul_def)

lemma sat_add_exact: "a + b \<le> mx \<Longrightarrow> sat_add mx a b = a + b"
  by (simp add: sat_add_def)

lemma sat_add_gt: "a < mx \<Longrightarrow> a < sat_add mx a 1"
  by (simp add: sat_add_def)

section \<open>Time\<close>

text \<open>
  A \<^verbatim>\<open>DateTime<Utc>\<close> is its distance from the Unix epoch in nanoseconds, the resolution chrono
  keeps; a \<^verbatim>\<open>Duration\<close> is a difference of two of them. \<^verbatim>\<open>num_seconds\<close> and
  \<^verbatim>\<open>num_milliseconds\<close> drop the fraction, towards zero.
\<close>

type_synonym time = int

definition secs :: "int \<Rightarrow> int" where
  "secs n = n * 1000000000"

definition trunc_div :: "int \<Rightarrow> int \<Rightarrow> int" where
  "trunc_div a b = (if a < 0 then - ((- a) div b) else a div b)"

definition num_seconds :: "int \<Rightarrow> int" where
  "num_seconds d = trunc_div d 1000000000"

definition num_milliseconds :: "int \<Rightarrow> int" where
  "num_milliseconds d = trunc_div d 1000000"

lemma num_seconds_le_iff:
  assumes "0 \<le> n"
  shows "num_seconds d \<le> n \<longleftrightarrow> d < secs (n + 1)"
proof (cases "d < 0")
  case True
  then have "num_seconds d \<le> 0"
    by (simp add: num_seconds_def trunc_div_def div_int_pos_iff)
  moreover have "d < secs (n + 1)"
    using True assms by (simp add: secs_def)
  ultimately show ?thesis using assms by simp
next
  case False
  then show ?thesis
    by (simp add: num_seconds_def trunc_div_def secs_def) linarith
qed

lemma secs_mono [simp]: "secs a \<le> secs b \<longleftrightarrow> a \<le> b"
  by (simp add: secs_def)

lemma secs_pos [simp]: "0 < secs n \<longleftrightarrow> 0 < n"
  by (simp add: secs_def)

section \<open>Results\<close>

text \<open>
  A \<^verbatim>\<open>Result<T, E>\<close> is \<open>E + T\<close>, \<open>Inl\<close> the error. A body that applies \<^verbatim>\<open>?\<close> to one
  check after another answers with the first error among them.
\<close>

definition and_then :: "'e + 'a \<Rightarrow> ('a \<Rightarrow> 'e + 'b) \<Rightarrow> 'e + 'b" where
  "and_then r k = (case r of Inl e \<Rightarrow> Inl e | Inr x \<Rightarrow> k x)"

lemma and_then_simps [simp]:
  "and_then (Inl e) k = Inl e"
  "and_then (Inr x) k = k x"
  by (simp_all add: and_then_def)

lemma and_then_Inr_iff: "and_then r k = Inr y \<longleftrightarrow> (\<exists>x. r = Inr x \<and> k x = Inr y)"
  by (cases r) auto

fun first_err :: "('e + unit) list \<Rightarrow> 'e + unit" where
  "first_err [] = Inr ()"
| "first_err (r # rs) = (case r of Inl e \<Rightarrow> Inl e | Inr _ \<Rightarrow> first_err rs)"

lemma first_err_ok_iff: "first_err rs = Inr () \<longleftrightarrow> (\<forall>r \<in> set rs. r = Inr ())"
  by (induction rs) (auto split: sum.splits)

lemma first_err_Cons_ok [simp]: "first_err (r # rs) = Inr u \<longleftrightarrow> r = Inr () \<and> first_err rs = Inr ()"
  by (cases r) auto

declare first_err.simps(2) [simp del]

lemma no_error_iff [simp]: "(\<forall>e. r \<noteq> Inl e) \<longleftrightarrow> r = Inr ()" for r :: "'e + unit"
  by (cases r) auto

definition ensure :: "bool \<Rightarrow> 'e \<Rightarrow> 'e + unit" where
  "ensure b e = (if b then Inr () else Inl e)"

lemma ensure_ok_iff [simp]: "ensure b e = Inr u \<longleftrightarrow> b"
  by (simp add: ensure_def)

text \<open>
  An operation on outside state that may fail: it returns the state it leaves and a result.
  \<open>then_do\<close> is \<^verbatim>\<open>?\<close> between two of them, \<open>map_failure\<close> is \<^verbatim>\<open>map_err\<close>.
\<close>

type_synonym ('w, 'e, 'a) op = "'w \<Rightarrow> 'w \<times> ('e + 'a)"

definition then_do :: "('w, 'e, 'a) op \<Rightarrow> ('a \<Rightarrow> ('w, 'e, 'b) op) \<Rightarrow> ('w, 'e, 'b) op" where
  "then_do m k w = (case m w of (w', Inl e) \<Rightarrow> (w', Inl e) | (w', Inr x) \<Rightarrow> k x w')"

definition yield :: "'e + 'a \<Rightarrow> ('w, 'e, 'a) op" where
  "yield r w = (w, r)"

definition map_failure :: "('e \<Rightarrow> 'f) \<Rightarrow> 'e + 'a \<Rightarrow> 'f + 'a" where
  "map_failure f r = (case r of Inl e \<Rightarrow> Inl (f e) | Inr x \<Rightarrow> Inr x)"

lemma then_do_Inr_iff:
  "then_do m k w = (w', Inr y) \<longleftrightarrow> (\<exists>v x. m w = (v, Inr x) \<and> k x v = (w', Inr y))"
  by (auto simp: then_do_def split: prod.splits sum.splits)

lemma yield_simp [simp]: "yield r w = (w, r)"
  by (simp add: yield_def)

lemma map_failure_simps [simp]:
  "map_failure f (Inl e) = Inl (f e)" "map_failure f (Inr x) = Inr x"
  "map_failure f r = Inr x \<longleftrightarrow> r = Inr x"
  by (auto simp: map_failure_def split: sum.splits)

section \<open>Text\<close>

text \<open>
  A \<^verbatim>\<open>String\<close> is its UTF-8 bytes, so \<open>length\<close> is \<^verbatim>\<open>len()\<close>. A test of every
  \<^verbatim>\<open>char\<close> for an ASCII property is the same test of every byte: a byte of a longer
  encoding is at least 128 and has no ASCII property.
\<close>

abbreviation (input) byte_code :: "char \<Rightarrow> nat" where
  "byte_code c \<equiv> of_char c"

definition is_ascii_digit :: "char \<Rightarrow> bool" where
  "is_ascii_digit c \<longleftrightarrow> 48 \<le> (of_char c :: nat) \<and> (of_char c :: nat) \<le> 57"

definition is_ascii_upper :: "char \<Rightarrow> bool" where
  "is_ascii_upper c \<longleftrightarrow> 65 \<le> (of_char c :: nat) \<and> (of_char c :: nat) \<le> 90"

definition is_ascii_lower :: "char \<Rightarrow> bool" where
  "is_ascii_lower c \<longleftrightarrow> 97 \<le> (of_char c :: nat) \<and> (of_char c :: nat) \<le> 122"

definition is_ascii_alphanumeric :: "char \<Rightarrow> bool" where
  "is_ascii_alphanumeric c \<longleftrightarrow> is_ascii_digit c \<or> is_ascii_upper c \<or> is_ascii_lower c"

definition is_lower_hex :: "char \<Rightarrow> bool" where
  "is_lower_hex c \<longleftrightarrow> is_ascii_digit c \<or> 97 \<le> (of_char c :: nat) \<and> (of_char c :: nat) \<le> 102"

definition is_ascii_hexdigit :: "char \<Rightarrow> bool" where
  "is_ascii_hexdigit c \<longleftrightarrow> is_lower_hex c \<or> 65 \<le> (of_char c :: nat) \<and> (of_char c :: nat) \<le> 70"

definition is_ascii_graphic :: "char \<Rightarrow> bool" where
  "is_ascii_graphic c \<longleftrightarrow> 33 \<le> (of_char c :: nat) \<and> (of_char c :: nat) \<le> 126"

lemmas [text_simps] = is_ascii_digit_def is_ascii_upper_def is_ascii_lower_def
  is_ascii_alphanumeric_def is_lower_hex_def is_ascii_hexdigit_def is_ascii_graphic_def

lemma hexdigit_lower_iff: "is_ascii_hexdigit c \<and> \<not> is_ascii_upper c \<longleftrightarrow> is_lower_hex c"
  by (auto simp: text_simps)

text \<open>
  \<^verbatim>\<open>chars().count()\<close> counts the bytes that do not continue a character, and
  \<^verbatim>\<open>char::is_control\<close> holds of U+0000 to U+001F and U+007F to U+009F, the last range encoded
  with the lead byte C2.
\<close>

definition is_continuation :: "char \<Rightarrow> bool" where
  "is_continuation c \<longleftrightarrow> 128 \<le> (of_char c :: nat) \<and> (of_char c :: nat) < 192"

definition char_count :: "string \<Rightarrow> nat" where
  "char_count s = length (filter (\<lambda>c. \<not> is_continuation c) s)"

fun has_control :: "string \<Rightarrow> bool" where
  "has_control [] \<longleftrightarrow> False"
| "has_control (c # cs) \<longleftrightarrow>
     (of_char c :: nat) < 32 \<or> (of_char c :: nat) = 127 \<or>
     (of_char c :: nat) = 194 \<and> (case cs of d # _ \<Rightarrow> 128 \<le> (of_char d :: nat) \<and> (of_char d :: nat) \<le> 159 | [] \<Rightarrow> False) \<or>
     has_control cs"

text \<open>\<^verbatim>\<open>to_ascii_lowercase\<close> moves the ASCII letters and leaves every other byte.\<close>

definition ascii_lower :: "char \<Rightarrow> char" where
  "ascii_lower c = (if is_ascii_upper c then char_of ((of_char c :: nat) + 32) else c)"

definition to_ascii_lowercase :: "string \<Rightarrow> string" where
  "to_ascii_lowercase s = map ascii_lower s"

text \<open>Prefixes: \<^verbatim>\<open>starts_with\<close> and \<^verbatim>\<open>strip_prefix\<close>.\<close>

definition starts_with :: "string \<Rightarrow> string \<Rightarrow> bool" where
  "starts_with s p \<longleftrightarrow> take (length p) s = p"

definition strip_prefix :: "string \<Rightarrow> string \<Rightarrow> string option" where
  "strip_prefix p s = (if starts_with s p then Some (drop (length p) s) else None)"

lemma strip_prefix_Some_iff: "strip_prefix p s = Some r \<longleftrightarrow> s = p @ r"
  by (auto simp: strip_prefix_def starts_with_def split: if_splits) (metis append_take_drop_id)

lemma starts_with_append [simp]: "starts_with (p @ s) p"
  by (simp add: starts_with_def)

text \<open>
  \<^verbatim>\<open>split(c)\<close> cuts at every occurrence (one piece more than there are separators, so never
  none); \<^verbatim>\<open>split_once(c)\<close> cuts at the first.
\<close>

fun split_on :: "char \<Rightarrow> string \<Rightarrow> string list" where
  "split_on c [] = [[]]"
| "split_on c (x # xs) =
     (if x = c then [] # split_on c xs
      else case split_on c xs of [] \<Rightarrow> [[x]] | p # ps \<Rightarrow> (x # p) # ps)"

fun split_pred :: "(char \<Rightarrow> bool) \<Rightarrow> string \<Rightarrow> string list" where
  "split_pred P [] = [[]]"
| "split_pred P (x # xs) =
     (if P x then [] # split_pred P xs
      else case split_pred P xs of [] \<Rightarrow> [[x]] | p # ps \<Rightarrow> (x # p) # ps)"

fun split_once :: "char \<Rightarrow> string \<Rightarrow> (string \<times> string) option" where
  "split_once c [] = None"
| "split_once c (x # xs) =
     (if x = c then Some ([], xs)
      else case split_once c xs of None \<Rightarrow> None | Some (a, b) \<Rightarrow> Some (x # a, b))"

lemma split_on_not_Nil [simp]: "split_on c s \<noteq> []"
  by (induction s) (auto split: list.splits)

lemma split_once_Some_iff:
  "split_once c s = Some (a, b) \<longleftrightarrow> s = a @ c # b \<and> c \<notin> set a"
proof (induction s arbitrary: a)
  case Nil
  show ?case by simp
next
  case (Cons x xs)
  show ?case
  proof (cases "x = c")
    case True
    then show ?thesis by (cases a) auto
  next
    case False
    show ?thesis
    proof (cases a)
      case Nil
      with False show ?thesis by (auto split: option.splits)
    next
      case (Cons y ys)
      with False Cons.IH [of ys] show ?thesis
        by (cases "split_once c xs") auto
    qed
  qed
qed

lemma split_on_piece_no_sep: "p \<in> set (split_on c s) \<Longrightarrow> c \<notin> set p"
proof (induction s arbitrary: p)
  case Nil
  then show ?case by simp
next
  case (Cons x xs)
  obtain q qs where q: "split_on c xs = q # qs" by (cases "split_on c xs") auto
  show ?case
    using Cons.prems Cons.IH [of p] Cons.IH [of q] by (auto simp: q split: if_splits)
qed

lemma split_on_no_sep [simp]: "c \<notin> set s \<Longrightarrow> split_on c s = [s]"
  by (induction s) auto

lemma split_on_sep [simp]: "c \<notin> set s \<Longrightarrow> split_on c (s @ c # t) = s # split_on c t"
  by (induction s) auto

fun join_with :: "string \<Rightarrow> string list \<Rightarrow> string" where
  "join_with sep [] = []"
| "join_with sep [x] = x"
| "join_with sep (x # y # ys) = x @ sep @ join_with sep (y # ys)"

lemma join_split_on: "join_with [c] (split_on c s) = s"
proof (induction s)
  case Nil
  show ?case by simp
next
  case (Cons x xs)
  obtain q qs where q: "split_on c xs = q # qs" by (cases "split_on c xs") auto
  from Cons.IH show ?case by (cases qs) (auto simp: q)
qed

text \<open>
  \<^verbatim>\<open>trim\<close> drops Unicode white space from both ends: the ASCII ones, U+0085, U+00A0, U+1680,
  U+2000 to U+200A, U+2028, U+2029, U+202F, U+205F and U+3000, each by its encoding. Encodings
  start with a lead byte, so a suffix that spells one ends at a character boundary.
\<close>

definition byte :: "nat \<Rightarrow> char" where
  "byte n = char_of n"

lemma byte_newline: "byte 10 = CHR 0x0A"
  by code_simp

definition white_space :: "string list" where
  "white_space =
     map (\<lambda>n. [byte n]) [9, 10, 11, 12, 13, 32] @
     map (\<lambda>n. [byte 0xC2, byte n]) [0x85, 0xA0] @
     [[byte 0xE1, byte 0x9A, byte 0x80]] @
     map (\<lambda>n. [byte 0xE2, byte 0x80, byte n])
       [0x80, 0x81, 0x82, 0x83, 0x84, 0x85, 0x86, 0x87, 0x88, 0x89, 0x8A, 0xA8, 0xA9, 0xAF] @
     [[byte 0xE2, byte 0x81, byte 0x9F], [byte 0xE3, byte 0x80, byte 0x80]]"

fun drop_leading :: "nat \<Rightarrow> string list \<Rightarrow> string \<Rightarrow> string" where
  "drop_leading 0 ws s = s"
| "drop_leading (Suc n) ws s =
     (case find (\<lambda>w. starts_with s w) ws of
        None \<Rightarrow> s
      | Some w \<Rightarrow> drop_leading n ws (drop (length w) s))"

definition trim_start :: "string \<Rightarrow> string" where
  "trim_start s = drop_leading (length s) white_space s"

definition trim_end :: "string \<Rightarrow> string" where
  "trim_end s = rev (drop_leading (length s) (map rev white_space) (rev s))"

definition trim :: "string \<Rightarrow> string" where
  "trim s = trim_end (trim_start s)"

text \<open>
  One unit of fuel per byte is enough: every encoding has a byte, so each round drops one.
\<close>

lemma drop_leading_done:
  assumes "length s \<le> n" "[] \<notin> set ws"
  shows "find (\<lambda>w. starts_with (drop_leading n ws s) w) ws = None"
  using assms
proof (induction n arbitrary: s)
  case 0
  then have "s = []" by simp
  with 0 show ?case by (auto simp: find_None_iff starts_with_def)
next
  case (Suc n)
  show ?case
  proof (cases "find (\<lambda>w. starts_with s w) ws")
    case None
    then show ?thesis by simp
  next
    case (Some w)
    then have "w \<in> set ws" "starts_with s w" by (auto simp: find_Some_iff)
    with Suc.prems have "w \<noteq> []" by auto
    with Suc.prems have "length (drop (length w) s) \<le> n" by (cases w) auto
    with Suc.IH [of "drop (length w) s"] Suc.prems Some show ?thesis by simp
  qed
qed

lemma length_drop_leading: "length (drop_leading n ws s) \<le> length s"
proof (induction n arbitrary: s)
  case 0
  show ?case by simp
next
  case (Suc n)
  show ?case
  proof (cases "find (\<lambda>w. starts_with s w) ws")
    case None
    then show ?thesis by simp
  next
    case (Some w)
    with Suc.IH [of "drop (length w) s"] show ?thesis by simp
  qed
qed

lemma drop_leading_length_eq:
  assumes "[] \<notin> set ws" "length (drop_leading n ws s) = length s"
  shows "drop_leading n ws s = s"
proof (cases n)
  case 0
  then show ?thesis by simp
next
  case (Suc m)
  show ?thesis
  proof (cases "find (\<lambda>w. starts_with s w) ws")
    case None
    then show ?thesis by (simp add: Suc)
  next
    case (Some w)
    then have "w \<in> set ws" "starts_with s w" by (auto simp: find_Some_iff)
    then have "w \<noteq> []" "length w \<le> length s"
      using assms(1) by (auto simp: starts_with_def dest!: arg_cong [of _ _ length])
    then have "length (drop (length w) s) < length s" by (cases w) auto
    moreover have "length (drop_leading m ws (drop (length w) s)) \<le> length (drop (length w) s)"
      by (rule length_drop_leading)
    ultimately show ?thesis using assms(2) Some by (simp add: Suc)
  qed
qed

lemma length_trim: "length (trim s) \<le> length s"
  unfolding trim_def trim_end_def trim_start_def
  by (metis length_drop_leading length_rev le_trans)

text \<open>\<^verbatim>\<open>trim_end_matches(p)\<close> drops the suffix as often as it is there.\<close>

fun trim_end_matches :: "nat \<Rightarrow> string \<Rightarrow> string \<Rightarrow> string" where
  "trim_end_matches 0 p s = s"
| "trim_end_matches (Suc n) p s =
     (if p \<noteq> [] \<and> suffix p s then trim_end_matches n p (take (length s - length p) s) else s)"

lemma trim_end_matches_done:
  "length s \<le> n \<Longrightarrow> p \<noteq> [] \<Longrightarrow> \<not> suffix p (trim_end_matches n p s)"
proof (induction n arbitrary: s)
  case 0
  then show ?case by simp
next
  case (Suc n)
  have "0 < length p" using Suc.prems(2) by simp
  with Suc.prems have "suffix p s \<Longrightarrow> length (take (length s - length p) s) \<le> n"
    by (cases p) (auto simp: suffix_def)
  with Suc show ?case by (cases "suffix p s") auto
qed

text \<open>
  \<^verbatim>\<open>String::from_utf8_lossy\<close>: bytes that are no UTF-8 become U+FFFD, one for each longest piece
  that could have begun a character. \<open>utf8_step\<close> is how many bytes the next piece takes and whether
  it is a character.
\<close>

definition in_range :: "nat \<Rightarrow> nat \<Rightarrow> string \<Rightarrow> nat \<Rightarrow> bool" where
  "in_range lo hi s i \<longleftrightarrow> i < length s \<and> lo \<le> of_char (s ! i) \<and> of_char (s ! i) \<le> hi"

definition utf8_tail :: "nat \<Rightarrow> nat \<Rightarrow> nat \<Rightarrow> string \<Rightarrow> nat \<times> bool" where
  "utf8_tail width lo hi s =
     (if \<not> in_range lo hi s 1 then (1, False)
      else if width = 2 then (2, True)
      else if \<not> in_range 128 191 s 2 then (2, False)
      else if width = 3 then (3, True)
      else if \<not> in_range 128 191 s 3 then (3, False)
      else (4, True))"

definition utf8_step :: "string \<Rightarrow> nat \<times> bool" where
  "utf8_step s =
     (let b = (of_char (hd s) :: nat) in
      if b < 0x80 then (1, True)
      else if 0xC2 \<le> b \<and> b \<le> 0xDF then utf8_tail 2 0x80 0xBF s
      else if b = 0xE0 then utf8_tail 3 0xA0 0xBF s
      else if b = 0xED then utf8_tail 3 0x80 0x9F s
      else if 0xE1 \<le> b \<and> b \<le> 0xEF then utf8_tail 3 0x80 0xBF s
      else if b = 0xF0 then utf8_tail 4 0x90 0xBF s
      else if 0xF1 \<le> b \<and> b \<le> 0xF3 then utf8_tail 4 0x80 0xBF s
      else if b = 0xF4 then utf8_tail 4 0x80 0x8F s
      else (1, False))"

lemma utf8_step_pos [simp]: "0 < fst (utf8_step s)"
  by (simp add: utf8_step_def utf8_tail_def Let_def)

function from_utf8_lossy :: "string \<Rightarrow> string" where
  "from_utf8_lossy [] = []"
| "from_utf8_lossy (c # cs) =
     (let (n, good) = utf8_step (c # cs)
      in (if good then take n (c # cs) else [byte 0xEF, byte 0xBF, byte 0xBD])
         @ from_utf8_lossy (drop n (c # cs)))"
  by pat_completeness auto
termination
proof (relation "measure length", goal_cases)
  case 1
  show ?case by simp
next
  case (2 c cs x n good)
  then have "0 < n" using utf8_step_pos [of "c # cs"] by (metis fst_conv)
  then show ?case by simp
qed

definition is_ascii :: "string \<Rightarrow> bool" where
  "is_ascii s \<longleftrightarrow> list_all (\<lambda>c. (of_char c :: nat) < 128) s"

lemma from_utf8_lossy_ascii: "is_ascii s \<Longrightarrow> from_utf8_lossy s = s"
  by (induction s) (auto simp: is_ascii_def utf8_step_def)

text \<open>
  \<^verbatim>\<open>lines()\<close> cuts after every line feed, drops it with a carriage return in front of it, and
  has no last line when the text ends with a line feed.
\<close>

fun lines_from :: "string \<Rightarrow> string \<Rightarrow> string list" where
  "lines_from acc [] = (if acc = [] then [] else [rev acc])"
| "lines_from acc (c # cs) =
     (if c = byte 10
      then rev (case acc of d # ds \<Rightarrow> if d = byte 13 then ds else acc | [] \<Rightarrow> []) # lines_from [] cs
      else lines_from (c # acc) cs)"

definition lines :: "string \<Rightarrow> string list" where
  "lines s = lines_from [] s"

definition first_char :: "string \<Rightarrow> string" where
  "first_char s = (case s of [] \<Rightarrow> [] | c # cs \<Rightarrow> c # takeWhile is_continuation cs)"

definition rfind :: "string \<Rightarrow> string \<Rightarrow> nat option" where
  "rfind p s = (case filter (\<lambda>i. starts_with (drop i s) p) [0..<length s] of
     [] \<Rightarrow> None | is \<Rightarrow> Some (last is))"

text \<open>Decimal numbers: \<^verbatim>\<open>str::parse\<close> of an unsigned type with the given largest value.\<close>

fun digits_value :: "nat \<Rightarrow> string \<Rightarrow> nat" where
  "digits_value acc [] = acc"
| "digits_value acc (c # cs) = digits_value (10 * acc + (of_char c - 48)) cs"

definition parse_uint :: "nat \<Rightarrow> string \<Rightarrow> nat option" where
  "parse_uint mx s =
     (let ds = (case s of c # cs \<Rightarrow> if c = CHR ''+'' then cs else s | [] \<Rightarrow> [])
      in if ds \<noteq> [] \<and> list_all is_ascii_digit ds \<and> digits_value 0 ds \<le> mx
         then Some (digits_value 0 ds) else None)"

lemma parse_uint_le: "parse_uint mx s = Some n \<Longrightarrow> n \<le> mx"
  by (auto simp: parse_uint_def Let_def split: if_splits)

text \<open>The decimal digits of a number, as \<^verbatim>\<open>to_string\<close> and \<^verbatim>\<open>format!\<close> print it.\<close>

fun show_nat :: "nat \<Rightarrow> string" where
  "show_nat n = (if n < 10 then [char_of (48 + n)]
                 else show_nat (n div 10) @ [char_of (48 + n mod 10)])"

declare show_nat.simps [simp del]

lemma digit_char [simp]: "n < 10 \<Longrightarrow> (of_char (char_of (48 + n)) :: nat) = 48 + n"
  by (simp add: of_char_of)

lemma digits_value_append:
  "digits_value acc (xs @ [c]) = 10 * digits_value acc xs + (of_char c - 48)"
  by (induction xs arbitrary: acc) auto

lemma digits_value_show_nat: "digits_value 0 (show_nat n) = n"
proof (induction n rule: show_nat.induct)
  case (1 n)
  show ?case
  proof (cases "n < 10")
    case True
    then show ?thesis by (simp add: show_nat.simps [of n])
  next
    case False
    with "1.IH" show ?thesis by (simp add: show_nat.simps [of n] digits_value_append)
  qed
qed

lemma show_nat_digits: "list_all is_ascii_digit (show_nat n) \<and> show_nat n \<noteq> []"
proof (induction n rule: show_nat.induct)
  case (1 n)
  then show ?case
    by (cases "n < 10") (simp_all add: show_nat.simps [of n] is_ascii_digit_def)
qed

lemma show_nat_plain: "c \<in> set (show_nat n) \<Longrightarrow> 48 \<le> (of_char c :: nat) \<and> (of_char c :: nat) \<le> 57"
  using show_nat_digits [of n] by (auto simp: list_all_iff is_ascii_digit_def)

lemma parse_show_nat: "n \<le> mx \<Longrightarrow> parse_uint mx (show_nat n) = Some n"
proof -
  assume "n \<le> mx"
  obtain c cs where c: "show_nat n = c # cs" "is_ascii_digit c"
    using show_nat_digits [of n] by (cases "show_nat n") auto
  then have "c \<noteq> CHR ''+''" by (auto simp: is_ascii_digit_def)
  with c \<open>n \<le> mx\<close> show ?thesis
    using show_nat_digits [of n] digits_value_show_nat [of n] by (simp add: parse_uint_def)
qed

text \<open>Signed numbers of 64 bits.\<close>

definition i64_min :: int where
  "i64_min = - 9223372036854775808"

definition parse_i64 :: "string \<Rightarrow> int option" where
  "parse_i64 s =
     (case s of
        [] \<Rightarrow> None
      | c # cs \<Rightarrow>
          if c = CHR ''-'' then
            (if cs \<noteq> [] \<and> list_all is_ascii_digit cs \<and> i64_min \<le> - int (digits_value 0 cs)
             then Some (- int (digits_value 0 cs)) else None)
          else map_option int (parse_uint i64_max s))"

definition show_int :: "int \<Rightarrow> string" where
  "show_int i = (if i < 0 then CHR ''-'' # show_nat (nat (- i)) else show_nat (nat i))"

definition i64_sat_add :: "int \<Rightarrow> int \<Rightarrow> int" where
  "i64_sat_add a b = max i64_min (min (int i64_max) (a + b))"

section \<open>Least and greatest elements of an iteration\<close>

text \<open>
  \<^verbatim>\<open>min_by_key\<close> returns the first of the least elements and \<^verbatim>\<open>max_by_key\<close> the last
  of the greatest.
\<close>

fun min_by_key :: "('a \<Rightarrow> 'b::linorder) \<Rightarrow> 'a list \<Rightarrow> 'a option" where
  "min_by_key f [] = None"
| "min_by_key f (x # xs) =
     (case min_by_key f xs of
        None \<Rightarrow> Some x
      | Some y \<Rightarrow> if f x \<le> f y then Some x else Some y)"

fun max_by_key :: "('a \<Rightarrow> 'b::linorder) \<Rightarrow> 'a list \<Rightarrow> 'a option" where
  "max_by_key f [] = None"
| "max_by_key f (x # xs) =
     (case max_by_key f xs of
        None \<Rightarrow> Some x
      | Some y \<Rightarrow> if f y < f x then Some x else Some y)"

lemma min_by_key_None [simp]: "min_by_key f xs = None \<longleftrightarrow> xs = []"
  by (cases xs) (auto split: option.splits)

lemma max_by_key_None [simp]: "max_by_key f xs = None \<longleftrightarrow> xs = []"
  by (cases xs) (auto split: option.splits)

lemma min_by_key_Some:
  "min_by_key f xs = Some m \<Longrightarrow> m \<in> set xs \<and> (\<forall>x \<in> set xs. f m \<le> f x)"
proof (induction xs arbitrary: m)
  case Nil
  then show ?case by simp
next
  case (Cons x xs)
  then show ?case
    by (cases "min_by_key f xs") (fastforce split: if_splits)+
qed

lemma max_by_key_Some:
  "max_by_key f xs = Some m \<Longrightarrow> m \<in> set xs \<and> (\<forall>x \<in> set xs. f x \<le> f m)"
proof (induction xs arbitrary: m)
  case Nil
  then show ?case by simp
next
  case (Cons x xs)
  then show ?case
    by (cases "max_by_key f xs") (fastforce split: if_splits)+
qed

end
