(* ===== verification/Tables.thy ===== *)
theory Tables
  imports Prelude
begin

text \<open>
  Ordered maps and the two interfaces the stores are built on. A \<^verbatim>\<open>BTreeMap\<close> is the list of its
  entries in the order of its keys, which is the order its iterators visit them; \<open>bt_wf\<close> is the
  type's invariant. Lookup is the library's \<open>map_of\<close>.

  The locale \<open>key_table\<close> states what a store needs of a keyed table; its lemmas are proved once and
  hold for the ordered maps through the interpretation \<open>bt\<close>. The locale \<open>guarded_machine\<close> states
  that every step of a machine keeps an invariant; the stores interpret it, and a statement about a
  whole sequence of requests is its \<open>run_inv\<close>.
\<close>

section \<open>Ordered maps\<close>

text \<open>Keys are often pairs; quantifiers over them are kept whole.\<close>

declare split_paired_All [simp del] split_paired_Ex [simp del]

type_synonym ('k, 'v) btree = "('k \<times> 'v) list"

definition bt_wf :: "('k::linorder, 'v) btree \<Rightarrow> bool" where
  "bt_wf m \<longleftrightarrow> sorted_wrt (<) (map fst m)"

fun bt_insert :: "'k::linorder \<Rightarrow> 'v \<Rightarrow> ('k, 'v) btree \<Rightarrow> ('k, 'v) btree" where
  "bt_insert k v [] = [(k, v)]"
| "bt_insert k v (e # es) =
     (if fst e < k then e # bt_insert k v es
      else if fst e = k then (k, v) # es
      else (k, v) # e # es)"

definition bt_remove :: "'k \<Rightarrow> ('k, 'v) btree \<Rightarrow> ('k, 'v) btree" where
  "bt_remove k m = filter (\<lambda>e. fst e \<noteq> k) m"

definition bt_retain :: "('k \<Rightarrow> 'v \<Rightarrow> bool) \<Rightarrow> ('k, 'v) btree \<Rightarrow> ('k, 'v) btree" where
  "bt_retain P m = filter (\<lambda>e. P (fst e) (snd e)) m"

definition bt_update :: "'k \<Rightarrow> ('v \<Rightarrow> 'v) \<Rightarrow> ('k, 'v) btree \<Rightarrow> ('k, 'v) btree" where
  "bt_update k f m = map (\<lambda>e. if fst e = k then (k, f (snd e)) else e) m"

abbreviation bt_values :: "('k, 'v) btree \<Rightarrow> 'v list" where
  "bt_values m \<equiv> map snd m"

lemma bt_wf_Nil [simp]: "bt_wf []"
  by (simp add: bt_wf_def)

lemma bt_wf_Cons: "bt_wf (e # es) \<longleftrightarrow> (\<forall>x \<in> set es. fst e < fst x) \<and> bt_wf es"
  by (auto simp: bt_wf_def)

lemma bt_wf_distinct: "bt_wf m \<Longrightarrow> distinct (map fst m)"
  by (auto simp: bt_wf_def strict_sorted_iff)

lemma set_bt_insert_subset: "set (bt_insert k v m) \<subseteq> insert (k, v) (set m)"
  by (induction m) auto

lemma bt_wf_insert [bt_simps, intro]: "bt_wf m \<Longrightarrow> bt_wf (bt_insert k v m)"
proof (induction m)
  case Nil
  show ?case by (simp add: bt_wf_Cons)
next
  case (Cons e es)
  then show ?case
    using set_bt_insert_subset [of k v es] by (fastforce simp: bt_wf_Cons)
qed

lemma bt_wf_filter: "bt_wf m \<Longrightarrow> bt_wf (filter P m)"
  by (induction m) (auto simp: bt_wf_Cons)

lemma bt_wf_remove [bt_simps, intro]: "bt_wf m \<Longrightarrow> bt_wf (bt_remove k m)"
  by (simp add: bt_remove_def bt_wf_filter)

lemma bt_wf_retain [bt_simps, intro]: "bt_wf m \<Longrightarrow> bt_wf (bt_retain P m)"
  by (simp add: bt_retain_def bt_wf_filter)

lemma fst_bt_update [simp]: "map fst (bt_update k f m) = map fst m"
  by (auto simp: bt_update_def)

lemma bt_wf_update [bt_simps, intro]: "bt_wf m \<Longrightarrow> bt_wf (bt_update k f m)"
  by (simp add: bt_wf_def)

lemma map_of_bt_insert [bt_simps]: "map_of (bt_insert k v m) = (map_of m)(k \<mapsto> v)"
  by (induction m) (auto simp: fun_eq_iff)

lemma map_of_bt_remove [bt_simps]: "map_of (bt_remove k m) = (map_of m)(k := None)"
  by (induction m) (auto simp: bt_remove_def fun_eq_iff)

lemma map_of_bt_update [bt_simps]:
  "map_of (bt_update k f m) = (map_of m)(k := map_option f (map_of m k))"
  by (induction m) (auto simp: bt_update_def fun_eq_iff)

lemma map_of_bt_retain [bt_simps]:
  assumes "bt_wf m"
  shows "map_of (bt_retain P m) k =
    (case map_of m k of None \<Rightarrow> None | Some v \<Rightarrow> if P k v then Some v else None)"
  using assms
proof (induction m)
  case Nil
  show ?case by (simp add: bt_retain_def)
next
  case (Cons e es)
  have "fst e \<notin> fst ` set es" using bt_wf_distinct [OF Cons.prems] by simp
  then have "map_of es (fst e) = None" by (simp add: map_of_eq_None_iff)
  with Cons show ?case
    by (cases e) (auto simp: bt_retain_def bt_wf_Cons split: option.splits if_splits)
qed

lemma bt_mem_iff: "bt_wf m \<Longrightarrow> (k, v) \<in> set m \<longleftrightarrow> map_of m k = Some v"
  using bt_wf_distinct by (metis map_of_eq_Some_iff)

lemma length_bt_insert [bt_simps]:
  "bt_wf m \<Longrightarrow> length (bt_insert k v m) = (if map_of m k = None then Suc (length m) else length m)"
proof (induction m)
  case Nil
  show ?case by simp
next
  case (Cons e es)
  have "fst e > k \<Longrightarrow> map_of es k = None"
    using Cons.prems by (force simp: bt_wf_Cons map_of_eq_None_iff)
  with Cons show ?case by (cases e) (auto simp: bt_wf_Cons)
qed

lemma length_bt_update [bt_simps]: "length (bt_update k f m) = length m"
  by (simp add: bt_update_def)

lemma length_bt_remove_le [simp]: "length (bt_remove k m) \<le> length m"
  by (simp add: bt_remove_def)

lemma length_bt_retain_le [simp]: "length (bt_retain P m) \<le> length m"
  by (simp add: bt_retain_def)

lemma length_bt_remove_less: "map_of m k \<noteq> None \<Longrightarrow> length (bt_remove k m) < length m"
proof -
  assume "map_of m k \<noteq> None"
  then obtain v where "(k, v) \<in> set m" by (auto dest: map_of_SomeD)
  then show ?thesis
    unfolding bt_remove_def by (rule length_filter_less) simp
qed

section \<open>The contract of a keyed table\<close>

text \<open>
  What a store relies on: a value stored is found again, nothing else changes, removing forgets,
  and the size counts the keys.
\<close>

locale key_table =
  fixes get :: "'m \<Rightarrow> 'k \<Rightarrow> 'v option"
    and put :: "'k \<Rightarrow> 'v \<Rightarrow> 'm \<Rightarrow> 'm"
    and del :: "'k \<Rightarrow> 'm \<Rightarrow> 'm"
    and count :: "'m \<Rightarrow> nat"
    and ok :: "'m \<Rightarrow> bool"
  assumes get_put: "ok m \<Longrightarrow> get (put k v m) = (get m)(k \<mapsto> v)"
    and get_del: "ok m \<Longrightarrow> get (del k m) = (get m)(k := None)"
    and ok_put: "ok m \<Longrightarrow> ok (put k v m)"
    and ok_del: "ok m \<Longrightarrow> ok (del k m)"
    and count_put: "ok m \<Longrightarrow> count (put k v m) = (if get m k = None then Suc (count m) else count m)"
    and count_del: "ok m \<Longrightarrow> get m k \<noteq> None \<Longrightarrow> count (del k m) < count m"
begin

lemma put_in_place_bounded:
  assumes "ok m" "count m \<le> cap" "get m k \<noteq> None"
  shows "count (put k v m) \<le> cap"
  using assms by (auto simp: count_put)

lemma put_with_room_bounded:
  assumes "ok m" "count m < cap"
  shows "count (put k v m) \<le> cap"
  using assms by (simp add: count_put)

lemma put_after_del_bounded:
  assumes "ok m" "count m \<le> cap" "get m old \<noteq> None"
  shows "count (put k v (del old m)) \<le> cap"
proof -
  have "count (del old m) < cap" using assms count_del by fastforce
  with assms show ?thesis by (simp add: put_with_room_bounded ok_del)
qed

lemma put_overwrites: "ok m \<Longrightarrow> get (put k v (put k w m)) = get (put k v m)"
  by (simp add: get_put ok_put)

lemma put_commutes: "ok m \<Longrightarrow> j \<noteq> k \<Longrightarrow> get (put j v (put k w m)) = get (put k w (put j v m))"
  by (auto simp: get_put ok_put fun_upd_twist)

lemma del_forgets: "ok m \<Longrightarrow> get (del k (put k v m)) = (get m)(k := None)"
  by (simp add: get_put get_del ok_put)

end

interpretation bt: key_table map_of bt_insert bt_remove length bt_wf
  by unfold_locales (auto simp: bt_simps length_bt_remove_less)

section \<open>Machines that keep an invariant\<close>

locale guarded_machine =
  fixes step :: "'s \<Rightarrow> 'e \<Rightarrow> 's"
    and inv :: "'s \<Rightarrow> bool"
  assumes step_inv: "inv s \<Longrightarrow> inv (step s e)"
begin

lemma run_inv: "inv s \<Longrightarrow> inv (foldl step s es)"
  by (induction es arbitrary: s) (simp_all add: step_inv)

end

text \<open>A machine one of whose readings never falls, such as a sequence number or an epoch.\<close>

locale rising_machine = guarded_machine step inv
  for step :: "'s \<Rightarrow> 'e \<Rightarrow> 's" and inv :: "'s \<Rightarrow> bool" +
  fixes reading :: "'s \<Rightarrow> nat"
  assumes step_rises: "inv s \<Longrightarrow> reading s \<le> reading (step s e)"
begin

lemma run_rises: "inv s \<Longrightarrow> reading s \<le> reading (foldl step s es)"
proof (induction es arbitrary: s)
  case Nil
  show ?case by simp
next
  case (Cons e es)
  have "reading s \<le> reading (step s e)" using Cons.prems by (rule step_rises)
  also have "\<dots> \<le> reading (foldl step (step s e) es)" using Cons.prems by (intro Cons.IH step_inv)
  finally show ?case by simp
qed

end

section \<open>Leases\<close>

text \<open>
  The contract of a table of leases: an operation made before a lease expires, by anyone but its
  holder, leaves the lease as it is. What a client concludes is that it keeps a lease through any
  sequence of such operations, in whatever order their times come.
\<close>

locale lease_table = guarded_machine step ok
  for step :: "'s \<Rightarrow> 'op \<Rightarrow> 's" and ok :: "'s \<Rightarrow> bool" +
  fixes actor :: "'op \<Rightarrow> 'r"
    and moment :: "'op \<Rightarrow> int"
    and lease :: "'s \<Rightarrow> 'k \<Rightarrow> 'l option"
    and holder :: "'l \<Rightarrow> 'r"
    and expiry :: "'l \<Rightarrow> int"
  assumes lease_kept:
    "ok s \<Longrightarrow> lease s k = Some l \<Longrightarrow> moment e < expiry l \<Longrightarrow> actor e \<noteq> holder l \<Longrightarrow>
     lease (step s e) k = Some l"
begin

lemma lease_kept_run:
  assumes "ok s" "lease s k = Some l"
    and "\<forall>e \<in> set es. moment e < expiry l \<and> actor e \<noteq> holder l"
  shows "lease (foldl step s es) k = Some l"
  using assms by (induction es arbitrary: s) (simp_all add: lease_kept step_inv)

end

end
