(* ===== verification/GateRunners.thy ===== *)
theory GateRunners
  imports Tables
begin

text \<open>
  The live gate runners the forge knows by heartbeat
  (\<^verbatim>\<open>crates/jeryu-api/src/web/control_plane/gate_runners.rs\<close>): the heartbeat and its parts, the
  kind of runner its labels make it, its validation, and the store that keeps the last accepted
  heartbeat of every runner. The gate claims match a repository's required capabilities against
  the heartbeats kept here.

  The store's mutex makes every operation atomic, so each operation is a function from the store
  to the store and its answer. Error texts are constructors of \<open>hb_error\<close> carrying what the text
  names.
\<close>

section \<open>Heartbeats\<close>

record runner_tool =
  tool_name :: string
  tool_version :: "string option"
  tool_sha256 :: "string option"

record runner_code =
  code_repo :: string
  code_commit :: string
  code_version :: "string option"
  code_installed_at :: "time option"

record gate_runner_task =
  task_repo :: string
  task_pr :: "nat option"
  task_sha :: string
  task_recipe :: string
  task_target :: "string option"
  task_kind :: "string option"
  task_started_at :: time

record gate_runner_result =
  res_repo :: string
  res_pr :: "nat option"
  res_sha :: string
  res_recipe :: string
  res_conclusion :: string
  res_target :: "string option"
  res_reason :: "string option"
  res_seconds :: nat
  res_kind :: "string option"
  res_exit_code :: "int option"
  res_finished_at :: time

record gate_runner_heartbeat =
  hb_runner_id :: string
  hb_host :: string
  hb_slot :: nat
  hb_labels :: "string list"
  hb_capabilities :: "string list"
  hb_interval_seconds :: "nat option"
  hb_current :: "gate_runner_task option"
  hb_last :: "gate_runner_result option"
  hb_code :: "runner_code option"
  hb_tools :: "runner_tool list"

record gate_runner_record =
  rec_heartbeat :: gate_runner_heartbeat
  rec_reporter :: string
  rec_received_at :: time

record heartbeat_accepted =
  acc_accepted :: bool
  acc_runner_id :: string
  acc_offline_after_seconds :: int

record gate_runner_store =
  gs_runners :: "(string, gate_runner_record) btree"
  gs_reporters :: "string list"

datatype hb_error =
    UnknownCapability string
  | DuplicateCapability string
  | WrongLength string nat
  | UnexpectedCharacter string
  | TooManyLabels
  | ExclusiveLabels "string list"
  | IntervalOutOfRange
  | NotOwnerName string
  | NotHexSha string
  | TargetRequired string
  | TargetForbidden string
  | WrongConclusion "string list"
  | TooManyTools
  | WrongToolName nat
  | ToolListedTwice nat string
  | WrongToolSha nat
  | WrongCommit
  | TooManyRunners

definition RUNNER_OFFLINE_AFTER_SECS :: int where
  "RUNNER_OFFLINE_AFTER_SECS = 180"

definition OFFLINE_AFTER_INTERVALS :: int where
  "OFFLINE_AFTER_INTERVALS = 3"

definition MAX_RUNNERS :: nat where
  "MAX_RUNNERS = 256"

definition GATE_CONCLUSIONS :: "string list" where
  "GATE_CONCLUSIONS = [''success'', ''failure'', ''error'']"

definition REVIEW_CONCLUSIONS :: "string list" where
  "REVIEW_CONCLUSIONS =
     [''approve'', ''hold'', ''failed'', ''interrupted'', ''publication_rejected'', ''too_large'']"

definition AUTOMATION_CONCLUSIONS :: "string list" where
  "AUTOMATION_CONCLUSIONS = [''opened'', ''staged'', ''waiting'', ''failed'']"

definition DEPLOY_CONCLUSIONS :: "string list" where
  "DEPLOY_CONCLUSIONS = [''deployed'', ''failed'', ''skipped'']"

definition JANKURAI_AUDIT_CONCLUSIONS :: "string list" where
  "JANKURAI_AUDIT_CONCLUSIONS = [''scored'', ''tool-failed'', ''refused'', ''failed'']"

section \<open>What kind of runner beats\<close>

definition is_reviewer :: "gate_runner_heartbeat \<Rightarrow> bool" where
  "is_reviewer hb \<longleftrightarrow> ''redteam'' \<in> set (hb_labels hb)"

definition is_automation :: "gate_runner_heartbeat \<Rightarrow> bool" where
  "is_automation hb \<longleftrightarrow> ''automation'' \<in> set (hb_labels hb)"

definition is_deploy :: "gate_runner_heartbeat \<Rightarrow> bool" where
  "is_deploy hb \<longleftrightarrow> ''deploy'' \<in> set (hb_labels hb)"

definition is_jankurai_audit :: "gate_runner_heartbeat \<Rightarrow> bool" where
  "is_jankurai_audit hb \<longleftrightarrow> ''jankurai-audit'' \<in> set (hb_labels hb)"

definition runner_kind :: "gate_runner_heartbeat \<Rightarrow> string" where
  "runner_kind hb =
     (if is_deploy hb then ''deployer''
      else if is_automation hb then ''automation''
      else if is_reviewer hb then ''reviewer''
      else if is_jankurai_audit hb then ''jankurai-audit''
      else ''gate'')"

definition holds_gate_slot :: "gate_runner_heartbeat \<Rightarrow> bool" where
  "holds_gate_slot hb \<longleftrightarrow> runner_kind hb = ''gate''"

definition offline_after_secs :: "gate_runner_heartbeat \<Rightarrow> int" where
  "offline_after_secs hb =
     (case hb_interval_seconds hb of
        None \<Rightarrow> RUNNER_OFFLINE_AFTER_SECS
      | Some interval \<Rightarrow>
          if interval \<le> i64_max
          then max RUNNER_OFFLINE_AFTER_SECS
                 (min (int i64_max) (int interval * OFFLINE_AFTER_INTERVALS))
          else RUNNER_OFFLINE_AFTER_SECS)"

definition is_online :: "gate_runner_record \<Rightarrow> time \<Rightarrow> bool" where
  "is_online r now \<longleftrightarrow>
     num_seconds (now - rec_received_at r) \<le> offline_after_secs (rec_heartbeat r)"

definition normalize_gate_conclusion :: "gate_runner_heartbeat \<Rightarrow> gate_runner_heartbeat" where
  "normalize_gate_conclusion hb =
     (if runner_kind hb \<noteq> ''gate'' then hb
      else case hb_last hb of
        None \<Rightarrow> hb
      | Some r \<Rightarrow>
          let settle = (\<lambda>why. hb\<lparr>hb_last := Some (r\<lparr>res_conclusion := ''error'',
                res_reason := (case res_reason r of Some w \<Rightarrow> Some w | None \<Rightarrow> Some why)\<rparr>)\<rparr>)
          in if res_conclusion r = ''timed_out'' then settle ''the gate timed out''
             else if res_conclusion r = ''inputs_changed''
             then settle ''the gate's inputs changed while it ran''
             else hb)"

section \<open>Validation\<close>

definition check_token :: "string \<Rightarrow> string \<Rightarrow> nat \<Rightarrow> string \<Rightarrow> hb_error + unit" where
  "check_token field val mx extra =
     (if val = [] \<or> length val > mx then Inl (WrongLength field mx)
      else if \<not> list_all (\<lambda>c. is_ascii_alphanumeric c \<or> c \<in> set extra) val
      then Inl (UnexpectedCharacter field)
      else Inr ())"

definition check_text :: "string \<Rightarrow> string \<Rightarrow> nat \<Rightarrow> hb_error + unit" where
  "check_text field val mx =
     (if val = [] \<or> char_count val > mx then Inl (WrongLength field mx)
      else if has_control val then Inl (UnexpectedCharacter field)
      else Inr ())"

definition check_gate :: "string \<Rightarrow> string \<Rightarrow> string \<Rightarrow> string \<Rightarrow> hb_error + unit" where
  "check_gate field repo sha recipe =
     (case split_on (CHR ''/'') repo of
        [owner, nm] \<Rightarrow>
          first_err
            [check_token (field @ ''.repo'') owner 64 ''._-'',
             check_token (field @ ''.repo'') nm 64 ''._-'',
             ensure (7 \<le> length sha \<and> length sha \<le> 64 \<and> list_all is_ascii_hexdigit sha)
               (NotHexSha field),
             check_token (field @ ''.recipe'') recipe 64 ''._/ -'']
      | _ \<Rightarrow> Inl (NotOwnerName field))"

definition check_target :: "string \<Rightarrow> string option \<Rightarrow> bool \<Rightarrow> hb_error + unit" where
  "check_target field target deploy =
     (case target of
        Some t \<Rightarrow> if deploy then check_token (field @ ''.target'') t 64 ''._/:- ''
                  else Inl (TargetForbidden field)
      | None \<Rightarrow> if deploy then Inl (TargetRequired field) else Inr ())"

definition check_kind :: "string \<Rightarrow> string option \<Rightarrow> hb_error + unit" where
  "check_kind field kind =
     (case kind of
        Some k \<Rightarrow> check_token (field @ ''.kind'') k 32 ''._-''
      | None \<Rightarrow> Inr ())"

definition check_code :: "runner_code \<Rightarrow> hb_error + unit" where
  "check_code code = first_err
     [check_text ''code.repo'' (code_repo code) 200,
      ensure (7 \<le> length (code_commit code) \<and> length (code_commit code) \<le> 64 \<and>
              list_all is_lower_hex (code_commit code)) WrongCommit,
      (case code_version code of
         Some v \<Rightarrow> check_text ''code.version'' v 100
       | None \<Rightarrow> Inr ())]"

definition is_tool_name_char :: "char \<Rightarrow> bool" where
  "is_tool_name_char c \<longleftrightarrow> is_ascii_lower c \<or> is_ascii_digit c \<or> c \<in> set ''._@-''"

definition check_tool :: "runner_tool list \<Rightarrow> nat \<Rightarrow> hb_error + unit" where
  "check_tool tools i = (let tool = tools ! i in first_err
     [ensure (tool_name tool \<noteq> [] \<and> length (tool_name tool) \<le> 64 \<and>
              list_all is_tool_name_char (tool_name tool)) (WrongToolName i),
      ensure (\<not> list_ex (\<lambda>seen. tool_name seen = tool_name tool) (take i tools))
        (ToolListedTwice i (tool_name tool)),
      (case tool_version tool of
         Some v \<Rightarrow> check_text (''tools['' @ show_nat i @ ''].version'') v 100
       | None \<Rightarrow> Inr ()),
      (case tool_sha256 tool of
         Some h \<Rightarrow> ensure (length h = 64 \<and> list_all is_lower_hex h) (WrongToolSha i)
       | None \<Rightarrow> Inr ())])"

definition check_tools :: "runner_tool list \<Rightarrow> hb_error + unit" where
  "check_tools tools =
     (if length tools > 32 then Inl TooManyTools
      else first_err (map (check_tool tools) [0..<length tools]))"

fun capabilities_loop :: "string list \<Rightarrow> string list \<Rightarrow> hb_error + unit" where
  "capabilities_loop seen [] = Inr ()"
| "capabilities_loop seen (c # cs) =
     (if c \<noteq> ''host-ci'' then Inl (UnknownCapability c)
      else if c \<in> set seen then Inl (DuplicateCapability c)
      else capabilities_loop (c # seen) cs)"

definition validate_capabilities :: "string list \<Rightarrow> hb_error + unit" where
  "validate_capabilities caps = capabilities_loop [] caps"

definition claimed_kinds :: "gate_runner_heartbeat \<Rightarrow> string list" where
  "claimed_kinds hb = map snd (filter fst
     [(is_reviewer hb, ''redteam''), (is_automation hb, ''automation''),
      (is_deploy hb, ''deploy''), (is_jankurai_audit hb, ''jankurai-audit'')])"

definition allowed_conclusions :: "gate_runner_heartbeat \<Rightarrow> string list" where
  "allowed_conclusions hb =
     (if is_deploy hb then DEPLOY_CONCLUSIONS
      else if is_automation hb then AUTOMATION_CONCLUSIONS
      else if is_reviewer hb then REVIEW_CONCLUSIONS
      else if is_jankurai_audit hb then JANKURAI_AUDIT_CONCLUSIONS
      else GATE_CONCLUSIONS)"

definition hb_validate :: "gate_runner_heartbeat \<Rightarrow> hb_error + unit" where
  "hb_validate hb = first_err
     [validate_capabilities (hb_capabilities hb),
      check_token ''runnerId'' (hb_runner_id hb) 128 ''._/-'',
      check_token ''host'' (hb_host hb) 64 ''.-'',
      ensure (length (hb_labels hb) \<le> 16) TooManyLabels,
      first_err (map (\<lambda>l. check_token ''labels'' l 64 ''._/:- '') (hb_labels hb)),
      ensure (length (claimed_kinds hb) \<le> 1) (ExclusiveLabels (claimed_kinds hb)),
      (case hb_interval_seconds hb of
         Some i \<Rightarrow> ensure (30 \<le> i \<and> i \<le> 86400) IntervalOutOfRange
       | None \<Rightarrow> Inr ()),
      (case hb_current hb of
         Some t \<Rightarrow> first_err
           [check_gate ''current'' (task_repo t) (task_sha t) (task_recipe t),
            check_target ''current'' (task_target t) (is_deploy hb),
            check_kind ''current'' (task_kind t)]
       | None \<Rightarrow> Inr ()),
      (case hb_last hb of
         Some r \<Rightarrow> first_err
           [check_gate ''last'' (res_repo r) (res_sha r) (res_recipe r),
            check_target ''last'' (res_target r) (is_deploy hb),
            check_kind ''last'' (res_kind r),
            ensure (res_conclusion r \<in> set (allowed_conclusions hb))
              (WrongConclusion (allowed_conclusions hb))]
       | None \<Rightarrow> Inr ()),
      (case hb_code hb of Some c \<Rightarrow> check_code c | None \<Rightarrow> Inr ()),
      check_tools (hb_tools hb)]"

section \<open>The store\<close>

definition with_reporters :: "string list \<Rightarrow> gate_runner_store" where
  "with_reporters logins =
     \<lparr>gs_runners = [], gs_reporters = filter (\<lambda>l. l \<noteq> []) (map trim logins)\<rparr>"

definition from_env :: "string \<Rightarrow> gate_runner_store" where
  "from_env configured = with_reporters (split_on (CHR '','') configured)"

definition may_report :: "gate_runner_store \<Rightarrow> string \<Rightarrow> bool \<Rightarrow> bool" where
  "may_report st login admin \<longleftrightarrow> admin \<or> login \<in> set (gs_reporters st)"

definition gr_record :: "gate_runner_store \<Rightarrow> gate_runner_heartbeat \<Rightarrow> string \<Rightarrow> time
    \<Rightarrow> gate_runner_store \<times> (hb_error + heartbeat_accepted)" where
  "gr_record st heartbeat reporter now =
     (let hb = normalize_gate_conclusion heartbeat in
      case hb_validate hb of
        Inl e \<Rightarrow> (st, Inl e)
      | Inr _ \<Rightarrow>
          if map_of (gs_runners st) (hb_runner_id hb) = None \<and> length (gs_runners st) \<ge> MAX_RUNNERS
          then (st, Inl TooManyRunners)
          else (st\<lparr>gs_runners := bt_insert (hb_runner_id hb)
                  \<lparr>rec_heartbeat = hb, rec_reporter = reporter, rec_received_at = now\<rparr>
                  (gs_runners st)\<rparr>,
                Inr \<lparr>acc_accepted = True, acc_runner_id = hb_runner_id hb,
                     acc_offline_after_seconds = offline_after_secs hb\<rparr>))"

definition gr_previous :: "gate_runner_store \<Rightarrow> string \<Rightarrow> gate_runner_heartbeat option" where
  "gr_previous st runner_id = map_option rec_heartbeat (map_of (gs_runners st) runner_id)"

definition gr_snapshot :: "gate_runner_store \<Rightarrow> gate_runner_record list" where
  "gr_snapshot st = bt_values (gs_runners st)"

section \<open>Properties\<close>

lemma capabilities_loop_seen:
  "capabilities_loop [''host-ci''] cs = Inr () \<longleftrightarrow> cs = []"
  by (cases cs) auto

lemma validate_capabilities_iff:
  "validate_capabilities caps = Inr () \<longleftrightarrow> caps = [] \<or> caps = [''host-ci'']"
  by (cases caps) (auto simp: validate_capabilities_def capabilities_loop_seen)

lemmas kind_defs = is_reviewer_def is_automation_def is_deploy_def is_jankurai_audit_def

lemma hb_validate_conjuncts:
  assumes "hb_validate hb = Inr ()"
  shows "hb_capabilities hb = [] \<or> hb_capabilities hb = [''host-ci'']"
    and "length (claimed_kinds hb) \<le> 1"
    and "hb_interval_seconds hb = Some i \<Longrightarrow> 30 \<le> i \<and> i \<le> 86400"
    and "hb_last hb = Some r \<Longrightarrow> res_conclusion r \<in> set (allowed_conclusions hb)"
    and "hb_runner_id hb \<noteq> []"
  using assms
  by (auto simp: hb_validate_def validate_capabilities_iff check_token_def split: if_splits)

lemma normalize_runner_id [simp]:
  "hb_runner_id (normalize_gate_conclusion hb) = hb_runner_id hb"
  by (simp add: normalize_gate_conclusion_def Let_def split: option.splits)

text \<open>
  What every reachable store satisfies: it is a map of at most \<open>MAX_RUNNERS\<close> runners, and each is
  filed under its own id with a heartbeat the validation accepts.
\<close>

definition gr_inv :: "gate_runner_store \<Rightarrow> bool" where
  "gr_inv st \<longleftrightarrow> bt_wf (gs_runners st) \<and> length (gs_runners st) \<le> MAX_RUNNERS \<and>
     (\<forall>k r. map_of (gs_runners st) k = Some r \<longrightarrow>
        hb_runner_id (rec_heartbeat r) = k \<and> hb_validate (rec_heartbeat r) = Inr ())"

lemma gr_inv_init: "gr_inv (with_reporters logins)"
  by (simp add: gr_inv_def with_reporters_def)

lemma gr_record_cases:
  obtains (refused) e where "gr_record st hb reporter now = (st, Inl e)"
  | (kept) hb' where "hb' = normalize_gate_conclusion hb" "hb_validate hb' = Inr ()"
      "map_of (gs_runners st) (hb_runner_id hb') \<noteq> None \<or> length (gs_runners st) < MAX_RUNNERS"
      "gr_record st hb reporter now =
         (st\<lparr>gs_runners := bt_insert (hb_runner_id hb')
             \<lparr>rec_heartbeat = hb', rec_reporter = reporter, rec_received_at = now\<rparr> (gs_runners st)\<rparr>,
          Inr \<lparr>acc_accepted = True, acc_runner_id = hb_runner_id hb',
               acc_offline_after_seconds = offline_after_secs hb'\<rparr>)"
proof (cases "hb_validate (normalize_gate_conclusion hb)")
  case (Inl e)
  then show ?thesis using refused by (simp add: gr_record_def Let_def)
next
  case (Inr u)
  then show ?thesis
    using refused kept by (cases "map_of (gs_runners st) (hb_runner_id hb) = None \<and> MAX_RUNNERS \<le> length (gs_runners st)")
      (auto simp: gr_record_def Let_def)
qed

lemma gr_record_inv:
  assumes "gr_inv st"
  shows "gr_inv (fst (gr_record st hb reporter now))"
proof (cases rule: gr_record_cases [of st hb reporter now])
  case (refused e)
  with assms show ?thesis by simp
next
  case (kept hb')
  have "length (bt_insert (hb_runner_id hb') r (gs_runners st)) \<le> MAX_RUNNERS" for r
    using assms kept(3) by (auto simp: gr_inv_def bt_simps)
  with assms kept show ?thesis by (auto simp: gr_inv_def bt_simps)
qed

definition gr_step :: "gate_runner_store \<Rightarrow> gate_runner_heartbeat \<times> string \<times> time \<Rightarrow> gate_runner_store" where
  "gr_step st e = (case e of (hb, reporter, now) \<Rightarrow> fst (gr_record st hb reporter now))"

interpretation runners: guarded_machine gr_step gr_inv
  by unfold_locales (auto simp: gr_step_def gr_record_inv split: prod.splits)

section \<open>What a report does\<close>

definition gate_labels :: "string set" where
  "gate_labels = {''redteam'', ''automation'', ''deploy'', ''jankurai-audit''}"

lemma holds_gate_slot_iff: "holds_gate_slot hb \<longleftrightarrow> set (hb_labels hb) \<inter> gate_labels = {}"
  by (auto simp: holds_gate_slot_def runner_kind_def kind_defs gate_labels_def)

lemma claimed_kinds_set: "set (claimed_kinds hb) = set (hb_labels hb) \<inter> gate_labels"
  by (auto simp: claimed_kinds_def kind_defs gate_labels_def)

lemma short_list_elems: "length xs \<le> 1 \<Longrightarrow> a \<in> set xs \<Longrightarrow> b \<in> set xs \<Longrightarrow> a = b"
  by (cases xs) auto

lemma normalize_interval [simp]:
  "hb_interval_seconds (normalize_gate_conclusion hb) = hb_interval_seconds hb"
  by (simp add: normalize_gate_conclusion_def Let_def split: option.splits)

lemma offline_after_secs_valid:
  assumes "hb_validate hb = Inr ()"
  shows "offline_after_secs hb =
           (case hb_interval_seconds hb of None \<Rightarrow> 180 | Some i \<Rightarrow> max 180 (3 * int i))"
    and "180 \<le> offline_after_secs hb \<and> offline_after_secs hb \<le> 259200"
proof -
  have "hb_interval_seconds hb = Some i \<Longrightarrow> i \<le> 86400" for i
    using hb_validate_conjuncts(3) [OF assms] by auto
  then show "offline_after_secs hb =
      (case hb_interval_seconds hb of None \<Rightarrow> 180 | Some i \<Rightarrow> max 180 (3 * int i))"
    and "180 \<le> offline_after_secs hb \<and> offline_after_secs hb \<le> 259200"
    by (auto simp: offline_after_secs_def RUNNER_OFFLINE_AFTER_SECS_def OFFLINE_AFTER_INTERVALS_def
        i64_max_def min_def max_def split: option.splits)
qed

text \<open>
  A refused heartbeat changes nothing. An accepted one is what the store then returns for that
  runner, with a gate's two superseded conclusions rewritten, every other runner's heartbeat is as
  it was, and the answer echoes the runner's id and its own offline window.
\<close>

lemma heartbeat_is_stored_whole:
  assumes "gr_record st hb reporter now = (st', answer)"
  shows "case answer of
      Inl e \<Rightarrow> st' = st
    | Inr acc \<Rightarrow>
        gr_previous st' = (gr_previous st)(hb_runner_id hb \<mapsto> normalize_gate_conclusion hb) \<and>
        hb_validate (normalize_gate_conclusion hb) = Inr () \<and>
        gs_reporters st' = gs_reporters st \<and>
        acc_runner_id acc = hb_runner_id hb \<and>
        acc_offline_after_seconds acc = offline_after_secs (normalize_gate_conclusion hb)"
proof (cases rule: gr_record_cases [of st hb reporter now])
  case (refused e)
  with assms show ?thesis by auto
next
  case (kept hb')
  with assms show ?thesis by (auto simp: gr_previous_def bt_simps fun_eq_iff)
qed

text \<open>
  A store that has taken any sequence of reports holds at most \<open>MAX_RUNNERS\<close> runners, each under
  its own id, in the order of the ids, with a heartbeat that passes validation.
\<close>

lemma runner_store_stays_valid:
  "gr_inv (foldl gr_step (from_env configured) reports)"
  unfolding from_env_def by (rule runners.run_inv) (rule gr_inv_init)

text \<open>
  A runner is online from an accepted report until its window has passed: 180 seconds, or three
  of its own intervals when that is longer, and never more than three days. Whole seconds are
  compared, so the last instant online is just before one second past the window.
\<close>

lemma runner_online_window:
  assumes "gr_record st hb reporter now = (st', Inr acc)"
  shows "\<exists>r. map_of (gs_runners st') (hb_runner_id hb) = Some r \<and> rec_received_at r = now \<and>
    (\<forall>t. is_online r t \<longleftrightarrow> t < now + secs (acc_offline_after_seconds acc + 1)) \<and>
    acc_offline_after_seconds acc =
      (case hb_interval_seconds hb of None \<Rightarrow> 180 | Some i \<Rightarrow> max 180 (3 * int i)) \<and>
    180 \<le> acc_offline_after_seconds acc \<and> acc_offline_after_seconds acc \<le> 259200"
proof (cases rule: gr_record_cases [of st hb reporter now])
  case (refused e)
  with assms show ?thesis by simp
next
  case (kept hb')
  note w = offline_after_secs_valid [OF kept(2)]
  have n: "hb_interval_seconds hb' = hb_interval_seconds hb" "hb_runner_id hb' = hb_runner_id hb"
    by (simp_all add: kept(1))
  have "0 \<le> offline_after_secs hb'" using w(2) by simp
  then have "num_seconds (t - now) \<le> offline_after_secs hb' \<longleftrightarrow> t < now + secs (offline_after_secs hb' + 1)"
    for t by (subst num_seconds_le_iff) auto
  with assms kept(4) w show ?thesis by (auto simp: bt_simps is_online_def n)
qed

text \<open>
  C19. Every runner a reachable store holds has exactly one kind. It takes a gate slot exactly when
  it carries none of the four labels of the other kinds, it never carries two of them, the last
  result it reports is one its kind may report, and it advertises at most the capability
  \<open>host-ci\<close>, once.
\<close>

theorem stored_runner_has_one_kind:
  assumes "r \<in> set (gr_snapshot (foldl gr_step (from_env configured) reports))"
  shows "(holds_gate_slot (rec_heartbeat r) \<longleftrightarrow> set (hb_labels (rec_heartbeat r)) \<inter> gate_labels = {}) \<and>
    (\<forall>a b. a \<in> set (hb_labels (rec_heartbeat r)) \<inter> gate_labels \<and>
           b \<in> set (hb_labels (rec_heartbeat r)) \<inter> gate_labels \<longrightarrow> a = b) \<and>
    (\<forall>l. hb_last (rec_heartbeat r) = Some l \<longrightarrow>
       res_conclusion l \<in> set (allowed_conclusions (rec_heartbeat r))) \<and>
    hb_capabilities (rec_heartbeat r) \<in> {[], [''host-ci'']}"
proof -
  define st where "st = foldl gr_step (from_env configured) reports"
  have inv: "gr_inv st"
    unfolding st_def from_env_def by (rule runners.run_inv) (rule gr_inv_init)
  obtain k where "(k, r) \<in> set (gs_runners st)" using assms by (auto simp: gr_snapshot_def st_def)
  then have "map_of (gs_runners st) k = Some r"
    using inv by (simp add: gr_inv_def bt_mem_iff)
  with inv have "hb_validate (rec_heartbeat r) = Inr ()" by (auto simp: gr_inv_def)
  note v = hb_validate_conjuncts [OF this]
  show ?thesis
    using v(1,4) short_list_elems [OF v(2)]
    by (auto simp: holds_gate_slot_iff claimed_kinds_set)
qed

section \<open>Witnesses\<close>

definition ex_runner :: gate_runner_heartbeat where
  "ex_runner = \<lparr>hb_runner_id = ''r1'', hb_host = ''box'', hb_slot = 0,
     hb_labels = [''redteam''], hb_capabilities = [''host-ci''], hb_interval_seconds = Some 600,
     hb_current = None, hb_last = None, hb_code = None, hb_tools = []\<rparr>"

lemma heartbeat_is_stored_whole_witness:
  "gr_previous (fst (gr_record (from_env ''ci'') ex_runner ''ci'' 0)) ''r1'' = Some ex_runner"
proof -
  have "gr_record (from_env ''ci'') ex_runner ''ci'' 0 =
      (fst (gr_record (from_env ''ci'') ex_runner ''ci'' 0),
       Inr \<lparr>acc_accepted = True, acc_runner_id = ''r1'', acc_offline_after_seconds = 1800\<rparr>)"
    by code_simp
  from heartbeat_is_stored_whole [OF this] show ?thesis
    by (simp add: normalize_gate_conclusion_def ex_runner_def)
qed

lemma runner_online_window_witness:
  "\<exists>r. map_of (gs_runners (fst (gr_record (with_reporters []) ex_runner ''ci'' 0))) ''r1'' = Some r \<and>
       is_online r (secs 1800) \<and> \<not> is_online r (secs 1801)"
proof -
  have "gr_record (with_reporters []) ex_runner ''ci'' 0 =
      (fst (gr_record (with_reporters []) ex_runner ''ci'' 0),
       Inr \<lparr>acc_accepted = True, acc_runner_id = ''r1'', acc_offline_after_seconds = 1800\<rparr>)"
    by code_simp
  from runner_online_window [OF this]
  show ?thesis by (auto simp: ex_runner_def secs_def)
qed

theorem stored_runner_has_one_kind_witness:
  "\<not> holds_gate_slot ex_runner"
proof -
  define r where "r = \<lparr>rec_heartbeat = ex_runner, rec_reporter = ''ci'', rec_received_at = 0\<rparr>"
  have "gr_snapshot (foldl gr_step (from_env ''ci'') [(ex_runner, ''ci'', 0)]) = [r]"
    unfolding r_def by code_simp
  then have "r \<in> set (gr_snapshot (foldl gr_step (from_env ''ci'') [(ex_runner, ''ci'', 0)]))" by simp
  from stored_runner_has_one_kind [OF this] show ?thesis
    by (auto simp: r_def ex_runner_def gate_labels_def)
qed

end
