(* ===== verification/Forge.thy ===== *)
theory Forge
  imports Tables
begin

text \<open>
  What the handlers read of the forge's core. The core (the \<^verbatim>\<open>jeryu_core\<close> crate) is a dependency
  and not part of this repository: its rows appear as records with the fields the handlers use, and
  its answers as arguments of the operations. \<open>find_repo\<close> is the repository's own lookup
  (\<^verbatim>\<open>crates/jeryu-api/src/web/repositories.rs\<close>) over the core's listing.
\<close>

record repository =
  repo_id :: string
  repo_owner :: string
  repo_name :: string
  repo_full_name :: string
  repo_default_branch :: string

record account_summary =
  acct_login :: string
  acct_admin :: bool

definition find_repo :: "repository list \<Rightarrow> string \<Rightarrow> repository option" where
  "find_repo repositories i = find (\<lambda>r. repo_id r = i \<or> repo_full_name r = i) repositories"

lemma find_repo_Some:
  "find_repo rs i = Some r \<Longrightarrow> r \<in> set rs \<and> (repo_id r = i \<or> repo_full_name r = i)"
  by (auto simp: find_repo_def find_Some_iff)

text \<open>
  A ref whose tip moved (\<^verbatim>\<open>crates/jeryu-api/src/ci_bridge.rs\<close>), and the branches contributions
  arrive on (\<^verbatim>\<open>crates/jeryu-api/src/github_pull_import.rs\<close>).
\<close>

record ref_update =
  ru_ref_name :: string
  ru_old_oid :: string
  ru_new_oid :: string

definition CONTRIB_BRANCH_PREFIX :: string where
  "CONTRIB_BRANCH_PREFIX = ''contrib/gh-''"

definition contrib_branch :: "nat \<Rightarrow> string" where
  "contrib_branch n = CONTRIB_BRANCH_PREFIX @ show_nat n"

definition contrib_number :: "string \<Rightarrow> nat option" where
  "contrib_number branch = Option.bind (strip_prefix CONTRIB_BRANCH_PREFIX branch) (parse_uint u64_max)"

lemma contrib_number_branch: "n \<le> u64_max \<Longrightarrow> contrib_number (contrib_branch n) = Some n"
proof -
  assume n: "n \<le> u64_max"
  have "strip_prefix CONTRIB_BRANCH_PREFIX (contrib_branch n) = Some (show_nat n)"
    by (simp add: strip_prefix_Some_iff contrib_branch_def)
  with n show ?thesis by (simp add: contrib_number_def parse_show_nat)
qed

end
