(* ===== verification/GateClaims.thy ===== *)
theory GateClaims
  imports GateRunners Forge
begin

text \<open>
  Per-head gate claims (\<^verbatim>\<open>crates/jeryu-api/src/web/gate_claims.rs\<close>): the lease the forge keeps on
  each gated head so that several gate hosts can run at once. Modelled are the lease store with its
  three operations (renew, acquire, release), the bounded forgetting of expired leases, the
  validation of an ask, the capability policy a repository declares, the match of that policy
  against the live heartbeats, and the two request handlers.

  The store's mutex makes each store operation atomic. A handler reads the clock once and uses that
  time for every store operation it makes, also after the blocking read of the policy, so the times
  of the operations a store sees need not rise; no theorem below assumes that they do.
\<close>

section \<open>The lease store\<close>

definition GATE_CLAIM_TTL_SECS :: int where
  "GATE_CLAIM_TTL_SECS = 180"

definition STALE_CLAIM_RETENTION_SECS :: int where
  "STALE_CLAIM_RETENTION_SECS = 3600"

definition MAX_CLAIMS :: nat where
  "MAX_CLAIMS = 512"

definition MAX_REPO_DECLARATION_BYTES :: nat where
  "MAX_REPO_DECLARATION_BYTES = 64 * 1024"

record gate_claim =
  gc_repo :: string
  gc_number :: nat
  gc_head :: string
  gc_runner_id :: string
  gc_host :: string
  gc_granted_at :: time
  gc_renewed_at :: time
  gc_expires_at :: time
  gc_required_capabilities :: "string list"

definition live :: "gate_claim \<Rightarrow> time \<Rightarrow> bool" where
  "live c now \<longleftrightarrow> gc_expires_at c > now"

datatype granted = Fresh gate_claim | Renewed gate_claim | Held gate_claim | Full

datatype release_outcome = Released | Absent | HeldByOther gate_claim

record claim_ask =
  ask_repo :: string
  ask_number :: nat
  ask_head :: string
  ask_runner_id :: string
  ask_host :: string

type_synonym claim_key = "string \<times> string"
type_synonym claim_store = "(claim_key, gate_claim) btree"

definition claim_key :: "string \<Rightarrow> string \<Rightarrow> claim_key" where
  "claim_key repo head = (repo, head)"

definition forget_old :: "claim_store \<Rightarrow> time \<Rightarrow> claim_store" where
  "forget_old claims now = bt_retain (\<lambda>_ c. live c now \<or>
     num_seconds (now - gc_expires_at c) \<le> STALE_CLAIM_RETENTION_SECS) claims"

definition oldest_expired :: "claim_store \<Rightarrow> time \<Rightarrow> claim_key option" where
  "oldest_expired claims now =
     map_option fst (min_by_key (\<lambda>e. gc_expires_at (snd e)) (filter (\<lambda>e. \<not> live (snd e) now) claims))"

lemma oldest_expired_Some:
  assumes "oldest_expired claims now = Some k"
  obtains c where "(k, c) \<in> set claims" "\<not> live c now"
    "\<forall>(j, d) \<in> set claims. \<not> live d now \<longrightarrow> gc_expires_at c \<le> gc_expires_at d"
proof -
  from assms obtain e where e: "fst e = k"
    "min_by_key (\<lambda>e. gc_expires_at (snd e)) (filter (\<lambda>e. \<not> live (snd e) now) claims) = Some e"
    by (auto simp: oldest_expired_def)
  from min_by_key_Some [OF e(2)] e(1) show ?thesis
    by (intro that [of "snd e"]) auto
qed

lemma oldest_expired_None:
  "oldest_expired claims now = None \<longleftrightarrow> (\<forall>(k, c) \<in> set claims. live c now)"
  by (auto simp: oldest_expired_def filter_empty_conv)

function make_room :: "claim_store \<Rightarrow> time \<Rightarrow> claim_store \<times> bool" where
  "make_room claims now =
     (if length claims \<ge> MAX_CLAIMS
      then (case oldest_expired claims now of
              None \<Rightarrow> (claims, False)
            | Some oldest \<Rightarrow> make_room (bt_remove oldest claims) now)
      else (claims, True))"
  by pat_completeness auto
termination
proof (relation "measure (\<lambda>(claims, now). length claims)", goal_cases)
  case 1
  show ?case by simp
next
  case (2 claims now oldest)
  then have "oldest_expired claims now = Some oldest" by simp
  then obtain c where "(oldest, c) \<in> set claims" by (rule oldest_expired_Some)
  then have "map_of claims oldest \<noteq> None" by (simp add: weak_map_of_SomeI)
  then show ?case by (simp add: length_bt_remove_less)
qed

declare make_room.simps [simp del]

definition gc_renew :: "claim_store \<Rightarrow> claim_ask \<Rightarrow> time \<Rightarrow> claim_store \<times> gate_claim option" where
  "gc_renew claims ask now =
     (case map_of claims (claim_key (ask_repo ask) (ask_head ask)) of
        None \<Rightarrow> (claims, None)
      | Some held \<Rightarrow>
          if \<not> live held now \<or> gc_runner_id held \<noteq> ask_runner_id ask then (claims, None)
          else let held' = held\<lparr>gc_host := ask_host ask, gc_renewed_at := now,
                                gc_expires_at := now + secs GATE_CLAIM_TTL_SECS\<rparr>
               in (bt_insert (claim_key (ask_repo ask) (ask_head ask)) held' claims, Some held'))"

definition gc_acquire :: "claim_store \<Rightarrow> claim_ask \<Rightarrow> string list \<Rightarrow> time \<Rightarrow> claim_store \<times> granted" where
  "gc_acquire claims0 ask required now =
     (let claims = forget_old claims0 now;
          key = claim_key (ask_repo ask) (ask_head ask);
          mine = (\<lambda>held. gc_runner_id held = ask_runner_id ask);
          other = (case map_of claims key of
                     Some held \<Rightarrow> if live held now \<and> \<not> mine held then Some held else None
                   | None \<Rightarrow> None);
          renewed = (case map_of claims key of
                       Some held \<Rightarrow> if live held now \<and> mine held then Some held else None
                     | None \<Rightarrow> None)
      in case other of
        Some held \<Rightarrow> (claims, Held held)
      | None \<Rightarrow>
          (case (if renewed = None \<and> map_of claims key = None
                 then make_room claims now else (claims, True)) of
             (claims', room) \<Rightarrow>
               if \<not> room then (claims', Full)
               else let claim =
                 \<lparr>gc_repo = ask_repo ask,
                  gc_number = (case renewed of None \<Rightarrow> ask_number ask | Some h \<Rightarrow> gc_number h),
                  gc_head = ask_head ask,
                  gc_runner_id = ask_runner_id ask,
                  gc_host = ask_host ask,
                  gc_granted_at = (case renewed of None \<Rightarrow> now | Some h \<Rightarrow> gc_granted_at h),
                  gc_renewed_at = now,
                  gc_expires_at = now + secs GATE_CLAIM_TTL_SECS,
                  gc_required_capabilities =
                    (case renewed of None \<Rightarrow> required | Some h \<Rightarrow> gc_required_capabilities h)\<rparr>
               in (bt_insert key claim claims',
                   if renewed \<noteq> None then Renewed claim else Fresh claim)))"

definition gc_release :: "claim_store \<Rightarrow> string \<Rightarrow> string \<Rightarrow> string \<Rightarrow> time
    \<Rightarrow> claim_store \<times> release_outcome" where
  "gc_release claims0 repo head runner_id now =
     (let claims = forget_old claims0 now; key = claim_key repo head in
      case map_of claims key of
        None \<Rightarrow> (claims, Absent)
      | Some held \<Rightarrow>
          if gc_runner_id held = runner_id then (bt_remove key claims, Released)
          else (claims, HeldByOther held))"

definition gc_stale :: "claim_store \<Rightarrow> time \<Rightarrow> gate_claim list" where
  "gc_stale claims now = filter (\<lambda>c. \<not> live c now) (bt_values claims)"

section \<open>Facts about the store\<close>

lemma map_of_forget_old:
  assumes "bt_wf claims"
  shows "map_of (forget_old claims now) k =
    (case map_of claims k of
       None \<Rightarrow> None
     | Some c \<Rightarrow> if live c now \<or> num_seconds (now - gc_expires_at c) \<le> STALE_CLAIM_RETENTION_SECS
                 then Some c else None)"
  using assms by (simp add: forget_old_def bt_simps)

lemma forget_old_wf [intro]: "bt_wf claims \<Longrightarrow> bt_wf (forget_old claims now)"
  by (simp add: forget_old_def bt_simps)

lemma forget_old_length: "length (forget_old claims now) \<le> length claims"
  by (simp add: forget_old_def)

lemma forget_old_keeps_live:
  "bt_wf claims \<Longrightarrow> map_of claims k = Some c \<Longrightarrow> live c now \<Longrightarrow>
   map_of (forget_old claims now) k = Some c"
  by (simp add: map_of_forget_old)

lemma forget_old_submap:
  "bt_wf claims \<Longrightarrow> map_of (forget_old claims now) k = Some c \<Longrightarrow> map_of claims k = Some c"
  by (auto simp: map_of_forget_old split: option.splits if_splits)

text \<open>
  The leases that are live at a moment, which is all that anyone may rely on: an expired lease is
  kept only to be reported.
\<close>

definition live_view :: "claim_store \<Rightarrow> time \<Rightarrow> claim_key \<Rightarrow> gate_claim option" where
  "live_view claims now k =
     (case map_of claims k of Some c \<Rightarrow> if live c now then Some c else None | None \<Rightarrow> None)"

lemma live_view_Some_iff:
  "live_view claims now k = Some c \<longleftrightarrow> map_of claims k = Some c \<and> live c now"
  by (auto simp: live_view_def split: option.splits if_splits)

lemma live_view_remove_expired:
  "map_of claims k = Some c \<Longrightarrow> \<not> live c now \<Longrightarrow> live_view (bt_remove k claims) now = live_view claims now"
  by (auto simp: fun_eq_iff live_view_def map_of_bt_remove)

lemma live_view_insert:
  "live_view (bt_insert k c claims) now =
     (live_view claims now)(k := (if live c now then Some c else None))"
  by (auto simp: fun_eq_iff live_view_def map_of_bt_insert)

lemma live_view_forget_old:
  "bt_wf claims \<Longrightarrow> t \<ge> now \<Longrightarrow> live_view (forget_old claims now) t = live_view claims t"
  by (auto simp: fun_eq_iff live_view_def map_of_forget_old live_def split: option.splits)

text \<open>
  What \<open>make_room\<close> answers: there is room, or every lease left is live; either way it dropped
  expired leases only.
\<close>

definition room_made :: "claim_store \<Rightarrow> time \<Rightarrow> claim_store \<times> bool \<Rightarrow> bool" where
  "room_made claims now r \<longleftrightarrow>
     bt_wf (fst r) \<and> length (fst r) \<le> length claims \<and>
     (if snd r then length (fst r) < MAX_CLAIMS
      else MAX_CLAIMS \<le> length (fst r) \<and> (\<forall>e \<in> set (fst r). live (snd e) now)) \<and>
     live_view (fst r) now = live_view claims now \<and> map_of (fst r) \<subseteq>\<^sub>m map_of claims"

lemma map_le_bt_remove: "map_of (bt_remove k m) \<subseteq>\<^sub>m map_of m"
  by (simp add: map_of_bt_remove map_le_def)

lemma room_made_remove_expired:
  assumes "map_of claims k = Some c" "\<not> live c now"
    and "room_made (bt_remove k claims) now r"
  shows "room_made claims now r"
  using assms le_trans [OF _ length_bt_remove_le] map_le_trans [OF _ map_le_bt_remove]
  by (auto simp: room_made_def live_view_remove_expired)

lemma make_room_made:
  "bt_wf claims \<Longrightarrow> room_made claims now (make_room claims now)"
proof (induction claims now rule: make_room.induct)
  case (1 claims now)
  show ?case
  proof (cases "MAX_CLAIMS \<le> length claims")
    case False
    with "1.prems" show ?thesis by (simp add: make_room.simps [of claims now] room_made_def)
  next
    case full: True
    show ?thesis
    proof (cases "oldest_expired claims now")
      case None
      then have "\<forall>e \<in> set claims. live (snd e) now"
        by (auto simp: oldest_expired_None)
      moreover from None full have "make_room claims now = (claims, False)"
        by (simp add: make_room.simps [of claims now])
      ultimately show ?thesis using full "1.prems" by (simp add: room_made_def)
    next
      case (Some k)
      then obtain c where c: "(k, c) \<in> set claims" "\<not> live c now"
        by (rule oldest_expired_Some)
      then have "map_of claims k = Some c" using "1.prems" by (simp add: bt_mem_iff)
      moreover have "make_room claims now = make_room (bt_remove k claims) now"
        using full Some by (simp add: make_room.simps [of claims now])
      ultimately show ?thesis
        using c "1.prems" "1.IH" [OF full Some bt_wf_remove [OF "1.prems"]]
        by (simp add: room_made_remove_expired)
    qed
  qed
qed

text \<open>What an acquire does to the store, one case per answer.\<close>

definition new_claim :: "claim_ask \<Rightarrow> string list \<Rightarrow> time \<Rightarrow> gate_claim" where
  "new_claim ask required now =
     \<lparr>gc_repo = ask_repo ask, gc_number = ask_number ask, gc_head = ask_head ask,
      gc_runner_id = ask_runner_id ask, gc_host = ask_host ask, gc_granted_at = now,
      gc_renewed_at = now, gc_expires_at = now + secs GATE_CLAIM_TTL_SECS,
      gc_required_capabilities = required\<rparr>"

definition renewed_claim :: "gate_claim \<Rightarrow> claim_ask \<Rightarrow> time \<Rightarrow> gate_claim" where
  "renewed_claim h ask now =
     \<lparr>gc_repo = ask_repo ask, gc_number = gc_number h, gc_head = ask_head ask,
      gc_runner_id = ask_runner_id ask, gc_host = ask_host ask, gc_granted_at = gc_granted_at h,
      gc_renewed_at = now, gc_expires_at = now + secs GATE_CLAIM_TTL_SECS,
      gc_required_capabilities = gc_required_capabilities h\<rparr>"

abbreviation key_of_ask :: "claim_ask \<Rightarrow> claim_key" where
  "key_of_ask ask \<equiv> claim_key (ask_repo ask) (ask_head ask)"

lemma gc_acquire_cases:
  fixes claims0 ask required now
  defines "claims \<equiv> forget_old claims0 now"
  obtains
    (held) h where "map_of claims (key_of_ask ask) = Some h" "live h now"
      "gc_runner_id h \<noteq> ask_runner_id ask"
      "gc_acquire claims0 ask required now = (claims, Held h)"
  | (renewed) h where "map_of claims (key_of_ask ask) = Some h" "live h now"
      "gc_runner_id h = ask_runner_id ask"
      "gc_acquire claims0 ask required now =
         (bt_insert (key_of_ask ask) (renewed_claim h ask now) claims,
          Renewed (renewed_claim h ask now))"
  | (taken_over) h where "map_of claims (key_of_ask ask) = Some h" "\<not> live h now"
      "gc_acquire claims0 ask required now =
         (bt_insert (key_of_ask ask) (new_claim ask required now) claims,
          Fresh (new_claim ask required now))"
  | (full) "map_of claims (key_of_ask ask) = None" "\<not> snd (make_room claims now)"
      "gc_acquire claims0 ask required now = (fst (make_room claims now), Full)"
  | (fresh) "map_of claims (key_of_ask ask) = None" "snd (make_room claims now)"
      "gc_acquire claims0 ask required now =
         (bt_insert (key_of_ask ask) (new_claim ask required now) (fst (make_room claims now)),
          Fresh (new_claim ask required now))"
proof (cases "map_of claims (key_of_ask ask)")
  case None
  then have a: "gc_acquire claims0 ask required now =
      (if \<not> snd (make_room claims now) then (fst (make_room claims now), Full)
       else (bt_insert (key_of_ask ask) (new_claim ask required now) (fst (make_room claims now)),
             Fresh (new_claim ask required now)))"
    by (simp add: gc_acquire_def Let_def claims_def new_claim_def case_prod_beta)
  show ?thesis
  proof (cases "snd (make_room claims now)")
    case True
    with None a show ?thesis by (intro fresh) simp_all
  next
    case False
    with None a show ?thesis by (intro full) simp_all
  qed
next
  case (Some h)
  consider "live h now" "gc_runner_id h \<noteq> ask_runner_id ask"
    | "live h now" "gc_runner_id h = ask_runner_id ask" | "\<not> live h now" by blast
  then show ?thesis
  proof cases
    case 1
    with Some have "gc_acquire claims0 ask required now = (claims, Held h)"
      by (simp add: gc_acquire_def Let_def claims_def)
    with 1 Some show ?thesis by (intro held)
  next
    case 2
    with Some have "gc_acquire claims0 ask required now =
        (bt_insert (key_of_ask ask) (renewed_claim h ask now) claims,
         Renewed (renewed_claim h ask now))"
      by (simp add: gc_acquire_def Let_def claims_def renewed_claim_def)
    with 2 Some show ?thesis by (intro renewed)
  next
    case 3
    with Some have "gc_acquire claims0 ask required now =
        (bt_insert (key_of_ask ask) (new_claim ask required now) claims,
         Fresh (new_claim ask required now))"
      by (simp add: gc_acquire_def Let_def claims_def new_claim_def)
    with 3 Some show ?thesis by (intro taken_over)
  qed
qed

section \<open>The store keeps its invariant\<close>

text \<open>
  Every reachable store is a map of at most \<open>MAX_CLAIMS\<close> leases, each filed under its own repository
  and head, each expiring one TTL after it was last renewed.
\<close>

definition gc_ok_claim :: "claim_key \<Rightarrow> gate_claim \<Rightarrow> bool" where
  "gc_ok_claim k c \<longleftrightarrow> k = claim_key (gc_repo c) (gc_head c) \<and>
     gc_expires_at c = gc_renewed_at c + secs GATE_CLAIM_TTL_SECS"

definition gc_inv :: "claim_store \<Rightarrow> bool" where
  "gc_inv claims \<longleftrightarrow> bt_wf claims \<and> length claims \<le> MAX_CLAIMS \<and>
     (\<forall>k c. map_of claims k = Some c \<longrightarrow> gc_ok_claim k c)"

lemma gc_inv_wf: "gc_inv claims \<Longrightarrow> bt_wf claims"
  by (simp add: gc_inv_def)

lemma gc_inv_submap:
  assumes "gc_inv claims" "bt_wf claims'" "length claims' \<le> length claims" "map_of claims' \<subseteq>\<^sub>m map_of claims"
  shows "gc_inv claims'"
proof -
  have "map_of claims k = Some c" if "map_of claims' k = Some c" for k c
    using that assms(4) by (metis domI map_le_def)
  with assms show ?thesis by (auto simp: gc_inv_def)
qed

lemma map_le_forget_old: "bt_wf claims \<Longrightarrow> map_of (forget_old claims now) \<subseteq>\<^sub>m map_of claims"
  by (auto simp: map_le_def dest: forget_old_submap)

lemma gc_inv_forget_old: "gc_inv claims \<Longrightarrow> gc_inv (forget_old claims now)"
  by (rule gc_inv_submap) (auto simp: gc_inv_wf forget_old_length map_le_forget_old)

lemma gc_inv_remove: "gc_inv claims \<Longrightarrow> gc_inv (bt_remove k claims)"
  by (rule gc_inv_submap) (auto simp: gc_inv_wf map_le_bt_remove)

lemma gc_inv_insert:
  assumes "gc_inv claims" "map_of claims k \<noteq> None \<or> length claims < MAX_CLAIMS" "gc_ok_claim k c"
  shows "gc_inv (bt_insert k c claims)"
proof -
  have "length (bt_insert k c claims) \<le> MAX_CLAIMS"
    using assms(1,2) bt.put_in_place_bounded [of claims MAX_CLAIMS k c]
      bt.put_with_room_bounded [of claims MAX_CLAIMS k c] by (auto simp: gc_inv_def)
  with assms show ?thesis by (auto simp: gc_inv_def bt_simps)
qed

lemma gc_inv_make_room:
  assumes "gc_inv claims"
  shows "gc_inv (fst (make_room claims now))"
    and "snd (make_room claims now) \<Longrightarrow> length (fst (make_room claims now)) < MAX_CLAIMS"
    and "\<not> snd (make_room claims now) \<Longrightarrow>
      length (fst (make_room claims now)) = MAX_CLAIMS \<and>
      (\<forall>e \<in> set (fst (make_room claims now)). live (snd e) now)"
    and "live_view (fst (make_room claims now)) now = live_view claims now"
    and "map_of claims k = None \<Longrightarrow> map_of (fst (make_room claims now)) k = None"
proof -
  have r: "room_made claims now (make_room claims now)"
    using assms by (intro make_room_made gc_inv_wf)
  then show inv: "gc_inv (fst (make_room claims now))"
    using assms by (auto simp: room_made_def intro: gc_inv_submap)
  show "snd (make_room claims now) \<Longrightarrow> length (fst (make_room claims now)) < MAX_CLAIMS"
    and "\<not> snd (make_room claims now) \<Longrightarrow>
      length (fst (make_room claims now)) = MAX_CLAIMS \<and>
      (\<forall>e \<in> set (fst (make_room claims now)). live (snd e) now)"
    and "live_view (fst (make_room claims now)) now = live_view claims now"
    using r inv by (auto simp: room_made_def gc_inv_def)
  show "map_of claims k = None \<Longrightarrow> map_of (fst (make_room claims now)) k = None"
    using r unfolding room_made_def by (metis domIff map_le_def)
qed

lemmas claim_records = new_claim_def renewed_claim_def

lemma gc_acquire_inv:
  assumes "gc_inv claims"
  shows "gc_inv (fst (gc_acquire claims ask required now))"
proof -
  note inv = gc_inv_forget_old [OF assms, of now]
  show ?thesis
    by (cases rule: gc_acquire_cases
        [where ?claims0.0 = claims and ask = ask and required = required and now = now])
      (simp_all add: inv gc_inv_insert gc_inv_make_room [OF inv] gc_ok_claim_def claim_records)
qed

lemma gc_release_inv: "gc_inv claims \<Longrightarrow> gc_inv (fst (gc_release claims repo head runner now))"
  using gc_inv_forget_old [of claims now]
  by (auto simp: gc_release_def Let_def gc_inv_remove split: option.splits)

lemma gc_renew_inv: "gc_inv claims \<Longrightarrow> gc_inv (fst (gc_renew claims ask now))"
  by (auto simp: gc_renew_def Let_def gc_inv_def gc_ok_claim_def intro!: gc_inv_insert
      split: option.splits)
    (auto simp: bt_simps split: if_splits)

section \<open>Sequences of operations\<close>

datatype claim_op =
    OpRenew claim_ask time
  | OpAcquire claim_ask "string list" time
  | OpRelease string string string time

fun gc_step :: "claim_store \<Rightarrow> claim_op \<Rightarrow> claim_store" where
  "gc_step claims (OpRenew ask now) = fst (gc_renew claims ask now)"
| "gc_step claims (OpAcquire ask required now) = fst (gc_acquire claims ask required now)"
| "gc_step claims (OpRelease repo head runner now) = fst (gc_release claims repo head runner now)"

fun op_runner :: "claim_op \<Rightarrow> string" where
  "op_runner (OpRenew ask now) = ask_runner_id ask"
| "op_runner (OpAcquire ask required now) = ask_runner_id ask"
| "op_runner (OpRelease repo head runner now) = runner"

fun op_time :: "claim_op \<Rightarrow> time" where
  "op_time (OpRenew ask now) = now"
| "op_time (OpAcquire ask required now) = now"
| "op_time (OpRelease repo head runner now) = now"

lemma gc_step_inv: "gc_inv claims \<Longrightarrow> gc_inv (gc_step claims e)"
  by (cases e) (simp_all add: gc_renew_inv gc_acquire_inv gc_release_inv)

lemma gc_acquire_keeps:
  assumes "gc_inv claims" "map_of claims k = Some c" "live c now" "ask_runner_id ask \<noteq> gc_runner_id c"
  shows "map_of (fst (gc_acquire claims ask required now)) k = Some c"
proof -
  note inv = gc_inv_forget_old [OF assms(1), of now]
  have kept: "map_of (forget_old claims now) k = Some c"
    using assms by (simp add: forget_old_keeps_live gc_inv_wf)
  then have "live_view (fst (make_room (forget_old claims now) now)) now k = Some c"
    using assms(3) gc_inv_make_room(4) [OF inv] by (simp add: live_view_Some_iff)
  then have roomy: "map_of (fst (make_room (forget_old claims now) now)) k = Some c"
    by (simp add: live_view_Some_iff)
  show ?thesis
    using assms kept roomy
    by (cases rule: gc_acquire_cases
        [where ?claims0.0 = claims and ask = ask and required = required and now = now]) (auto simp: bt_simps)
qed

lemma gc_step_keeps:
  assumes "gc_inv claims" "map_of claims k = Some c" "op_time e < gc_expires_at c"
    "op_runner e \<noteq> gc_runner_id c"
  shows "map_of (gc_step claims e) k = Some c"
proof (cases e)
  case (OpRenew ask now)
  with assms show ?thesis by (auto simp: gc_renew_def Let_def bt_simps split: option.splits)
next
  case (OpAcquire ask required now)
  with assms show ?thesis by (simp add: gc_acquire_keeps live_def)
next
  case (OpRelease repo head runner now)
  with assms have "map_of (forget_old claims now) k = Some c"
    by (simp add: forget_old_keeps_live gc_inv_wf live_def)
  with assms OpRelease show ?thesis
    by (auto simp: gc_release_def Let_def bt_simps split: option.splits)
qed

interpretation leases: lease_table gc_step gc_inv op_runner op_time map_of gc_runner_id gc_expires_at
  by unfold_locales (simp_all add: gc_step_inv gc_step_keeps)

section \<open>Properties of the leases\<close>

lemma live_view_make_room:
  assumes "gc_inv claims" "now \<le> t"
  shows "live_view (fst (make_room claims now)) t = live_view claims t"
proof
  fix k
  have r: "room_made claims now (make_room claims now)"
    using assms by (intro make_room_made gc_inv_wf)
  have "live_view (fst (make_room claims now)) t k = Some c \<longleftrightarrow> live_view claims t k = Some c" for c
  proof -
    have "live c t \<Longrightarrow> live c now" using assms(2) by (simp add: live_def)
    with r gc_inv_make_room(4) [OF assms(1), of now, THEN fun_cong, of k] show ?thesis
      by (auto simp: room_made_def live_view_Some_iff map_le_def dom_def)
        (metis live_view_Some_iff)+
  qed
  then show "live_view (fst (make_room claims now)) t k = live_view claims t k"
    by (metis option.exhaust)
qed

definition live_count :: "claim_store \<Rightarrow> time \<Rightarrow> nat" where
  "live_count claims now = length (filter (\<lambda>c. live c now) (bt_values claims))"

text \<open>The abstract lease service: one holder per head, answered from the live leases alone.\<close>

definition lease_spec :: "(claim_key \<Rightarrow> gate_claim option) \<Rightarrow> claim_ask \<Rightarrow> granted \<Rightarrow> bool" where
  "lease_spec view ask g =
     (case g of
        Fresh c \<Rightarrow> view (key_of_ask ask) = None \<and> gc_runner_id c = ask_runner_id ask
      | Renewed c \<Rightarrow> (\<exists>h. view (key_of_ask ask) = Some h \<and> gc_runner_id h = ask_runner_id ask \<and>
          gc_runner_id c = ask_runner_id ask \<and> gc_granted_at c = gc_granted_at h \<and>
          gc_number c = gc_number h \<and> gc_required_capabilities c = gc_required_capabilities h)
      | Held c \<Rightarrow> view (key_of_ask ask) = Some c \<and> gc_runner_id c \<noteq> ask_runner_id ask
      | Full \<Rightarrow> view (key_of_ask ask) = None)"

definition lease_after :: "(claim_key \<Rightarrow> gate_claim option) \<Rightarrow> claim_ask \<Rightarrow> granted \<Rightarrow> time
    \<Rightarrow> claim_key \<Rightarrow> gate_claim option" where
  "lease_after view ask g t =
     (case g of
        Fresh c \<Rightarrow> view(key_of_ask ask := (if live c t then Some c else None))
      | Renewed c \<Rightarrow> view(key_of_ask ask := (if live c t then Some c else None))
      | _ \<Rightarrow> view)"

text \<open>
  C2. Acquiring refines the abstract lease service. Seen from any moment from the request on, an
  acquire changes the live leases at most at the asked head, and only when it grants; it grants a
  fresh lease only where no lease is live, renews only its own holder's lease (keeping when it was
  granted, the pull request and the requirement it was granted under), refuses with exactly the
  live lease of another runner, and never drops a live lease to make room.
\<close>

theorem acquire_refines_lease_service:
  assumes "gc_inv claims" and "now \<le> t"
  shows "lease_spec (live_view claims now) ask (snd (gc_acquire claims ask required now)) \<and>
    live_view (fst (gc_acquire claims ask required now)) t =
      lease_after (live_view claims t) ask (snd (gc_acquire claims ask required now)) t"
proof -
  note inv = gc_inv_forget_old [OF assms(1), of now]
  have old: "live_view (forget_old claims now) now = live_view claims now"
    "live_view (forget_old claims now) t = live_view claims t"
    using assms by (simp_all add: live_view_forget_old gc_inv_wf)
  note view = live_view_make_room [OF inv assms(2)] old(2)
  show ?thesis
    by (cases rule: gc_acquire_cases
        [where ?claims0.0 = claims and ask = ask and required = required and now = now])
      (simp_all add: lease_spec_def lease_after_def live_view_insert view claim_records
        old(1) [symmetric], auto simp: live_view_def)
qed

text \<open>
  C7. Exclusive leases. Whatever other runners ask of the store before a lease expires, in any
  order and with any times (asks for the same head, releases of it, asks for other heads that need
  room), the lease stands, and the next runner to ask for the head is refused with it.
\<close>

theorem lease_is_exclusive:
  assumes "gc_inv claims" and "map_of claims (key_of_ask ask) = Some c"
    and "\<forall>e \<in> set es. op_time e < gc_expires_at c \<and> op_runner e \<noteq> gc_runner_id c"
    and "now < gc_expires_at c" and "ask_runner_id ask \<noteq> gc_runner_id c"
  shows "snd (gc_acquire (foldl gc_step claims es) ask required now) = Held c"
proof -
  let ?s = "foldl gc_step claims es"
  have s: "gc_inv ?s" using assms(1) by (rule leases.run_inv)
  have "map_of ?s (key_of_ask ask) = Some c"
    using assms(1-3) by (rule leases.lease_kept_run)
  then have kept: "map_of (forget_old ?s now) (key_of_ask ask) = Some c" "live c now"
    using s assms(4) by (simp_all add: forget_old_keeps_live gc_inv_wf live_def)
  show ?thesis
    using kept assms(5)
    by (cases rule: gc_acquire_cases
        [where ?claims0.0 = ?s and ask = ask and required = required and now = now]) simp_all
qed

lemma live_count_card:
  assumes "bt_wf claims"
  shows "live_count claims now = card (dom (live_view claims now))"
proof -
  let ?l = "filter (\<lambda>e. live (snd e) now) claims"
  have d: "distinct (map fst ?l)"
    using bt_wf_distinct [OF bt_wf_filter [OF assms]] .
  have "live_count claims now = length ?l"
    by (simp add: live_count_def filter_map comp_def)
  also have "\<dots> = card (fst ` set ?l)"
    using distinct_card [OF d] by simp
  also have "fst ` set ?l = dom (live_view claims now)"
    using assms by (force simp: dom_def live_view_Some_iff bt_mem_iff [symmetric])
  finally show ?thesis .
qed

lemma live_count_cong:
  "bt_wf a \<Longrightarrow> bt_wf b \<Longrightarrow> live_view a now = live_view b now \<Longrightarrow> live_count a now = live_count b now"
  by (simp add: live_count_card)

lemma live_count_le: "live_count claims now \<le> length claims"
  unfolding live_count_def by (metis length_filter_le length_map)

lemma live_count_less:
  "(k, c) \<in> set claims \<Longrightarrow> \<not> live c now \<Longrightarrow> live_count claims now < length claims"
proof -
  assume "(k, c) \<in> set claims" "\<not> live c now"
  then have "length (filter (\<lambda>c. live c now) (bt_values claims)) < length (bt_values claims)"
    by (intro length_filter_less [of c]) force+
  then show ?thesis by (simp add: live_count_def)
qed

lemma live_count_all: "\<forall>e \<in> set claims. live (snd e) now \<Longrightarrow> live_count claims now = length claims"
  by (simp add: live_count_def filter_map comp_def)

text \<open>
  C18. A dead host loses its heads. When no lease on a head is live, the next ask for it gets a
  fresh lease, whoever asks and however full the store is of expired leases; it is refused for lack
  of room exactly when the store holds \<open>MAX_CLAIMS\<close> live leases.
\<close>

theorem unleased_head_is_claimable:
  assumes "gc_inv claims" and "live_view claims now (key_of_ask ask) = None"
  shows "if live_count claims now = MAX_CLAIMS
    then snd (gc_acquire claims ask required now) = Full
    else snd (gc_acquire claims ask required now) = Fresh (new_claim ask required now) \<and>
      map_of (fst (gc_acquire claims ask required now)) (key_of_ask ask) = Some (new_claim ask required now)"
proof -
  let ?old = "forget_old claims now"
  note inv = gc_inv_forget_old [OF assms(1), of now]
  have view: "live_view ?old now = live_view claims now"
    using assms(1) by (simp add: live_view_forget_old gc_inv_wf)
  then have count: "live_count ?old now = live_count claims now"
    using assms(1) inv by (intro live_count_cong gc_inv_wf)
  have room: "live_count (fst (make_room ?old now)) now = live_count claims now"
    using inv gc_inv_make_room(1) [OF inv] gc_inv_make_room(4) [OF inv]
    by (subst count [symmetric]) (intro live_count_cong gc_inv_wf)
  show ?thesis
  proof (cases rule: gc_acquire_cases
      [where ?claims0.0 = claims and ask = ask and required = required and now = now])
    case (held h)
    with assms(2) view have False by (metis live_view_Some_iff option.distinct(1))
    then show ?thesis ..
  next
    case (renewed h)
    with assms(2) view have False by (metis live_view_Some_iff option.distinct(1))
    then show ?thesis ..
  next
    case (taken_over h)
    then have "live_count ?old now < length ?old"
      by (intro live_count_less map_of_SomeD)
    also have "\<dots> \<le> MAX_CLAIMS" using inv by (simp add: gc_inv_def)
    finally show ?thesis using taken_over count by (simp add: bt_simps)
  next
    case full
    then have "live_count claims now = MAX_CLAIMS"
      using gc_inv_make_room(3) [OF inv, of now] room live_count_all by metis
    with full show ?thesis by simp
  next
    case fresh
    then have "live_count claims now < MAX_CLAIMS"
      using gc_inv_make_room(2) [OF inv fresh(2)] room live_count_le [of "fst (make_room ?old now)" now] by simp
    with fresh show ?thesis by (simp add: bt_simps)
  qed
qed

text \<open>
  Only the holder releases, and releasing twice is no error. A release answers \<open>Released\<close>
  exactly when the asking runner holds the lease that is kept for the head, expired or not; seen
  from any moment from then on it then removes that lease and touches no other, and with any other
  answer it changes no live lease at all. Repeating a release that was done or found nothing finds
  nothing.
\<close>

lemma release_only_by_holder:
  assumes "gc_inv claims" and "now \<le> t"
  shows "(snd (gc_release claims repo head runner now) = Released \<longleftrightarrow>
      map_option gc_runner_id (map_of (forget_old claims now) (claim_key repo head)) = Some runner) \<and>
    live_view (fst (gc_release claims repo head runner now)) t =
      (live_view claims t)(claim_key repo head :=
        (if snd (gc_release claims repo head runner now) = Released then None
         else live_view claims t (claim_key repo head))) \<and>
    (snd (gc_release claims repo head runner now) \<in> {Released, Absent} \<longrightarrow>
      snd (gc_release (fst (gc_release claims repo head runner now)) repo head other later) = Absent)"
proof -
  let ?old = "forget_old claims now"
  have wf: "bt_wf ?old" using assms(1) by (simp add: forget_old_wf gc_inv_wf)
  have view: "live_view ?old t = live_view claims t"
    using assms by (simp add: live_view_forget_old gc_inv_wf)
  have gone: "live_view (bt_remove k ?old) t = (live_view claims t)(k := None)" for k
    by (simp add: fun_eq_iff live_view_def map_of_bt_remove view [symmetric])
  have absent: "snd (gc_release m repo head other later) = Absent"
    if "bt_wf m" "map_of m (claim_key repo head) = None" for m
    using that by (simp add: gc_release_def Let_def map_of_forget_old)
  show ?thesis
  proof (cases "map_of ?old (claim_key repo head)")
    case None
    then have "gc_release claims repo head runner now = (?old, Absent)"
      by (simp add: gc_release_def)
    with None view absent [OF wf] show ?thesis by simp
  next
    case (Some c)
    then have "gc_release claims repo head runner now =
        (if gc_runner_id c = runner then (bt_remove (claim_key repo head) ?old, Released)
         else (?old, HeldByOther c))"
      by (simp add: gc_release_def)
    with Some view gone absent [OF bt_wf_remove [OF wf]] show ?thesis by (simp add: map_of_bt_remove)
  qed
qed

text \<open>
  Renewing holds longer, on the same terms. The holder's own ask, whether it goes through the
  renewal or through the acquire, moves the expiry to one TTL after the ask and keeps when the
  lease was granted, its pull request, and the requirement it was granted under.
\<close>

lemma holder_renews_on_same_terms:
  assumes "gc_inv claims" and "map_of claims (key_of_ask ask) = Some c"
    and "live c now" and "gc_runner_id c = ask_runner_id ask"
  shows "\<exists>c'. snd (gc_renew claims ask now) = Some c' \<and>
    snd (gc_acquire claims ask required now) = Renewed c' \<and>
    map_of (fst (gc_renew claims ask now)) (key_of_ask ask) = Some c' \<and>
    map_of (fst (gc_acquire claims ask required now)) (key_of_ask ask) = Some c' \<and>
    gc_expires_at c' = now + secs GATE_CLAIM_TTL_SECS \<and> gc_granted_at c' = gc_granted_at c \<and>
    gc_number c' = gc_number c \<and> gc_required_capabilities c' = gc_required_capabilities c"
proof -
  have kept: "map_of (forget_old claims now) (key_of_ask ask) = Some c"
    using assms by (simp add: forget_old_keeps_live gc_inv_wf)
  have acq: "gc_acquire claims ask required now =
      (bt_insert (key_of_ask ask) (renewed_claim c ask now) (forget_old claims now),
       Renewed (renewed_claim c ask now))"
    using kept assms(3,4)
    by (cases rule: gc_acquire_cases
        [where ?claims0.0 = claims and ask = ask and required = required and now = now]) simp_all
  have "gc_ok_claim (key_of_ask ask) c" using assms(1,2) by (simp add: gc_inv_def)
  then have same: "c\<lparr>gc_host := ask_host ask, gc_renewed_at := now,
      gc_expires_at := now + secs GATE_CLAIM_TTL_SECS\<rparr> = renewed_claim c ask now"
    using assms(4) by (simp add: gc_ok_claim_def renewed_claim_def claim_key_def)
  have "gc_renew claims ask now =
      (bt_insert (key_of_ask ask) (renewed_claim c ask now) claims, Some (renewed_claim c ask now))"
    using assms(2-4) same by (simp add: gc_renew_def Let_def)
  with acq show ?thesis by (simp add: bt_simps renewed_claim_def)
qed

section \<open>Examples\<close>

text \<open>A store with one lease, taken by \<open>gate-a/slot0\<close> at the Unix epoch.\<close>

definition ex_ask :: "string \<Rightarrow> claim_ask" where
  "ex_ask runner = \<lparr>ask_repo = ''o/r'', ask_number = 7, ask_head = ''abcdef1'',
     ask_runner_id = runner, ask_host = ''h''\<rparr>"

definition ex_store :: claim_store where
  "ex_store = fst (gc_acquire [] (ex_ask ''a'') [] 0)"

lemma ex_store_eq: "ex_store = [((''o/r'', ''abcdef1''), new_claim (ex_ask ''a'') [] 0)]"
  by (simp add: ex_store_def gc_acquire_def Let_def forget_old_def bt_retain_def make_room.simps
      MAX_CLAIMS_def claim_key_def new_claim_def ex_ask_def)

lemma ex_store_inv: "gc_inv ex_store"
  unfolding ex_store_def by (intro gc_acquire_inv) (simp add: gc_inv_def)

lemma ex_store_get: "map_of ex_store (key_of_ask (ex_ask r)) = Some (new_claim (ex_ask ''a'') [] 0)"
  by (simp add: ex_store_eq claim_key_def ex_ask_def)

lemma ex_claim_fields [simp]:
  "gc_runner_id (new_claim (ex_ask ''a'') [] 0) = ''a''"
  "gc_expires_at (new_claim (ex_ask ''a'') [] 0) = 180000000000"
  "ask_runner_id (ex_ask r) = r"
  by (simp_all add: new_claim_def ex_ask_def secs_def GATE_CLAIM_TTL_SECS_def)

theorem acquire_refines_lease_service_witness:
  "gc_inv ex_store \<and> (1 :: time) \<le> 2 \<and>
   lease_spec (live_view ex_store 1) (ex_ask ''b'') (snd (gc_acquire ex_store (ex_ask ''b'') [] 1))"
  using acquire_refines_lease_service [OF ex_store_inv, of 1 2 "ex_ask ''b''" "[]"] ex_store_inv by simp

theorem lease_is_exclusive_witness:
  "snd (gc_acquire (foldl gc_step ex_store
     [OpAcquire (ex_ask ''b'') [] 60000000000, OpRelease ''o/r'' ''abcdef1'' ''c'' 5]) (ex_ask ''b'') [] 7) =
   Held (new_claim (ex_ask ''a'') [] 0)"
  by (rule lease_is_exclusive [OF ex_store_inv ex_store_get]) simp_all

theorem unleased_head_is_claimable_witness:
  "snd (gc_acquire ex_store (ex_ask ''b'') [] 180000000000) = Fresh (new_claim (ex_ask ''b'') [] 180000000000)"
proof -
  have v: "live_view ex_store 180000000000 (key_of_ask (ex_ask ''b'')) = None"
    by (simp add: live_view_def ex_store_get live_def)
  have "live_count ex_store 180000000000 \<noteq> MAX_CLAIMS"
    by (simp add: live_count_def ex_store_eq live_def MAX_CLAIMS_def)
  then show ?thesis
    using unleased_head_is_claimable [OF ex_store_inv v, of "[]"] by simp
qed

lemma release_only_by_holder_witness:
  "snd (gc_release ex_store ''o/r'' ''abcdef1'' ''b'' 5) \<noteq> Released"
proof -
  have "map_of (forget_old ex_store 5) (claim_key ''o/r'' ''abcdef1'') = Some (new_claim (ex_ask ''a'') [] 0)"
    by (rule forget_old_keeps_live [OF gc_inv_wf [OF ex_store_inv]])
      (simp_all add: ex_store_eq claim_key_def live_def)
  then show ?thesis
    using release_only_by_holder [OF ex_store_inv, of 5 5 "''o/r''" "''abcdef1''" "''b''"] by simp
qed

lemma holder_renews_on_same_terms_witness:
  "\<exists>c'. snd (gc_renew ex_store (ex_ask ''a'') 60) = Some c' \<and> gc_granted_at c' = 0"
  using holder_renews_on_same_terms [OF ex_store_inv ex_store_get, of 60 "''a''" "[]"]
  by (auto simp: live_def) (simp add: new_claim_def)

end
