(* ===== verification/GateClaimApi.thy ===== *)
theory GateClaimApi
  imports GateClaims
begin

text \<open>
  The request side of the gate claims (\<^verbatim>\<open>crates/jeryu-api/src/web/gate_claims.rs\<close>): validation of
  an ask, the capability policy of a repository, the match of that policy against the live
  heartbeats, and the two handlers. The git binary and the TOML parser are not part of the
  repository: \<open>git_env\<close> carries their answers. An acquire suspends while it reads the policy, so it
  is modelled in its two halves, \<open>acquire_begin\<close> and \<open>acquire_end\<close>, and the system of
  \<open>claims_step\<close> interleaves the halves of any number of requests with heartbeats and releases.
\<close>

section \<open>Validating an ask\<close>

record gate_claim_request =
  req_repo :: string
  req_number :: nat
  req_head_sha :: "string option"
  req_queue_sha :: "string option"
  req_runner_id :: string
  req_host :: string

record asked =
  asked_owner :: string
  asked_name :: string
  asked_head :: string

datatype ask_error =
    RepoNotOwnerName
  | FieldLength string
  | FieldCharacter string
  | NotExactlyOneSha
  | NotCommitId

definition check_field :: "string \<Rightarrow> string \<Rightarrow> string \<Rightarrow> ask_error + unit" where
  "check_field field val extra =
     (if val = [] \<or> length val > 128 then Inl (FieldLength field)
      else if \<not> list_all (\<lambda>c. is_ascii_alphanumeric c \<or> c \<in> set extra) val
      then Inl (FieldCharacter field)
      else Inr ())"

definition validate_head :: "string \<Rightarrow> string \<Rightarrow> string \<Rightarrow> ask_error + asked" where
  "validate_head owner nm head =
     (if \<not> (7 \<le> length head \<and> length head \<le> 64) \<or>
         \<not> list_all (\<lambda>c. is_ascii_hexdigit c \<and> \<not> is_ascii_upper c) head
      then Inl NotCommitId
      else Inr \<lparr>asked_owner = owner, asked_name = nm, asked_head = head\<rparr>)"

definition validate :: "gate_claim_request \<Rightarrow> ask_error + asked" where
  "validate r =
     (case split_once (CHR ''/'') (req_repo r) of
        None \<Rightarrow> Inl RepoNotOwnerName
      | Some (owner, nm) \<Rightarrow>
          and_then (first_err
            [check_field ''repo owner'' owner ''-_.'',
             check_field ''repo name'' nm ''-_.'',
             check_field ''runner_id'' (req_runner_id r) ''-_./'',
             check_field ''host'' (req_host r) ''-.''])
          (\<lambda>_. case (req_head_sha r, req_queue_sha r) of
             (Some head, None) \<Rightarrow> validate_head owner nm head
           | (None, Some head) \<Rightarrow> validate_head owner nm head
           | _ \<Rightarrow> Inl NotExactlyOneSha))"

section \<open>The policy a repository declares\<close>

text \<open>
  A TOML value as the \<^verbatim>\<open>toml\<close> crate gives it; numbers, booleans and dates are one constructor,
  since the policy only asks whether a value is a table, an array or a string.
\<close>

datatype toml = TomlString string | TomlScalar | TomlArray "toml list" | TomlTable "(string \<times> toml) list"

text \<open>
  What the policy read asks of its surroundings: the bare repository's directory, the output of a
  git command in it (decoded as text) and the parse of a TOML document.
\<close>

record 'd git_env =
  ge_open :: "string \<Rightarrow> string \<Rightarrow> string + 'd"
  ge_git :: "'d \<Rightarrow> string list \<Rightarrow> string + string"
  ge_toml :: "string \<Rightarrow> string + (string \<times> toml) list"

datatype policy_error =
    StorageNotOpened string
  | NoDefaultBranch
  | BranchNotResolved string
  | NotListed string
  | SizeNotRead
  | TooLarge
  | NotRead string
  | NotToml string
  | GateNotTable
  | CapabilitiesNotArray
  | CapabilitiesNotStrings
  | CapabilitiesRefused hb_error

definition REPO_DECLARATION_PATH :: string where
  "REPO_DECLARATION_PATH = ''.jeryu/repo.toml''"

definition default_branch_commit :: "'d git_env \<Rightarrow> repository list \<Rightarrow> 'd \<Rightarrow> string \<Rightarrow> string
    \<Rightarrow> policy_error + string" where
  "default_branch_commit env repositories dir owner nm =
     (case find_repo repositories (owner @ ''/'' @ nm) of
        None \<Rightarrow> Inl NoDefaultBranch
      | Some found \<Rightarrow>
          let branch = repo_default_branch found in
          if branch = [] then Inl NoDefaultBranch
          else let tip = ''refs/heads/'' @ branch @ ''^{commit}'';
                   resolved = (case ge_git env dir
                       [''rev-parse'', ''--verify'', ''--quiet'', ''--end-of-options'', tip] of
                     Inr out \<Rightarrow> trim out
                   | Inl _ \<Rightarrow> [])
               in if length resolved = 40 \<and> list_all is_ascii_hexdigit resolved then Inr resolved
                  else Inl (BranchNotResolved branch))"

definition read_declaration :: "'d git_env \<Rightarrow> 'd \<Rightarrow> string \<Rightarrow> policy_error + string option" where
  "read_declaration env dir base =
     (case ge_git env dir [''ls-tree'', ''--end-of-options'', base, ''--'', REPO_DECLARATION_PATH] of
        Inl e \<Rightarrow> Inl (NotListed e)
      | Inr listed \<Rightarrow>
          if listed = [] then Inr None
          else let obj = base @ '':'' @ REPO_DECLARATION_PATH;
                   size = (case ge_git env dir [''cat-file'', ''-s'', ''--end-of-options'', obj] of
                       Inr out \<Rightarrow> parse_uint u64_max (trim out)
                     | Inl _ \<Rightarrow> None)
               in case size of
                    None \<Rightarrow> Inl SizeNotRead
                  | Some n \<Rightarrow>
                      if n > MAX_REPO_DECLARATION_BYTES then Inl TooLarge
                      else case ge_git env dir [''cat-file'', ''blob'', ''--end-of-options'', obj] of
                             Inl e \<Rightarrow> Inl (NotRead e)
                           | Inr out \<Rightarrow> Inr (Some out))"

fun toml_strings :: "toml list \<Rightarrow> policy_error + string list" where
  "toml_strings [] = Inr []"
| "toml_strings (v # vs) =
     (case v of
        TomlString s \<Rightarrow> and_then (toml_strings vs) (\<lambda>ss. Inr (s # ss))
      | _ \<Rightarrow> Inl CapabilitiesNotStrings)"

definition parse_capabilities :: "(string \<Rightarrow> string + (string \<times> toml) list) \<Rightarrow> string
    \<Rightarrow> policy_error + string list" where
  "parse_capabilities parse_toml txt =
     (case parse_toml txt of
        Inl e \<Rightarrow> Inl (NotToml e)
      | Inr table \<Rightarrow>
          (case map_of table ''gate'' of
             None \<Rightarrow> Inr []
           | Some (TomlTable gate) \<Rightarrow>
               (case map_of gate ''capabilities'' of
                  None \<Rightarrow> Inr []
                | Some (TomlArray declared) \<Rightarrow>
                    and_then (toml_strings declared)
                      (\<lambda>capabilities. case validate_capabilities capabilities of
                         Inl e \<Rightarrow> Inl (CapabilitiesRefused e)
                       | Inr _ \<Rightarrow> Inr capabilities)
                | Some _ \<Rightarrow> Inl CapabilitiesNotArray)
           | Some _ \<Rightarrow> Inl GateNotTable))"

definition required_capabilities :: "'d git_env \<Rightarrow> repository list \<Rightarrow> string \<Rightarrow> string
    \<Rightarrow> policy_error + string list" where
  "required_capabilities env repositories owner nm =
     (case ge_open env owner nm of
        Inl e \<Rightarrow> Inl (StorageNotOpened e)
      | Inr dir \<Rightarrow>
          and_then (default_branch_commit env repositories dir owner nm)
            (\<lambda>base. and_then (read_declaration env dir base)
               (\<lambda>txt. case txt of
                  None \<Rightarrow> Inr []
                | Some t \<Rightarrow> parse_capabilities (ge_toml env) t)))"

section \<open>Which hosts can\<close>

text \<open>The union of what the live gate slots of a host advertise, in order and without repeats.\<close>

definition host_capabilities :: "gate_runner_record list \<Rightarrow> string \<Rightarrow> time \<Rightarrow> string list" where
  "host_capabilities runners host now = sort (remdups (concat (map (\<lambda>r. hb_capabilities (rec_heartbeat r))
     (filter (\<lambda>r. hb_host (rec_heartbeat r) = host \<and> holds_gate_slot (rec_heartbeat r) \<and> is_online r now)
       runners))))"

definition capable_host_alive :: "gate_runner_record list \<Rightarrow> string list \<Rightarrow> time \<Rightarrow> bool" where
  "capable_host_alive runners required now =
     list_ex (\<lambda>host. list_all (\<lambda>nm. nm \<in> set (host_capabilities runners host now)) required)
       (map (\<lambda>r. hb_host (rec_heartbeat r))
         (filter (\<lambda>r. holds_gate_slot (rec_heartbeat r) \<and> is_online r now) runners))"

definition capable_claimant :: "gate_runner_record list \<Rightarrow> gate_claim_request \<Rightarrow> string list \<Rightarrow> time \<Rightarrow> bool" where
  "capable_claimant runners r required now =
     list_ex (\<lambda>rc. list_all (\<lambda>nm. nm \<in> set (hb_capabilities (rec_heartbeat rc))) required)
       (filter (\<lambda>rc. hb_runner_id (rec_heartbeat rc) = req_runner_id r \<and>
                     hb_host (rec_heartbeat rc) = req_host r \<and>
                     holds_gate_slot (rec_heartbeat rc) \<and> is_online rc now) runners)"

definition host_mismatch :: "gate_runner_store \<Rightarrow> gate_claim_request \<Rightarrow> bool" where
  "host_mismatch runners r =
     (case gr_previous runners (req_runner_id r) of
        None \<Rightarrow> False
      | Some reported \<Rightarrow> hb_host reported \<noteq> req_host r)"

section \<open>The handlers\<close>

text \<open>
  An answer is its HTTP status and its body: an error with its code, a lease with the word that
  says what happened to it, the holder that is in the way, or the missing capabilities.
\<close>

datatype claim_body =
    ApiError string
  | ClaimJson string gate_claim
  | ClaimHeld gate_claim
  | CapabilityMissing "string list" "string list" "string list"
  | StateJson string string string

type_synonym claim_response = "nat \<times> claim_body"

text \<open>The part of the forge's state the handlers touch.\<close>

record claims_world =
  cw_repositories :: "repository list"
  cw_runners :: gate_runner_store
  cw_claims :: claim_store

text \<open>A request that is reading its policy: it has read the clock and found no lease to renew.\<close>

record pending =
  pd_request :: gate_claim_request
  pd_asked :: asked
  pd_ask :: claim_ask
  pd_now :: time

definition may_claim :: "claims_world \<Rightarrow> account_summary \<Rightarrow> bool" where
  "may_claim w account = may_report (cw_runners w) (acct_login account) (acct_admin account)"

definition acquire_begin :: "claims_world \<Rightarrow> account_summary \<Rightarrow> gate_claim_request \<Rightarrow> time
    \<Rightarrow> claims_world \<times> (claim_response + pending)" where
  "acquire_begin w account r now =
     (if \<not> may_claim w account then (w, Inl (403, ApiError ''permission_denied''))
      else case validate r of
        Inl reason \<Rightarrow> (w, Inl (422, ApiError ''invalid_input''))
      | Inr a \<Rightarrow>
          if find_repo (cw_repositories w) (asked_owner a @ ''/'' @ asked_name a) = None
          then (w, Inl (404, ApiError ''not_found''))
          else if host_mismatch (cw_runners w) r then (w, Inl (422, ApiError ''host_mismatch''))
          else let ask = \<lparr>ask_repo = req_repo r, ask_number = req_number r, ask_head = asked_head a,
                          ask_runner_id = req_runner_id r, ask_host = req_host r\<rparr>
               in case gc_renew (cw_claims w) ask now of
                    (claims, Some c) \<Rightarrow> (w\<lparr>cw_claims := claims\<rparr>, Inl (200, ClaimJson ''renewed'' c))
                  | (claims, None) \<Rightarrow>
                      (w\<lparr>cw_claims := claims\<rparr>,
                       Inr \<lparr>pd_request = r, pd_asked = a, pd_ask = ask, pd_now = now\<rparr>))"

text \<open>
  The second half, on the state as it is when the read has finished. \<open>read\<close> is the answer of the
  blocking task: \<open>None\<close> when the task itself failed.
\<close>

definition acquire_end :: "claims_world \<Rightarrow> pending \<Rightarrow> (policy_error + string list) option
    \<Rightarrow> claims_world \<times> claim_response" where
  "acquire_end w p read =
     (case read of
        None \<Rightarrow> (w, (503, ApiError ''invalid_repo_config''))
      | Some (Inl reason) \<Rightarrow> (w, (422, ApiError ''invalid_repo_config''))
      | Some (Inr required) \<Rightarrow>
          let runners = gr_snapshot (cw_runners w);
              advertised = host_capabilities runners (req_host (pd_request p)) (pd_now p)
          in if required \<noteq> [] \<and> \<not> capable_claimant runners (pd_request p) required (pd_now p)
             then (w, (409, CapabilityMissing required advertised
                              (filter (\<lambda>nm. nm \<notin> set advertised) required)))
             else case gc_acquire (cw_claims w) (pd_ask p) required (pd_now p) of
               (claims, g) \<Rightarrow>
                 (w\<lparr>cw_claims := claims\<rparr>,
                  (case g of
                     Fresh c \<Rightarrow> (201, ClaimJson ''granted'' c)
                   | Renewed c \<Rightarrow> (200, ClaimJson ''renewed'' c)
                   | Held c \<Rightarrow> (409, ClaimHeld c)
                   | Full \<Rightarrow> (503, ApiError ''claim_capacity''))))"

definition handle_release :: "claims_world \<Rightarrow> account_summary \<Rightarrow> gate_claim_request \<Rightarrow> time
    \<Rightarrow> claims_world \<times> claim_response" where
  "handle_release w account r now =
     (if \<not> may_claim w account then (w, (403, ApiError ''permission_denied''))
      else case validate r of
        Inl reason \<Rightarrow> (w, (422, ApiError ''invalid_input''))
      | Inr a \<Rightarrow>
          (case gc_release (cw_claims w) (req_repo r) (asked_head a) (req_runner_id r) now of
             (claims, outcome) \<Rightarrow>
               (w\<lparr>cw_claims := claims\<rparr>,
                (case outcome of
                   Released \<Rightarrow> (200, StateJson ''released'' (req_repo r) (asked_head a))
                 | Absent \<Rightarrow> (200, StateJson ''absent'' (req_repo r) (asked_head a))
                 | HeldByOther c \<Rightarrow> (409, ClaimHeld c)))))"

section \<open>The interleaved system\<close>

text \<open>
  Requests of any number of runners, their policy reads in flight, heartbeats and releases. The
  repository list may change between steps (repositories come and go); a policy read answers with
  whatever git and the declaration say at the moment it finishes.
\<close>

record claims_system =
  sys_world :: claims_world
  sys_pending :: "pending list"

inductive claims_step :: "'d git_env \<Rightarrow> claims_system \<Rightarrow> claims_system \<Rightarrow> bool" for env where
  answered: "acquire_begin (sys_world s) account r now = (w, Inl response) \<Longrightarrow>
    claims_step env s (s\<lparr>sys_world := w\<rparr>)"
| suspended: "acquire_begin (sys_world s) account r now = (w, Inr p) \<Longrightarrow>
    claims_step env s (s\<lparr>sys_world := w, sys_pending := p # sys_pending s\<rparr>)"
| resumed: "sys_pending s = ps @ p # qs \<Longrightarrow>
    read = None \<or> read = Some (required_capabilities env (cw_repositories (sys_world s))
                                 (asked_owner (pd_asked p)) (asked_name (pd_asked p))) \<Longrightarrow>
    acquire_end (sys_world s) p read = (w, response) \<Longrightarrow>
    claims_step env s (s\<lparr>sys_world := w, sys_pending := ps @ qs\<rparr>)"
| released: "handle_release (sys_world s) account r now = (w, response) \<Longrightarrow>
    claims_step env s (s\<lparr>sys_world := w\<rparr>)"
| beat: "gr_record (cw_runners (sys_world s)) hb reporter now = (runners, outcome) \<Longrightarrow>
    claims_step env s (s\<lparr>sys_world := (sys_world s)\<lparr>cw_runners := runners\<rparr>\<rparr>)"
| relisted: "claims_step env s (s\<lparr>sys_world := (sys_world s)\<lparr>cw_repositories := rs\<rparr>\<rparr>)"

inductive claims_reachable :: "'d git_env \<Rightarrow> claims_system \<Rightarrow> bool" for env where
  start: "claims_reachable env
    \<lparr>sys_world = \<lparr>cw_repositories = rs, cw_runners = with_reporters logins, cw_claims = []\<rparr>,
     sys_pending = []\<rparr>"
| later: "claims_reachable env s \<Longrightarrow> claims_step env s t \<Longrightarrow> claims_reachable env t"

section \<open>Properties\<close>

definition commit_id :: "string \<Rightarrow> bool" where
  "commit_id head \<longleftrightarrow> 7 \<le> length head \<and> length head \<le> 64 \<and> list_all is_lower_hex head"

lemma validate_head_iff:
  "validate_head owner nm head = Inr a \<longleftrightarrow>
     commit_id head \<and> a = \<lparr>asked_owner = owner, asked_name = nm, asked_head = head\<rparr>"
  by (auto simp: validate_head_def commit_id_def hexdigit_lower_iff)

lemma check_field_ok:
  "check_field field val extra = Inr u \<longleftrightarrow>
     val \<noteq> [] \<and> length val \<le> 128 \<and> list_all (\<lambda>c. is_ascii_alphanumeric c \<or> c \<in> set extra) val"
  by (auto simp: check_field_def)

lemma validate_head_commit: "validate r = Inr a \<Longrightarrow> commit_id (asked_head a)"
  by (auto simp: validate_def and_then_Inr_iff validate_head_iff split: option.splits)

lemma parse_capabilities_vocabulary:
  "parse_capabilities f txt = Inr caps \<Longrightarrow> caps = [] \<or> caps = [''host-ci'']"
  by (auto simp: parse_capabilities_def and_then_Inr_iff validate_capabilities_iff
      split: sum.splits option.splits toml.splits)

lemma required_capabilities_vocabulary:
  "required_capabilities env rs owner nm = Inr caps \<Longrightarrow> caps = [] \<or> caps = [''host-ci'']"
  by (auto simp: required_capabilities_def and_then_Inr_iff
      split: sum.splits option.splits dest: parse_capabilities_vocabulary)

text \<open>
  What every lease of a reachable system looks like: it is on a lowercase commit id, and it was
  granted under a requirement of the closed vocabulary.
\<close>

definition lease_shape :: "gate_claim \<Rightarrow> bool" where
  "lease_shape c \<longleftrightarrow> commit_id (gc_head c) \<and>
     (gc_required_capabilities c = [] \<or> gc_required_capabilities c = [''host-ci''])"

definition all_leases :: "(gate_claim \<Rightarrow> bool) \<Rightarrow> claim_store \<Rightarrow> bool" where
  "all_leases P claims \<longleftrightarrow> (\<forall>k c. map_of claims k = Some c \<longrightarrow> P c)"

lemma all_leases_submap: "all_leases P m \<Longrightarrow> map_of m' \<subseteq>\<^sub>m map_of m \<Longrightarrow> all_leases P m'"
  unfolding all_leases_def map_le_def by (metis domI)

lemma all_leases_insert: "all_leases P m \<Longrightarrow> P c \<Longrightarrow> all_leases P (bt_insert k c m)"
  by (simp add: all_leases_def bt_simps)

lemma all_leases_forget_old:
  "gc_inv claims \<Longrightarrow> all_leases P claims \<Longrightarrow> all_leases P (forget_old claims now)"
  by (erule all_leases_submap) (rule map_le_forget_old, erule gc_inv_wf)

lemma all_leases_acquire:
  assumes "gc_inv claims" "all_leases P claims"
    and fresh: "P (new_claim ask required now)"
    and renewed: "\<And>h. P h \<Longrightarrow> P (renewed_claim h ask now)"
  shows "all_leases P (fst (gc_acquire claims ask required now))"
proof -
  have old: "all_leases P (forget_old claims now)"
    using assms(1,2) by (rule all_leases_forget_old)
  have "room_made (forget_old claims now) now (make_room (forget_old claims now) now)"
    using assms(1) by (intro make_room_made gc_inv_wf gc_inv_forget_old)
  then have roomy: "all_leases P (fst (make_room (forget_old claims now) now))"
    using old by (auto simp: room_made_def intro: all_leases_submap)
  show ?thesis
  proof (cases rule: gc_acquire_cases
      [where ?claims0.0 = claims and ask = ask and required = required and now = now])
    case (renewed h)
    then have "P h" using old by (simp add: all_leases_def)
    with renewed old assms(4) show ?thesis by (simp add: all_leases_insert)
  qed (simp_all add: old roomy fresh all_leases_insert)
qed

lemma all_leases_renew:
  assumes "all_leases P claims"
    and "\<And>h. P h \<Longrightarrow> P (h\<lparr>gc_host := ask_host ask, gc_renewed_at := now,
           gc_expires_at := now + secs GATE_CLAIM_TTL_SECS\<rparr>)"
  shows "all_leases P (fst (gc_renew claims ask now))"
proof (cases "map_of claims (key_of_ask ask)")
  case None
  with assms(1) show ?thesis by (simp add: gc_renew_def)
next
  case (Some h)
  then have "P h" using assms(1) by (simp add: all_leases_def)
  with Some assms show ?thesis by (simp add: gc_renew_def Let_def all_leases_insert)
qed

lemma all_leases_release:
  assumes "gc_inv claims" "all_leases P claims"
  shows "all_leases P (fst (gc_release claims repo head runner now))"
  using all_leases_forget_old [OF assms, of now] all_leases_submap [OF _ map_le_bt_remove]
  by (auto simp: gc_release_def Let_def split: option.splits)

definition claims_inv :: "claims_world \<Rightarrow> bool" where
  "claims_inv w \<longleftrightarrow> gr_inv (cw_runners w) \<and> gc_inv (cw_claims w) \<and> all_leases lease_shape (cw_claims w)"

definition pending_ok :: "pending \<Rightarrow> bool" where
  "pending_ok p \<longleftrightarrow> commit_id (ask_head (pd_ask p)) \<and>
     ask_runner_id (pd_ask p) = req_runner_id (pd_request p) \<and>
     ask_host (pd_ask p) = req_host (pd_request p)"

lemma acquire_begin_inv:
  assumes "claims_inv w" "acquire_begin w account r now = (w', outcome)"
  shows "claims_inv w' \<and> (\<forall>p. outcome = Inr p \<longrightarrow> pending_ok p)"
proof (cases "w' = w \<and> (\<exists>resp. outcome = Inl resp)")
  case True
  with assms(1) show ?thesis by auto
next
  case False
  with assms(2) obtain a ask where v: "validate r = Inr a"
    and ask: "ask = \<lparr>ask_repo = req_repo r, ask_number = req_number r, ask_head = asked_head a,
                     ask_runner_id = req_runner_id r, ask_host = req_host r\<rparr>"
    and w': "w' = w\<lparr>cw_claims := fst (gc_renew (cw_claims w) ask now)\<rparr>"
    and out: "\<forall>p. outcome = Inr p \<longrightarrow> pd_ask p = ask \<and> pd_request p = r"
    by (auto simp: acquire_begin_def Let_def split: if_splits sum.splits prod.splits option.splits)
  have "all_leases lease_shape (fst (gc_renew (cw_claims w) ask now))"
    using assms(1) by (intro all_leases_renew) (simp_all add: claims_inv_def lease_shape_def)
  with assms(1) w' have "claims_inv w'" by (simp add: claims_inv_def gc_renew_inv)
  with out ask validate_head_commit [OF v] show ?thesis by (auto simp: pending_ok_def)
qed

lemma acquire_end_inv:
  assumes "claims_inv w" "pending_ok p"
    and "\<forall>caps. read = Some (Inr caps) \<longrightarrow> caps = [] \<or> caps = [''host-ci'']"
  shows "claims_inv (fst (acquire_end w p read))"
proof (cases "\<exists>caps. read = Some (Inr caps)")
  case False
  with assms(1) show ?thesis by (auto simp: acquire_end_def split: option.splits sum.splits)
next
  case True
  then obtain caps where caps: "read = Some (Inr caps)" "caps = [] \<or> caps = [''host-ci'']"
    using assms(3) by blast
  have "all_leases lease_shape (fst (gc_acquire (cw_claims w) (pd_ask p) caps (pd_now p)))"
    using assms(1,2) caps(2)
    by (intro all_leases_acquire) (auto simp: claims_inv_def lease_shape_def pending_ok_def claim_records)
  with assms(1) caps(1) show ?thesis
    by (auto simp: acquire_end_def Let_def claims_inv_def case_prod_beta gc_acquire_inv)
qed

lemma handle_release_inv: "claims_inv w \<Longrightarrow> claims_inv (fst (handle_release w account r now))"
  by (auto simp: handle_release_def claims_inv_def case_prod_beta gc_release_inv all_leases_release
      split: sum.splits)

lemma claims_step_inv:
  assumes "claims_step env s t"
    and "claims_inv (sys_world s) \<and> (\<forall>p \<in> set (sys_pending s). pending_ok p)"
  shows "claims_inv (sys_world t) \<and> (\<forall>p \<in> set (sys_pending t). pending_ok p)"
  using assms
proof (induction rule: claims_step.induct)
  case (answered s account r now w response)
  then show ?case using acquire_begin_inv by fastforce
next
  case (suspended s account r now w p)
  then show ?case using acquire_begin_inv by fastforce
next
  case (resumed s ps p qs read w response)
  then have "pending_ok p" by simp
  moreover have "\<forall>caps. read = Some (Inr caps) \<longrightarrow> caps = [] \<or> caps = [''host-ci'']"
    using resumed(2) by (metis option.distinct(1) option.inject required_capabilities_vocabulary)
  ultimately have "claims_inv (fst (acquire_end (sys_world s) p read))"
    using resumed.prems by (intro acquire_end_inv) simp_all
  with resumed show ?case by auto
next
  case (released s account r now w response)
  then show ?case using handle_release_inv [of "sys_world s" account r now] by simp
next
  case (beat s hb reporter now runners outcome)
  then show ?case
    using gr_record_inv [of "cw_runners (sys_world s)" hb reporter now] by (simp add: claims_inv_def)
next
  case (relisted s rs)
  then show ?case by (simp add: claims_inv_def)
qed

lemma claims_reachable_inv:
  "claims_reachable env s \<Longrightarrow> claims_inv (sys_world s) \<and> (\<forall>p \<in> set (sys_pending s). pending_ok p)"
proof (induction rule: claims_reachable.induct)
  case (start rs logins)
  show ?case by (simp add: claims_inv_def gr_inv_init gc_inv_def all_leases_def)
next
  case (later s t)
  then show ?case using claims_step_inv by blast
qed

lemma capable_claimant_record:
  assumes "gr_inv st" "capable_claimant (gr_snapshot st) r required now"
  obtains rc where "map_of (gs_runners st) (req_runner_id r) = Some rc"
    "hb_host (rec_heartbeat rc) = req_host r" "holds_gate_slot (rec_heartbeat rc)" "is_online rc now"
    "set required \<subseteq> set (hb_capabilities (rec_heartbeat rc))"
proof -
  from assms(2) obtain k rc where kr: "(k, rc) \<in> set (gs_runners st)"
    and rc: "hb_runner_id (rec_heartbeat rc) = req_runner_id r"
      "hb_host (rec_heartbeat rc) = req_host r" "holds_gate_slot (rec_heartbeat rc)" "is_online rc now"
      "set required \<subseteq> set (hb_capabilities (rec_heartbeat rc))"
    by (auto simp: capable_claimant_def gr_snapshot_def list_ex_iff list_all_iff subset_eq)
  have "map_of (gs_runners st) k = Some rc" using kr assms(1) by (simp add: gr_inv_def bt_mem_iff)
  moreover from this assms(1) rc(1) have "k = req_runner_id r" by (simp add: gr_inv_def)
  ultimately show ?thesis using rc that by blast
qed

text \<open>
  C17. Well-formed leases under every interleaving. However the halves of acquire requests, the
  releases and the heartbeats interleave, the store never holds more than \<open>MAX_CLAIMS\<close> leases, one
  per repository and head; each is on a lowercase commit id, expires one TTL after its last
  renewal, and was granted under no requirement or under the one known capability.
\<close>

theorem reachable_leases_well_formed:
  assumes "claims_reachable env s" and "map_of (cw_claims (sys_world s)) k = Some c"
  shows "length (cw_claims (sys_world s)) \<le> MAX_CLAIMS \<and>
    distinct (map fst (cw_claims (sys_world s))) \<and>
    k = claim_key (gc_repo c) (gc_head c) \<and> commit_id (gc_head c) \<and>
    gc_expires_at c = gc_renewed_at c + secs GATE_CLAIM_TTL_SECS \<and>
    (gc_required_capabilities c = [] \<or> gc_required_capabilities c = [''host-ci''])"
  using claims_reachable_inv [OF assms(1)] assms(2)
  by (simp add: claims_inv_def gc_inv_def gc_ok_claim_def all_leases_def lease_shape_def bt_wf_distinct)


section \<open>Examples\<close>

text \<open>
  A repository that requires \<open>host-ci\<close>, one runner that advertises it, and the four steps in which
  the runner beats, asks, waits for the policy and is granted its lease.
\<close>

definition ex_env :: "unit git_env" where
  "ex_env = \<lparr>ge_open = (\<lambda>_ _. Inr ()),
     ge_git = (\<lambda>_ args. if args ! 0 = ''rev-parse'' then Inr (replicate 40 (CHR ''a''))
                        else if args ! 1 = ''-s'' then Inr ''44'' else Inr ''x''),
     ge_toml = (\<lambda>_. Inr [(''gate'', TomlTable [(''capabilities'', TomlArray [TomlString ''host-ci''])])])\<rparr>"

definition ex_repo :: repository where
  "ex_repo = \<lparr>repo_id = ''1'', repo_owner = ''o'', repo_name = ''r'', repo_full_name = ''o/r'',
     repo_default_branch = ''main''\<rparr>"

definition ex_beat :: gate_runner_heartbeat where
  "ex_beat = \<lparr>hb_runner_id = ''a'', hb_host = ''h'', hb_slot = 0, hb_labels = [],
     hb_capabilities = [''host-ci''], hb_interval_seconds = None, hb_current = None, hb_last = None,
     hb_code = None, hb_tools = []\<rparr>"

definition ex_request :: gate_claim_request where
  "ex_request = \<lparr>req_repo = ''o/r'', req_number = 7, req_head_sha = Some ''abcdef1'',
     req_queue_sha = None, req_runner_id = ''a'', req_host = ''h''\<rparr>"

definition ex_admin :: account_summary where
  "ex_admin = \<lparr>acct_login = ''root'', acct_admin = True\<rparr>"

definition ex_s0 :: claims_system where
  "ex_s0 = \<lparr>sys_world = \<lparr>cw_repositories = [ex_repo], cw_runners = with_reporters [], cw_claims = []\<rparr>,
     sys_pending = []\<rparr>"

definition ex_s1 :: claims_system where
  "ex_s1 = ex_s0\<lparr>sys_world := (sys_world ex_s0)\<lparr>cw_runners :=
     fst (gr_record (cw_runners (sys_world ex_s0)) ex_beat ''root'' 0)\<rparr>\<rparr>"

definition ex_pending :: pending where
  "ex_pending = projr (snd (acquire_begin (sys_world ex_s1) ex_admin ex_request 5))"

definition ex_s2 :: claims_system where
  "ex_s2 = ex_s1\<lparr>sys_world := fst (acquire_begin (sys_world ex_s1) ex_admin ex_request 5),
     sys_pending := ex_pending # sys_pending ex_s1\<rparr>"

definition ex_read :: "policy_error + string list" where
  "ex_read = required_capabilities ex_env (cw_repositories (sys_world ex_s2)) ''o'' ''r''"

definition ex_s3 :: claims_system where
  "ex_s3 = ex_s2\<lparr>sys_world := fst (acquire_end (sys_world ex_s2) ex_pending (Some ex_read)),
     sys_pending := []\<rparr>"

lemma ex_suspends: "\<not> isl (snd (acquire_begin (sys_world ex_s1) ex_admin ex_request 5))"
  by code_simp

lemma ex_grants: "snd (acquire_end (sys_world ex_s2) ex_pending (Some ex_read)) =
    (201, ClaimJson ''granted'' (new_claim (pd_ask ex_pending) [''host-ci''] 5))"
  by code_simp

lemma ex_leased: "map_of (cw_claims (sys_world ex_s3)) (''o/r'', ''abcdef1'') =
    Some (new_claim (pd_ask ex_pending) [''host-ci''] 5)"
  by code_simp

lemma ex_asked: "asked_owner (pd_asked ex_pending) = ''o'' \<and> asked_name (pd_asked ex_pending) = ''r''"
  by code_simp

lemma ex_reachable: "claims_reachable ex_env ex_s2" "claims_reachable ex_env ex_s3"
proof -
  have "claims_reachable ex_env ex_s0"
    unfolding ex_s0_def by (rule claims_reachable.start)
  moreover have "claims_step ex_env ex_s0 ex_s1"
    unfolding ex_s1_def by (rule claims_step.beat) (rule surjective_pairing)
  ultimately have r1: "claims_reachable ex_env ex_s1" by (rule claims_reachable.later)
  moreover have "claims_step ex_env ex_s1 ex_s2"
    unfolding ex_s2_def
    by (rule claims_step.suspended [where account = ex_admin and r = ex_request and now = 5])
      (metis ex_suspends ex_pending_def sum.collapse(2) surjective_pairing)
  ultimately show r2: "claims_reachable ex_env ex_s2" by (rule claims_reachable.later)
  have "claims_step ex_env ex_s2 (ex_s2\<lparr>sys_world := fst (acquire_end (sys_world ex_s2) ex_pending (Some ex_read)),
      sys_pending := [] @ []\<rparr>)"
  proof (rule claims_step.resumed [where p = ex_pending and read = "Some ex_read"])
    show "sys_pending ex_s2 = [] @ ex_pending # []" by (simp add: ex_s2_def ex_s1_def ex_s0_def)
    show "Some ex_read = None \<or> Some ex_read = Some (required_capabilities ex_env
        (cw_repositories (sys_world ex_s2)) (asked_owner (pd_asked ex_pending)) (asked_name (pd_asked ex_pending)))"
      by (simp add: ex_read_def ex_asked)
  qed (rule surjective_pairing)
  then show "claims_reachable ex_env ex_s3"
    unfolding ex_s3_def using r2 by (simp add: claims_reachable.later)
qed

theorem reachable_leases_well_formed_witness:
  "claims_reachable ex_env ex_s3 \<and> commit_id (gc_head (new_claim (pd_ask ex_pending) [''host-ci''] 5))"
  using reachable_leases_well_formed [OF ex_reachable(2) ex_leased] ex_reachable(2) by simp


end
