(* ===== verification/GateWanted.thy ===== *)
theory GateWanted
  imports Forge
begin

text \<open>
  The signals that a head can be gated now, \<^verbatim>\<open>crates/jeryu-api/src/web/gate_wanted.rs\<close>. The
  store numbers the signals and keeps the newest \<open>MAX_SIGNALS\<close>; a reader asks for more than the
  last number it saw and may hold its request open.

  The long poll of \<^verbatim>\<open>list\<close> is a step relation. Its registration with the notifier, its read of
  the store, its decision, its wait and its answer after a timeout are separate steps, and a signal
  may be recorded between any two of them. A sequence number is a \<^verbatim>\<open>u64\<close> that starts at zero
  and moves by one a signal, so it stays below its bound for any number of signals a process records;
  it is a natural number here.
\<close>

section \<open>The store\<close>

definition MAX_SIGNALS :: nat where
  "MAX_SIGNALS = 512"

definition MAX_WAIT :: nat where
  "MAX_WAIT = 60"

definition SOURCE_PUSH :: string where
  "SOURCE_PUSH = ''push''"

definition SOURCE_QUEUE :: string where
  "SOURCE_QUEUE = ''queue''"

definition SOURCE_REGATE :: string where
  "SOURCE_REGATE = ''regate''"

definition SOURCE_OK_TO_TEST :: string where
  "SOURCE_OK_TO_TEST = ''ok_to_test''"

record gate_wanted =
  gw_seq :: nat
  gw_repo :: string
  gw_ref_name :: "string option"
  gw_number :: "nat option"
  gw_sha :: string
  gw_source :: string
  gw_at :: string

record new_gate_wanted =
  new_repo :: string
  new_ref_name :: "string option"
  new_number :: "nat option"
  new_sha :: string
  new_source :: string

record signals =
  sig_kept :: "gate_wanted list"
  sig_last_seq :: nat

definition signals_default :: signals where
  "signals_default = \<lparr>sig_kept = [], sig_last_seq = 0\<rparr>"

definition dated :: "nat \<Rightarrow> string \<Rightarrow> new_gate_wanted \<Rightarrow> gate_wanted" where
  "dated seq at new = \<lparr>gw_seq = seq, gw_repo = new_repo new, gw_ref_name = new_ref_name new,
     gw_number = new_number new, gw_sha = new_sha new, gw_source = new_source new, gw_at = at\<rparr>"

fun pop_front_over :: "nat \<Rightarrow> 'a list \<Rightarrow> 'a list" where
  "pop_front_over cap [] = []"
| "pop_front_over cap (x # xs) = (if length (x # xs) > cap then pop_front_over cap xs else x # xs)"

definition gw_record :: "signals \<Rightarrow> string \<Rightarrow> new_gate_wanted \<Rightarrow> signals" where
  "gw_record st at new =
     (let seq = sig_last_seq st + 1
      in st\<lparr>sig_last_seq := seq,
            sig_kept := pop_front_over MAX_SIGNALS (sig_kept st @ [dated seq at new])\<rparr>)"

definition gw_last_seq :: "signals \<Rightarrow> nat" where
  "gw_last_seq st = sig_last_seq st"

definition gw_since :: "signals \<Rightarrow> nat \<Rightarrow> nat \<times> gate_wanted list" where
  "gw_since st after = (sig_last_seq st, filter (\<lambda>s. gw_seq s > after) (sig_kept st))"

section \<open>The recorders\<close>

text \<open>\<open>at\<close> is the server's time as the recorder reads it.\<close>

definition push_signal :: "string \<Rightarrow> string \<Rightarrow> ref_update \<Rightarrow> new_gate_wanted" where
  "push_signal owner repo update = \<lparr>new_repo = owner @ ''/'' @ repo,
     new_ref_name = Some (ru_ref_name update), new_number = None,
     new_sha = ru_new_oid update, new_source = SOURCE_PUSH\<rparr>"

definition on_contrib_branch :: "ref_update \<Rightarrow> bool" where
  "on_contrib_branch update \<longleftrightarrow>
     (case strip_prefix ''refs/heads/'' (ru_ref_name update) of
        None \<Rightarrow> False
      | Some branch \<Rightarrow> contrib_number branch \<noteq> None)"

definition record_push :: "signals \<Rightarrow> string \<Rightarrow> string \<Rightarrow> string \<Rightarrow> ref_update list \<Rightarrow> signals" where
  "record_push st at owner repo updates =
     (let repo = trim_end_matches (length repo) ''.git'' repo
      in foldl (\<lambda>st update. if on_contrib_branch update then st
                            else gw_record st at (push_signal owner repo update)) st updates)"

definition pull_signal :: "string \<Rightarrow> string \<Rightarrow> nat \<Rightarrow> string \<Rightarrow> new_gate_wanted" where
  "pull_signal source repo number sha = \<lparr>new_repo = repo, new_ref_name = None,
     new_number = Some number, new_sha = sha, new_source = source\<rparr>"

definition record_queue_commit :: "signals \<Rightarrow> string \<Rightarrow> string \<Rightarrow> nat \<Rightarrow> string \<Rightarrow> signals" where
  "record_queue_commit st at repo number sha = gw_record st at (pull_signal SOURCE_QUEUE repo number sha)"

definition record_regate :: "signals \<Rightarrow> string \<Rightarrow> string \<Rightarrow> nat \<Rightarrow> string \<Rightarrow> signals" where
  "record_regate st at repo number sha = gw_record st at (pull_signal SOURCE_REGATE repo number sha)"

definition record_ok_to_test :: "signals \<Rightarrow> string \<Rightarrow> string \<Rightarrow> nat \<Rightarrow> string \<Rightarrow> signals" where
  "record_ok_to_test st at repo number sha =
     gw_record st at (pull_signal SOURCE_OK_TO_TEST repo number sha)"

section \<open>The long poll\<close>

definition readable :: "(string \<Rightarrow> string \<Rightarrow> string \<Rightarrow> bool) \<Rightarrow> account_summary \<Rightarrow> string \<Rightarrow> bool" where
  "readable can_read account repo =
     (if acct_admin account then True
      else case split_once (CHR ''/'') repo of
        None \<Rightarrow> False
      | Some (owner, nm) \<Rightarrow> can_read (acct_login account) owner nm)"

record gate_wanted_query =
  q_after :: "nat option"
  q_wait :: "nat option"

datatype poll_phase =
    Registering
  | Registered bool
  | Deciding bool nat "gate_wanted list"
  | Waiting bool
  | TimedOut
  | Answered nat "gate_wanted list"

record poll =
  poll_store :: signals
  poll_now :: nat
  poll_after :: nat
  poll_deadline :: nat
  poll_phase :: poll_phase

definition poll_start :: "signals \<Rightarrow> nat \<Rightarrow> gate_wanted_query \<Rightarrow> poll" where
  "poll_start st now query =
     \<lparr>poll_store = st, poll_now = now,
      poll_after = (case q_after query of None \<Rightarrow> 0 | Some n \<Rightarrow> n),
      poll_deadline = now + min (case q_wait query of None \<Rightarrow> 0 | Some n \<Rightarrow> n) MAX_WAIT,
      poll_phase = Registering\<rparr>"

definition visible_since :: "(string \<Rightarrow> bool) \<Rightarrow> signals \<Rightarrow> nat \<Rightarrow> gate_wanted list" where
  "visible_since may st after = filter (\<lambda>s. may (gw_repo s)) (snd (gw_since st after))"

fun notified :: "poll_phase \<Rightarrow> poll_phase" where
  "notified (Registered _) = Registered True"
| "notified (Deciding _ seq vis) = Deciding True seq vis"
| "notified (Waiting _) = Waiting True"
| "notified ph = ph"

text \<open>
  \<open>signal\<close> is another request recording, \<open>clock\<close> time passing; the rest are the handler's own steps
  in their order. A wait that has been notified goes round the loop even when its deadline is past,
  because the arrival is looked at first.
\<close>

inductive poll_step :: "(string \<Rightarrow> bool) \<Rightarrow> poll \<Rightarrow> poll \<Rightarrow> bool" for may where
  signal: "poll_step may p (p\<lparr>poll_store := gw_record (poll_store p) at new,
             poll_phase := notified (poll_phase p)\<rparr>)"
| clock: "poll_now p \<le> t \<Longrightarrow> poll_step may p (p\<lparr>poll_now := t\<rparr>)"
| register: "poll_phase p = Registering \<Longrightarrow> poll_step may p (p\<lparr>poll_phase := Registered False\<rparr>)"
| read: "poll_phase p = Registered b \<Longrightarrow>
    poll_step may p (p\<lparr>poll_phase := Deciding b (fst (gw_since (poll_store p) (poll_after p)))
      (visible_since may (poll_store p) (poll_after p))\<rparr>)"
| answer: "poll_phase p = Deciding b seq vis \<Longrightarrow>
    vis \<noteq> [] \<or> seq < poll_after p \<or> poll_deadline p \<le> poll_now p \<Longrightarrow>
    poll_step may p (p\<lparr>poll_phase := Answered seq vis\<rparr>)"
| hold: "poll_phase p = Deciding b seq vis \<Longrightarrow>
    \<not> (vis \<noteq> [] \<or> seq < poll_after p \<or> poll_deadline p \<le> poll_now p) \<Longrightarrow>
    poll_step may p (p\<lparr>poll_phase := Waiting b\<rparr>)"
| woken: "poll_phase p = Waiting True \<Longrightarrow> poll_step may p (p\<lparr>poll_phase := Registering\<rparr>)"
| expired: "poll_phase p = Waiting False \<Longrightarrow> poll_deadline p \<le> poll_now p \<Longrightarrow>
    poll_step may p (p\<lparr>poll_phase := TimedOut\<rparr>)"
| timed_out: "poll_phase p = TimedOut \<Longrightarrow>
    poll_step may p (p\<lparr>poll_phase := Answered (gw_last_seq (poll_store p)) []\<rparr>)"

inductive poll_run :: "(string \<Rightarrow> bool) \<Rightarrow> poll \<Rightarrow> poll \<Rightarrow> bool" for may where
  start: "poll_run may p p"
| step: "poll_run may p q \<Longrightarrow> poll_step may q r \<Longrightarrow> poll_run may p r"

inductive_cases poll_stepE: "poll_step may p q"

section \<open>The numbering\<close>

lemma pop_front_over_drop: "pop_front_over cap xs = drop (length xs - cap) xs"
  by (induction xs) (auto simp: Suc_diff_le not_le)

text \<open>
  The kept signals carry the newest sequence numbers, one each and in order, and there are at most
  \<open>MAX_SIGNALS\<close> of them.
\<close>

definition gw_inv :: "signals \<Rightarrow> bool" where
  "gw_inv st \<longleftrightarrow> length (sig_kept st) \<le> MAX_SIGNALS \<and> length (sig_kept st) \<le> sig_last_seq st \<and>
     map gw_seq (sig_kept st) = [Suc (sig_last_seq st) - length (sig_kept st)..<Suc (sig_last_seq st)]"

lemma gw_inv_default: "gw_inv signals_default"
  by (simp add: gw_inv_def signals_default_def)

lemma gw_record_kept:
  "sig_kept (gw_record st at new) =
     drop (Suc (length (sig_kept st)) - MAX_SIGNALS) (sig_kept st @ [dated (Suc (sig_last_seq st)) at new])"
  by (simp add: gw_record_def Let_def pop_front_over_drop)

lemma gw_record_last_seq [simp]: "sig_last_seq (gw_record st at new) = Suc (sig_last_seq st)"
  by (simp add: gw_record_def Let_def)

lemma gw_record_inv:
  assumes "gw_inv st"
  shows "gw_inv (gw_record st at new)"
proof -
  let ?n = "length (sig_kept st)" and ?l = "sig_last_seq st"
  have "map gw_seq (sig_kept st @ [dated (Suc ?l) at new]) = [Suc ?l - ?n..<Suc (Suc ?l)]"
    using assms by (simp add: gw_inv_def dated_def)
  then have "map gw_seq (sig_kept (gw_record st at new)) =
      [Suc ?l - ?n + (Suc ?n - MAX_SIGNALS)..<Suc (Suc ?l)]"
    by (simp only: gw_record_kept drop_map [symmetric] drop_upt)
  with assms show ?thesis by (auto simp: gw_inv_def gw_record_kept)
qed

definition gw_step :: "signals \<Rightarrow> string \<times> new_gate_wanted \<Rightarrow> signals" where
  "gw_step st e = gw_record st (fst e) (snd e)"

interpretation wanted: rising_machine gw_step gw_inv sig_last_seq
  by unfold_locales (simp_all add: gw_step_def gw_record_inv)

lemma gw_run_last_seq: "sig_last_seq (foldl gw_step st es) = sig_last_seq st + length es"
  by (induction es arbitrary: st) (simp_all add: gw_step_def)

text \<open>The signals a run of recorders makes, as the store dates and numbers them.\<close>

fun numbered :: "nat \<Rightarrow> (string \<times> new_gate_wanted) list \<Rightarrow> gate_wanted list" where
  "numbered n [] = []"
| "numbered n (e # es) = dated (Suc n) (fst e) (snd e) # numbered (Suc n) es"

lemma length_numbered [simp]: "length (numbered n es) = length es"
  by (induction es arbitrary: n) auto

lemma numbered_append: "numbered n (es @ fs) = numbered n es @ numbered (n + length es) fs"
  by (induction es arbitrary: n) auto

lemma numbered_above: "s \<in> set (numbered n es) \<Longrightarrow> n < gw_seq s"
  by (induction es arbitrary: n) (fastforce simp: dated_def)+

lemma gw_run_kept:
  assumes "length (sig_kept st) \<le> MAX_SIGNALS"
  shows "sig_kept (foldl gw_step st es) =
    drop (length (sig_kept st) + length es - MAX_SIGNALS) (sig_kept st @ numbered (sig_last_seq st) es)"
proof (induction es rule: rev_induct)
  case Nil
  from assms show ?case by simp
next
  case (snoc e es)
  let ?all = "sig_kept st @ numbered (sig_last_seq st) es"
  let ?k = "length (sig_kept st) + length es - MAX_SIGNALS"
  let ?x = "dated (Suc (sig_last_seq st + length es)) (fst e) (snd e)"
  have "sig_kept (foldl gw_step st (es @ [e])) = drop (Suc (length ?all - ?k) - MAX_SIGNALS) (drop ?k ?all @ [?x])"
    by (simp only: foldl_append foldl.simps gw_step_def [of "foldl gw_step st es"] gw_record_kept
        snoc.IH gw_run_last_seq length_drop)
  also have "drop ?k ?all @ [?x] = drop ?k (?all @ [?x])" by simp
  also have "drop (Suc (length ?all - ?k) - MAX_SIGNALS) (drop ?k (?all @ [?x])) =
      drop (Suc (length ?all) - MAX_SIGNALS) (?all @ [?x])"
    by (simp only: drop_drop) (rule arg_cong [of _ _ "\<lambda>n. drop n (?all @ [?x])"], simp)
  finally show ?case by (simp only: numbered_append append_assoc) simp
qed

lemma kept_seq_le:
  assumes "gw_inv st" "s \<in> set (sig_kept st)"
  shows "gw_seq s \<le> sig_last_seq st"
proof -
  have "gw_seq s \<in> set (map gw_seq (sig_kept st))" using assms(2) by simp
  with assms(1) show ?thesis by (auto simp: gw_inv_def)
qed

lemma since_drop:
  assumes "gw_inv st" "length es \<le> MAX_SIGNALS"
  shows "snd (gw_since (foldl gw_step st es) (sig_last_seq st)) = numbered (sig_last_seq st) es"
proof -
  have len: "length (sig_kept st) \<le> MAX_SIGNALS" using assms(1) by (simp add: gw_inv_def)
  let ?k = "length (sig_kept st) + length es - MAX_SIGNALS"
  have k: "?k \<le> length (sig_kept st)" using assms(2) by simp
  have "filter (\<lambda>s. sig_last_seq st < gw_seq s) (drop ?k (sig_kept st)) = []"
    using kept_seq_le [OF assms(1)] by (auto simp: filter_empty_conv not_less dest!: in_set_dropD)
  moreover have "filter (\<lambda>s. sig_last_seq st < gw_seq s) (numbered (sig_last_seq st) es) =
      numbered (sig_last_seq st) es"
    by (auto intro!: filter_True numbered_above)
  ultimately show ?thesis using k by (simp add: gw_since_def gw_run_kept [OF len])
qed

text \<open>
  C20. A reader that asks for more than the last number it was given gets every signal recorded
  since, each once and in the order they were recorded, as long as at most \<open>MAX_SIGNALS\<close> were; and
  the number it is given moves by exactly that many, so no signal is ever numbered twice.
\<close>

theorem reader_catches_up:
  assumes "length news \<le> MAX_SIGNALS"
  shows "let st = foldl gw_step signals_default olds; st' = foldl gw_step st news
         in gw_since st' (gw_last_seq st) = (gw_last_seq st + length news, numbered (gw_last_seq st) news)"
proof -
  have "gw_inv (foldl gw_step signals_default olds)"
    by (rule wanted.run_inv) (rule gw_inv_default)
  from since_drop [OF this assms] show ?thesis
    by (simp add: Let_def gw_last_seq_def prod_eq_iff gw_run_last_seq) (simp add: gw_since_def gw_run_last_seq)
qed

text \<open>
  The numbers never fall and the store never holds more than \<open>MAX_SIGNALS\<close> signals, whatever is
  recorded; a reader whose number is ahead of the store's, as after a restart, is given nothing and
  the smaller number.
\<close>

lemma signals_bounded_and_rising:
  "let st = foldl gw_step signals_default olds; st' = foldl gw_step st news
   in gw_last_seq st \<le> gw_last_seq st' \<and> length (sig_kept st') \<le> MAX_SIGNALS \<and>
      gw_since st (gw_last_seq st + ahead) = (gw_last_seq st, [])"
proof -
  let ?st = "foldl gw_step signals_default olds"
  have inv: "gw_inv ?st" by (rule wanted.run_inv) (rule gw_inv_default)
  have "gw_inv (foldl gw_step ?st news)" using inv by (rule wanted.run_inv)
  moreover have "sig_last_seq ?st \<le> sig_last_seq (foldl gw_step ?st news)"
    using inv by (rule wanted.run_rises)
  ultimately show ?thesis
    using kept_seq_le [OF inv]
    by (fastforce simp: Let_def gw_last_seq_def gw_since_def gw_inv_def filter_empty_conv)
qed

section \<open>The long poll misses nothing it waits for\<close>

text \<open>
  What an answer must hold: exactly the readable signals between the number asked for and the
  number answered, of those still kept.
\<close>

definition covers :: "(string \<Rightarrow> bool) \<Rightarrow> poll \<Rightarrow> nat \<Rightarrow> gate_wanted list \<Rightarrow> bool" where
  "covers may p seq vis \<longleftrightarrow> seq \<le> sig_last_seq (poll_store p) \<and>
     (\<forall>s \<in> set vis. may (gw_repo s) \<and> poll_after p < gw_seq s \<and> gw_seq s \<le> seq) \<and>
     (\<forall>s \<in> set (sig_kept (poll_store p)).
        may (gw_repo s) \<and> poll_after p < gw_seq s \<and> gw_seq s \<le> seq \<longrightarrow> s \<in> set vis)"

definition quiet :: "(string \<Rightarrow> bool) \<Rightarrow> poll \<Rightarrow> bool" where
  "quiet may p \<longleftrightarrow> visible_since may (poll_store p) (poll_after p) = [] \<and>
     poll_after p \<le> sig_last_seq (poll_store p)"

definition poll_inv :: "(string \<Rightarrow> bool) \<Rightarrow> poll \<Rightarrow> bool" where
  "poll_inv may p \<longleftrightarrow> gw_inv (poll_store p) \<and>
     (case poll_phase p of
        Deciding b seq vis \<Rightarrow> covers may p seq vis \<and>
          (\<not> b \<longrightarrow> seq = sig_last_seq (poll_store p) \<and> vis = visible_since may (poll_store p) (poll_after p))
      | Waiting b \<Rightarrow> b \<or> quiet may p
      | Answered seq vis \<Rightarrow> vis \<noteq> [] \<longrightarrow> covers may p seq vis
      | _ \<Rightarrow> True)"

lemma kept_after_record:
  "s \<in> set (sig_kept (gw_record st at new)) \<Longrightarrow>
   s \<in> set (sig_kept st) \<or> gw_seq s = Suc (sig_last_seq st)"
  by (auto simp: gw_record_kept dated_def dest: in_set_dropD)

lemma covers_signal:
  assumes "covers may p seq vis"
  shows "covers may (p\<lparr>poll_store := gw_record (poll_store p) at new\<rparr>) seq vis"
  using assms by (fastforce simp: covers_def dest: kept_after_record)

lemma covers_phase [simp]:
  "covers may (p\<lparr>poll_phase := ph\<rparr>) seq vis = covers may p seq vis"
  "covers may (p\<lparr>poll_now := t\<rparr>) seq vis = covers may p seq vis"
  "quiet may (p\<lparr>poll_phase := ph\<rparr>) = quiet may p"
  "quiet may (p\<lparr>poll_now := t\<rparr>) = quiet may p"
  by (simp_all add: covers_def quiet_def)

lemma covers_read:
  "gw_inv (poll_store p) \<Longrightarrow>
   covers may p (sig_last_seq (poll_store p)) (visible_since may (poll_store p) (poll_after p))"
  by (auto simp: covers_def visible_since_def gw_since_def kept_seq_le)

lemma poll_step_inv:
  assumes "poll_step may p q" "poll_inv may p"
  shows "poll_inv may q"
  using assms
proof (cases rule: poll_step.cases)
  case (signal at new)
  with assms(2) show ?thesis
    by (cases "poll_phase p") (auto simp: poll_inv_def gw_record_inv covers_signal)
next
  case (read b)
  with assms(2) show ?thesis by (auto simp: poll_inv_def covers_read gw_since_def)
next
  case (hold b seq vis)
  with assms(2) show ?thesis by (auto simp: poll_inv_def quiet_def)
qed (auto simp: poll_inv_def split: poll_phase.splits)

lemma poll_run_inv: "poll_run may p q \<Longrightarrow> poll_inv may p \<Longrightarrow> poll_inv may q"
  by (induction rule: poll_run.induct) (auto intro: poll_step_inv)

lemma poll_start_inv: "gw_inv st \<Longrightarrow> poll_inv may (poll_start st now query)"
  by (simp add: poll_inv_def poll_start_def)


section \<open>Witnesses\<close>

definition ex_new :: new_gate_wanted where
  "ex_new = pull_signal SOURCE_QUEUE ''a/b'' 7 ''c0ffee''"

definition ex_query :: gate_wanted_query where
  "ex_query = \<lparr>q_after = None, q_wait = Some 5\<rparr>"

theorem reader_catches_up_witness:
  "gw_since (gw_record signals_default ''t'' ex_new) 0 = (1, [dated 1 ''t'' ex_new])"
  using reader_catches_up [of "[(''t'', ex_new)]" "[]"]
  by (simp add: Let_def gw_last_seq_def MAX_SIGNALS_def signals_default_def gw_step_def)

lemma ex_holds:
  "poll_run may (poll_start signals_default 0 ex_query)
     ((poll_start signals_default 0 ex_query)\<lparr>poll_phase := Waiting False\<rparr>)"
proof -
  let ?p = "poll_start signals_default 0 ex_query"
  have a: "poll_step may ?p (?p\<lparr>poll_phase := Registered False\<rparr>)"
    by (rule poll_step.register) (simp add: poll_start_def)
  have "poll_step may (?p\<lparr>poll_phase := Registered False\<rparr>)
      (?p\<lparr>poll_phase := Registered False\<rparr>\<lparr>poll_phase := Deciding False 0 []\<rparr>)"
    using poll_step.read [of "?p\<lparr>poll_phase := Registered False\<rparr>" False may]
    by (simp add: poll_start_def visible_since_def gw_since_def signals_default_def ex_query_def)
  then have b: "poll_step may (?p\<lparr>poll_phase := Registered False\<rparr>) (?p\<lparr>poll_phase := Deciding False 0 []\<rparr>)"
    by simp
  have "poll_step may (?p\<lparr>poll_phase := Deciding False 0 []\<rparr>)
      (?p\<lparr>poll_phase := Deciding False 0 []\<rparr>\<lparr>poll_phase := Waiting False\<rparr>)"
    by (rule poll_step.hold) (auto simp: poll_start_def ex_query_def MAX_WAIT_def)
  then have c: "poll_step may (?p\<lparr>poll_phase := Deciding False 0 []\<rparr>) (?p\<lparr>poll_phase := Waiting False\<rparr>)"
    by simp
  show ?thesis
    using poll_run.step [OF poll_run.step [OF poll_run.step [OF poll_run.start a] b] c] .
qed


text \<open>
  The answer after a timeout is the one place the number can run ahead of the signals: it reads the
  number again, and a signal recorded after the wait gave up and before that read is counted by the
  answer and not carried by it. The reader then asks for more than its number and is not told of it.
\<close>

lemma timeout_answer_can_skip_a_signal:
  "\<exists>p. poll_run (\<lambda>_. True) (poll_start signals_default 0 ex_query) p \<and>
     poll_phase p = Answered 1 [] \<and>
     sig_kept (poll_store p) = [dated 1 ''t'' ex_new] \<and>
     snd (gw_since (poll_store p) 1) = []"
proof -
  let ?w = "(poll_start signals_default 0 ex_query)\<lparr>poll_phase := Waiting False\<rparr>"
  let ?w5 = "?w\<lparr>poll_now := 5\<rparr>" let ?x = "?w5\<lparr>poll_phase := TimedOut\<rparr>"
  let ?y = "?x\<lparr>poll_store := gw_record (poll_store ?x) ''t'' ex_new, poll_phase := notified (poll_phase ?x)\<rparr>"
  let ?z = "?y\<lparr>poll_phase := Answered (gw_last_seq (poll_store ?y)) []\<rparr>"
  have a: "poll_step (\<lambda>_. True) ?w ?w5" by (rule poll_step.clock) (simp add: poll_start_def)
  have b: "poll_step (\<lambda>_. True) ?w5 ?x"
    by (rule poll_step.expired) (simp_all add: poll_start_def ex_query_def MAX_WAIT_def)
  have c: "poll_step (\<lambda>_. True) ?x ?y" by (rule poll_step.signal)
  have d: "poll_step (\<lambda>_. True) ?y ?z" by (rule poll_step.timed_out) simp
  have "poll_run (\<lambda>_. True) (poll_start signals_default 0 ex_query) ?z"
    by (rule poll_run.step [OF poll_run.step [OF poll_run.step [OF poll_run.step [OF ex_holds a] b] c] d])
  moreover have "poll_phase ?z = Answered 1 []" "sig_kept (poll_store ?z) = [dated 1 ''t'' ex_new]"
    "snd (gw_since (poll_store ?z) 1) = []"
    by (simp_all add: poll_start_def gw_last_seq_def gw_record_kept gw_since_def signals_default_def
        MAX_SIGNALS_def dated_def)
  ultimately show ?thesis by blast
qed

end
