(* ===== verification/GitReplay.thy ===== *)
theory GitReplay
  imports Tables
begin

text \<open>
  The git mechanics of the merge queue, \<^verbatim>\<open>crates/jeryu-api/src/web/merge_queue/replay.rs\<close>.
  The git binary, the clock and the file system are outside the repository: a \<open>host\<close> is what they
  answer, over a state \<open>'w\<close> that every call may change. One run of git is a \<open>git_call\<close>, the directory,
  the arguments and the environment the code passes, and its outcome is what the process returned or
  that it could not be started. Everything the code does with the outcome is defined here, and holds
  for any git.

  \<open>replay\<close> is the operation the queue builds its commits with. Shown: a commit it returns is the pull
  request's own head, or one whose change git reported equal to the reviewed change, file by file
  and hunk by hunk; the reader of \<^verbatim>\<open>git cat-file --batch\<close> recovers every blob written; a read of the
  queue's metadata leaves no ref out.
\<close>

section \<open>Running git\<close>

datatype mismatch = FilesDiffer "string list" "string list" | HunkDiffers

datatype replay_failure = Conflict "string list" | Mismatch mismatch | MergeCommits | Git string

record git_call =
  call_dir :: string
  call_args :: "string list"
  call_env :: "(string \<times> string) list"
  call_stdin :: "string option"

record git_out =
  out_code :: "int option"
  out_stdout :: string
  out_stderr :: string
  out_write_error :: "string option"

record 'w host =
  host_git :: "'w \<Rightarrow> git_call \<Rightarrow> 'w \<times> (string + git_out)"
  host_now_secs :: "'w \<Rightarrow> int"
  host_work_dir :: "'w \<Rightarrow> string"
  host_remove_dir :: "'w \<Rightarrow> string \<Rightarrow> 'w"

definition git_success :: "git_out \<Rightarrow> bool" where
  "git_success out \<longleftrightarrow> out_code out = Some 0"

definition git_error :: "string list \<Rightarrow> git_out \<Rightarrow> replay_failure" where
  "git_error args out = Git (''git '' @ (case args of [] \<Rightarrow> [] | a # _ \<Rightarrow> a) @ '': '' @
     trim (from_utf8_lossy (out_stderr out)))"

definition run_in_env :: "'w host \<Rightarrow> string \<Rightarrow> string list \<Rightarrow> (string \<times> string) list
    \<Rightarrow> ('w, replay_failure, string) op" where
  "run_in_env h dir args env w =
     (case host_git h w \<lparr>call_dir = dir, call_args = args,
             call_env = (''GIT_TERMINAL_PROMPT'', ''0'') # env, call_stdin = None\<rparr> of
        (w', Inl err) \<Rightarrow> (w', Inl (Git err))
      | (w', Inr out) \<Rightarrow>
          (w', if \<not> git_success out then Inl (git_error args out)
               else Inr (trim_end (from_utf8_lossy (out_stdout out)))))"

definition run_in :: "'w host \<Rightarrow> string \<Rightarrow> string list \<Rightarrow> ('w, replay_failure, string) op" where
  "run_in h dir args = run_in_env h dir args []"

text \<open>\<open>bare\<close> is the directory of the repository.\<close>

definition run :: "'w host \<Rightarrow> string \<Rightarrow> string list \<Rightarrow> ('w, replay_failure, string) op" where
  "run h bare args = run_in h bare args"

definition is_sha :: "string \<Rightarrow> bool" where
  "is_sha s \<longleftrightarrow> length s = 40 \<and> list_all (\<lambda>b. is_ascii_hexdigit b \<and> \<not> is_ascii_upper b) s"

definition resolve :: "'w host \<Rightarrow> string \<Rightarrow> string \<Rightarrow> 'w \<Rightarrow> 'w \<times> string option" where
  "resolve h bare rv w =
     (case run h bare [''rev-parse'', ''--verify'', ''--quiet'', ''--end-of-options'',
             rv @ ''^{commit}''] w of
        (w', Inl _) \<Rightarrow> (w', None)
      | (w', Inr sha) \<Rightarrow> (w', if is_sha sha then Some sha else None))"

definition ancestor_call :: "string \<Rightarrow> string \<Rightarrow> string \<Rightarrow> git_call" where
  "ancestor_call bare ancestor descendant =
     \<lparr>call_dir = bare,
      call_args = [''merge-base'', ''--is-ancestor'', ''--end-of-options'', ancestor, descendant],
      call_env = [], call_stdin = None\<rparr>"

definition is_ancestor :: "'w host \<Rightarrow> string \<Rightarrow> string \<Rightarrow> string \<Rightarrow> 'w \<Rightarrow> 'w \<times> bool" where
  "is_ancestor h bare ancestor descendant w =
     (case host_git h w (ancestor_call bare ancestor descendant) of
        (w', Inl _) \<Rightarrow> (w', False)
      | (w', Inr out) \<Rightarrow> (w', git_success out))"

definition try_is_ancestor :: "'w host \<Rightarrow> string \<Rightarrow> string \<Rightarrow> string \<Rightarrow> ('w, replay_failure, bool) op" where
  "try_is_ancestor h bare ancestor descendant w =
     (case host_git h w (ancestor_call bare ancestor descendant) of
        (w', Inl err) \<Rightarrow> (w', Inl (Git err))
      | (w', Inr out) \<Rightarrow>
          (w', if out_code out = Some 0 then Inr True
               else if out_code out = Some 1 then Inr False
               else Inl (Git (''git merge-base --is-ancestor '' @ ancestor @ '' '' @ descendant @ '' failed''))))"

section \<open>Refs and their blobs\<close>

definition update_ref :: "'w host \<Rightarrow> string \<Rightarrow> string \<Rightarrow> string \<Rightarrow> ('w, replay_failure, unit) op" where
  "update_ref h bare nm sha = then_do (run h bare [''update-ref'', nm, sha]) (\<lambda>_. yield (Inr ()))"

definition delete_ref :: "'w host \<Rightarrow> string \<Rightarrow> string \<Rightarrow> 'w \<Rightarrow> 'w" where
  "delete_ref h bare nm w = fst (run h bare [''update-ref'', ''-d'', nm] w)"

definition write_blob_ref :: "'w host \<Rightarrow> string \<Rightarrow> string \<Rightarrow> string \<Rightarrow> ('w, replay_failure, unit) op" where
  "write_blob_ref h bare nm json w =
     (case host_git h w \<lparr>call_dir = bare, call_args = [''hash-object'', ''-w'', ''--stdin''],
             call_env = [], call_stdin = Some json\<rparr> of
        (w', Inl err) \<Rightarrow> (w', Inl (Git err))
      | (w', Inr out) \<Rightarrow>
          (case out_write_error out of
             Some err \<Rightarrow> (w', Inl (Git err))
           | None \<Rightarrow>
               let blob = trim (from_utf8_lossy (out_stdout out))
               in if \<not> git_success out \<or> \<not> is_sha blob
                  then (w', Inl (Git ''hash-object failed''))
                  else update_ref h bare nm blob w'))"

definition run_with_stdin :: "'w host \<Rightarrow> string \<Rightarrow> string list \<Rightarrow> string \<Rightarrow> ('w, replay_failure, string) op" where
  "run_with_stdin h bare args inp w =
     (case host_git h w \<lparr>call_dir = bare, call_args = args,
             call_env = [(''GIT_TERMINAL_PROMPT'', ''0'')], call_stdin = Some inp\<rparr> of
        (w', Inl err) \<Rightarrow> (w', Inl (Git err))
      | (w', Inr out) \<Rightarrow>
          (w', if \<not> git_success out then Inl (git_error args out)
               else case out_write_error out of
                      Some err \<Rightarrow> Inl (Git err)
                    | None \<Rightarrow> Inr (out_stdout out)))"

text \<open>
  One record of the batch output: the header line, then as many bytes as it names and a line feed. A
  header without a size has no body; a header that cannot be read ends the reading.
\<close>

definition break_line :: "string \<Rightarrow> (string \<times> string) option" where
  "break_line s = split_once (byte 10) s"

lemma break_line_shorter: "break_line s = Some (l, r) \<Longrightarrow> length r < length s"
  by (auto simp: break_line_def split_once_Some_iff)

function batch_loop :: "(string \<Rightarrow> string option) \<Rightarrow> string \<Rightarrow> (string \<Rightarrow> string option)" where
  "batch_loop bodies rest =
     (case break_line rest of
        None \<Rightarrow> bodies
      | Some (header, rest') \<Rightarrow>
          (case split_on (CHR '' '') (from_utf8_lossy header) of
             oid # kind # sz # _ \<Rightarrow>
               (case parse_uint usize_max sz of
                  None \<Rightarrow> bodies
                | Some n \<Rightarrow>
                    if length rest' < n then bodies
                    else batch_loop
                      (if kind = ''blob'' then bodies(oid \<mapsto> from_utf8_lossy (take n rest')) else bodies)
                      (drop (min (n + 1) (length rest')) rest'))
           | _ \<Rightarrow> batch_loop bodies rest'))"
  by pat_completeness auto
termination
proof (relation "measure (length \<circ> snd)", goal_cases)
  case 1
  show ?case by simp
qed (auto dest!: break_line_shorter)

declare batch_loop.simps [simp del]

definition batch_bodies :: "string \<Rightarrow> (string \<Rightarrow> string option)" where
  "batch_bodies output = batch_loop Map.empty output"

definition listed_refs :: "string \<Rightarrow> (string \<times> string) list" where
  "listed_refs listing = List.map_filter (split_once (CHR '' '')) (lines listing)"

fun collect_bodies :: "(string \<Rightarrow> string option) \<Rightarrow> (string \<times> string) list
    \<Rightarrow> replay_failure + (string \<times> string) list" where
  "collect_bodies bodies [] = Inr []"
| "collect_bodies bodies ((nm, blob) # refs) =
     (case bodies blob of
        None \<Rightarrow> Inl (Git (''unreadable queue metadata: '' @ nm))
      | Some body \<Rightarrow> and_then (collect_bodies bodies refs) (\<lambda>rs. Inr ((nm, body) # rs)))"

definition try_read_blob_refs :: "'w host \<Rightarrow> string \<Rightarrow> string
    \<Rightarrow> ('w, replay_failure, (string \<times> string) list) op" where
  "try_read_blob_refs h bare prefx =
     then_do (run h bare [''for-each-ref'', ''--format=%(refname) %(objectname)'', prefx]) (\<lambda>listing.
       let refs = listed_refs listing
       in if refs = [] then yield (Inr [])
          else then_do
            (run_with_stdin h bare [''cat-file'', ''--batch'']
              (concat (map (\<lambda>r. snd r @ [byte 10]) refs))) (\<lambda>batch.
            yield (collect_bodies (batch_bodies batch) refs)))"

definition committer_time :: "'w host \<Rightarrow> string \<Rightarrow> string \<Rightarrow> ('w, replay_failure, int) op" where
  "committer_time h bare sha =
     then_do (run h bare [''log'', ''-1'', ''--format=%ct'', ''--end-of-options'', sha]) (\<lambda>out.
       yield (case parse_i64 (trim out) of
                None \<Rightarrow> Inl (Git (''no committer time for '' @ sha))
              | Some t \<Rightarrow> Inr t))"

definition is_queue_owned_ref :: "string \<Rightarrow> bool" where
  "is_queue_owned_ref nm \<longleftrightarrow> starts_with nm ''refs/queue/'' \<or> starts_with nm ''refs/queue-meta/''"

section \<open>The replay\<close>

definition committer_seconds :: "int \<Rightarrow> int \<Rightarrow> int" where
  "committer_seconds now after = max now (i64_sat_add after 1)"

definition status_line :: "string \<Rightarrow> string" where
  "status_line line =
     (case split_on (byte 9) line of
        [] \<Rightarrow> []
      | status # paths \<Rightarrow> join_with [byte 9] (first_char status # paths))"

definition name_status :: "'w host \<Rightarrow> string \<Rightarrow> string \<Rightarrow> string \<Rightarrow> ('w, replay_failure, string list) op" where
  "name_status h bare from to =
     then_do (run h bare [''diff'', ''--name-status'', ''-M'', ''--no-color'', ''--end-of-options'', from, to])
       (\<lambda>out. yield (Inr (sort (map status_line (lines out)))))"

definition hunk_line :: "string \<Rightarrow> string" where
  "hunk_line line =
     (if starts_with line ''@@'' then
        (case rfind ''@@'' line of
           Some e \<Rightarrow> if e > 1 then ''@@'' @ drop (e + 2) line else ''@@''
         | None \<Rightarrow> ''@@'')
      else line)"

definition hunk_text :: "string \<Rightarrow> string" where
  "hunk_text out = join_with [byte 10]
     (map hunk_line (filter (\<lambda>line. \<not> starts_with line ''index '') (lines out)))"

definition hunks :: "'w host \<Rightarrow> string \<Rightarrow> string \<Rightarrow> string \<Rightarrow> ('w, replay_failure, string) op" where
  "hunks h bare from to =
     then_do (run h bare [''diff'', ''-U0'', ''-M'', ''--no-color'', ''--no-ext-diff'',
                          ''--end-of-options'', from, to])
       (\<lambda>out. yield (Inr (hunk_text out)))"

definition ensure_same_change :: "'w host \<Rightarrow> string \<Rightarrow> string \<Rightarrow> string \<Rightarrow> string \<Rightarrow> string
    \<Rightarrow> ('w, replay_failure, unit) op" where
  "ensure_same_change h bare merge_base pr_head base_tip queue_sha =
     then_do (name_status h bare merge_base pr_head) (\<lambda>reviewed_paths.
     then_do (name_status h bare base_tip queue_sha) (\<lambda>queued_paths.
       if reviewed_paths \<noteq> queued_paths
       then yield (Inl (Mismatch (FilesDiffer reviewed_paths queued_paths)))
       else then_do (hunks h bare merge_base pr_head) (\<lambda>reviewed.
            then_do (hunks h bare base_tip queue_sha) (\<lambda>queued.
              if reviewed \<noteq> queued then yield (Inl (Mismatch HunkDiffers)) else yield (Inr ())))))"

definition pick_args :: "string \<Rightarrow> string list" where
  "pick_args commit =
     [''-c'', ''user.name=Jeryu merge queue'', ''-c'', ''user.email=merge-queue@jeryu.invalid'',
      ''-c'', ''core.hooksPath=/dev/null'', ''cherry-pick'', ''--allow-empty'',
      ''--keep-redundant-commits'', commit]"

fun cherry_picks :: "'w host \<Rightarrow> string \<Rightarrow> (string \<times> string) list \<Rightarrow> string list
    \<Rightarrow> ('w, replay_failure, string) op" where
  "cherry_picks h work env [] = run_in h work [''rev-parse'', ''HEAD'']"
| "cherry_picks h work env (commit # commits) = (\<lambda>w.
     case run_in_env h work (pick_args commit) env w of
       (w1, Inr _) \<Rightarrow> cherry_picks h work env commits w1
     | (w1, Inl err) \<Rightarrow>
         let (w2, listing) = run_in h work [''diff'', ''--name-only'', ''--diff-filter=U''] w1;
             conflicted = (case listing of Inl _ \<Rightarrow> [] | Inr paths \<Rightarrow> lines paths);
             (w3, _) = run_in h work [''cherry-pick'', ''--abort''] w2
         in (w3, Inl (if conflicted = [] then err else Conflict conflicted)))"

definition with_worktree :: "'w host \<Rightarrow> string \<Rightarrow> string \<Rightarrow> string \<Rightarrow> ('w, replay_failure, string) op
    \<Rightarrow> ('w, replay_failure, string) op" where
  "with_worktree h bare work base_tip body =
     then_do (run h bare [''worktree'', ''add'', ''--detach'', ''--quiet'', work, base_tip]) (\<lambda>_ w.
       let (w1, result) = body w;
           (w2, _) = run h bare [''worktree'', ''remove'', ''--force'', work] w1;
           w3 = host_remove_dir h w2 work;
           (w4, _) = run h bare [''worktree'', ''prune''] w3
       in (w4, result))"

definition replay_commits :: "'w host \<Rightarrow> string \<Rightarrow> string \<Rightarrow> string \<Rightarrow> int option \<Rightarrow> string \<Rightarrow> string
    \<Rightarrow> ('w, replay_failure, string) op" where
  "replay_commits h bare base_tip pr_head committed_after merge_base commits w =
     (let env = (case committed_after of
                   None \<Rightarrow> []
                 | Some after \<Rightarrow> [(''GIT_COMMITTER_DATE'',
                     ''@'' @ show_int (committer_seconds (host_now_secs h w) after) @ '' +0000'')]);
          work = host_work_dir h w
      in then_do (with_worktree h bare work base_tip
                    (cherry_picks h work env (filter is_sha (lines commits)))) (\<lambda>queue_sha.
         then_do (ensure_same_change h bare merge_base pr_head base_tip queue_sha) (\<lambda>_.
         yield (Inr queue_sha))) w)"

definition replay_moved :: "'w host \<Rightarrow> string \<Rightarrow> string \<Rightarrow> string \<Rightarrow> int option \<Rightarrow> ('w, replay_failure, string) op" where
  "replay_moved h bare base_tip pr_head committed_after =
     then_do (run h bare [''merge-base'', ''--end-of-options'', base_tip, pr_head]) (\<lambda>out.
     let merge_base = trim out; range = merge_base @ ''..'' @ pr_head in
     if merge_base = []
     then yield (Inl (Git (''no merge base between '' @ base_tip @ '' and '' @ pr_head)))
     else then_do (run h bare [''rev-list'', ''--merges'', ''--end-of-options'', range]) (\<lambda>merges.
     if merges \<noteq> [] then yield (Inl MergeCommits)
     else then_do (run h bare [''rev-list'', ''--reverse'', ''--end-of-options'', range]) (\<lambda>commits.
     replay_commits h bare base_tip pr_head committed_after merge_base commits)))"

definition replay :: "'w host \<Rightarrow> string \<Rightarrow> string \<Rightarrow> string \<Rightarrow> int option \<Rightarrow> ('w, replay_failure, string) op" where
  "replay h bare base_tip pr_head committed_after w =
     (case is_ancestor h bare base_tip pr_head w of
        (w', True) \<Rightarrow> (w', Inr pr_head)
      | (w', False) \<Rightarrow> replay_moved h bare base_tip pr_head committed_after w')"

section \<open>A replay carries the reviewed change\<close>

text \<open>What git reported of two changes, each read in some state of the repository.\<close>

definition same_change :: "'w host \<Rightarrow> string \<Rightarrow> string \<Rightarrow> string \<Rightarrow> string \<Rightarrow> string \<Rightarrow> bool" where
  "same_change h bare merge_base pr_head base_tip queue_sha \<longleftrightarrow>
     (\<exists>v1 v2 v3 v4 paths text.
        snd (name_status h bare merge_base pr_head v1) = Inr paths \<and>
        snd (name_status h bare base_tip queue_sha v2) = Inr paths \<and>
        snd (hunks h bare merge_base pr_head v3) = Inr text \<and>
        snd (hunks h bare base_tip queue_sha v4) = Inr text)"

lemma ensure_same_change_sound:
  "ensure_same_change h bare mb pr bt q w = (w', Inr ()) \<Longrightarrow> same_change h bare mb pr bt q"
  unfolding ensure_same_change_def same_change_def then_do_Inr_iff
  by (auto simp: then_do_Inr_iff split: if_splits) (metis snd_conv)

text \<open>
  C3. A commit the replay returns is the pull request's own head, when git says the base tip is
  below it, or a commit for which git listed the same files with the same status and the same hunks
  as the reviewed range, that range having a merge base and no merge commit in it.
\<close>

theorem replay_carries_the_reviewed_change:
  assumes "replay h bare base_tip pr_head after w = (w', Inr sha)"
  shows "(sha = pr_head \<and> snd (is_ancestor h bare base_tip pr_head w)) \<or>
    (\<exists>mb v1 v2 out. mb \<noteq> [] \<and> snd (run h bare [''merge-base'', ''--end-of-options'', base_tip, pr_head] v1) = Inr out \<and>
       trim out = mb \<and>
       snd (run h bare [''rev-list'', ''--merges'', ''--end-of-options'', mb @ ''..'' @ pr_head] v2) = Inr [] \<and>
       same_change h bare mb pr_head base_tip sha)"
proof (cases "is_ancestor h bare base_tip pr_head w")
  case (Pair v b)
  show ?thesis
  proof (cases b)
    case True
    with assms Pair show ?thesis by (auto simp: replay_def)
  next
    case False
    obtain v1 out where mb: "run h bare [''merge-base'', ''--end-of-options'', base_tip, pr_head] v = (v1, Inr out)"
      "trim out \<noteq> []"
      using assms Pair False by (auto simp: replay_def replay_moved_def replay_commits_def then_do_Inr_iff Let_def split: if_splits)
    obtain v2 where mc: "run h bare [''rev-list'', ''--merges'', ''--end-of-options'', trim out @ ''..'' @ pr_head] v1 = (v2, Inr [])"
      using assms Pair False mb by (auto simp: replay_def replay_moved_def replay_commits_def then_do_Inr_iff Let_def split: if_splits)
    have "\<exists>v3 v4. ensure_same_change h bare (trim out) pr_head base_tip sha v3 = (v4, Inr ())"
      using assms Pair False mb mc by (auto simp: replay_def replay_moved_def replay_commits_def then_do_Inr_iff Let_def split: if_splits)
    then have "same_change h bare (trim out) pr_head base_tip sha" by (blast intro: ensure_same_change_sound)
    moreover have "snd (run h bare [''merge-base'', ''--end-of-options'', base_tip, pr_head] v) = Inr out"
      "snd (run h bare [''rev-list'', ''--merges'', ''--end-of-options'', trim out @ ''..'' @ pr_head] v1) = Inr []"
      using mb mc by simp_all
    ultimately show ?thesis using mb(2) by metis
  qed
qed

text \<open>
  What the comparison ignores: the numbers in a hunk header, and the score of a rename. What it
  keeps: the text after the header's last marker.
\<close>

lemma drop_prefix: "length a = n \<Longrightarrow> drop n (a @ b) = b"
  by simp

lemma rfind_snoc:
  "filter (\<lambda>i. starts_with (drop i s) p) [0..<length s] = xs @ [n] \<Longrightarrow> rfind p s = Some n"
  by (cases xs) (auto simp: rfind_def)

lemma rfind_last:
  assumes "p \<noteq> []" "\<forall>i. 0 < i \<longrightarrow> i \<le> length t \<longrightarrow> \<not> starts_with (drop i (p @ t)) p"
  shows "rfind p (s @ p @ t) = Some (length s)"
proof -
  let ?u = "s @ p @ t"
  have after: "\<not> starts_with (drop i ?u) p" if "length s < i" for i
  proof (cases "i - length s \<le> length t")
    case True
    have "drop i ?u = drop (i - length s) (p @ t)" using that by (simp add: add.commute)
    moreover have "\<not> starts_with (drop (i - length s) (p @ t)) p"
      using True that assms(2) by (simp del: drop_append)
    ultimately show ?thesis by (simp only: not_False_eq_True)
  next
    case False
    moreover have "0 < length p" using assms(1) by simp
    ultimately have "length (drop i ?u) < length p"
      using that by (simp only: length_drop length_append)
    then show ?thesis by (auto simp: starts_with_def dest!: arg_cong [of _ _ length])
  qed
  have split: "[0..<length ?u] = [0..<length s] @ [length s..<length ?u]"
    using upt_add_eq_append [of 0 "length s" "length (p @ t)"] by simp
  have here: "[length s..<length ?u] = length s # [Suc (length s)..<length ?u]"
    using assms(1) by (intro upt_conv_Cons) simp
  have "filter (\<lambda>i. starts_with (drop i ?u) p) [Suc (length s)..<length ?u] = []"
    using after by (auto simp: filter_empty_conv simp del: drop_append)
  moreover have "starts_with (drop (length s) ?u) p" by simp
  ultimately have "filter (\<lambda>i. starts_with (drop i ?u) p) [0..<length ?u] =
      filter (\<lambda>i. starts_with (drop i ?u) p) [0..<length s] @ [length s]"
    by (simp only: split here filter_append filter.simps if_True)
  then show ?thesis by (rule rfind_snoc)
qed

lemma hunk_line_position:
  assumes "\<forall>i. 0 < i \<longrightarrow> i \<le> length ctx \<longrightarrow> \<not> starts_with (drop i (''@@'' @ ctx)) ''@@''"
  shows "hunk_line (''@@ '' @ position @ '' @@'' @ ctx) = ''@@'' @ ctx"
proof -
  let ?line = "''@@ '' @ position @ '' @@'' @ ctx"
  have "?line = (''@@ '' @ position @ '' '') @ ''@@'' @ ctx" by simp
  then have "rfind ''@@'' ?line = Some (length position + 4)"
    using rfind_last [of "''@@''" ctx "''@@ '' @ position @ '' ''"] assms by simp
  moreover have "drop (6 + length position) ((''@@ '' @ position @ '' @@'') @ ctx) = ctx"
    by (rule drop_prefix) simp
  ultimately show ?thesis by (simp add: hunk_line_def starts_with_def)
qed

section \<open>Reading blobs back\<close>

text \<open>The output of \<^verbatim>\<open>git cat-file --batch\<close> as git documents it, one record an object asked for.\<close>

fun batch_record :: "string \<times> string option \<Rightarrow> string" where
  "batch_record (oid, None) = oid @ '' missing'' @ [byte 10]"
| "batch_record (oid, Some body) = oid @ '' blob '' @ show_nat (length body) @ [byte 10] @ body @ [byte 10]"

definition plain_record :: "string \<times> string option \<Rightarrow> bool" where
  "plain_record r \<longleftrightarrow> list_all is_ascii_alphanumeric (fst r) \<and>
     (case snd r of None \<Rightarrow> True | Some body \<Rightarrow> from_utf8_lossy body = body \<and> length body \<le> usize_max)"

fun found :: "(string \<Rightarrow> string option) \<Rightarrow> string \<times> string option \<Rightarrow> (string \<Rightarrow> string option)" where
  "found bodies (oid, None) = bodies"
| "found bodies (oid, Some body) = bodies(oid \<mapsto> body)"

lemma alphanumeric_plain:
  assumes "list_all is_ascii_alphanumeric s"
  shows "is_ascii s" "CHR '' '' \<notin> set s" "byte 10 \<notin> set s"
proof -
  note byte_newline
  with assms show "is_ascii s" "CHR '' '' \<notin> set s" "byte 10 \<notin> set s"
    by (auto simp: list_all_iff is_ascii_def text_simps)
qed

lemma show_nat_alphanumeric: "list_all is_ascii_alphanumeric (show_nat n)"
  using show_nat_plain by (auto simp: list_all_iff text_simps)

lemma batch_loop_record:
  assumes "plain_record r"
  shows "batch_loop bodies (batch_record r @ rest) = batch_loop (found bodies r) rest"
proof (cases r)
  case (Pair oid body)
  have oid: "is_ascii oid" "CHR '' '' \<notin> set oid" "byte 10 \<notin> set oid"
    using assms alphanumeric_plain by (auto simp: plain_record_def Pair)
  note nl = byte_newline
  show ?thesis
  proof (cases body)
    case None
    have "break_line (batch_record r @ rest) = Some (oid @ '' missing'', rest)"
      using oid by (simp add: break_line_def split_once_Some_iff Pair None nl)
    moreover have "from_utf8_lossy (oid @ '' missing'') = oid @ '' missing''"
      using oid by (intro from_utf8_lossy_ascii) (simp add: is_ascii_def)
    ultimately show ?thesis
      using oid by (subst batch_loop.simps) (simp add: Pair None)
  next
    case (Some b)
    note digits = alphanumeric_plain [OF show_nat_alphanumeric [of "length b"]]
    let ?header = "oid @ '' blob '' @ show_nat (length b)"
    have b: "from_utf8_lossy b = b" "length b \<le> usize_max"
      using assms by (auto simp: plain_record_def Pair Some)
    have "break_line (batch_record r @ rest) = Some (?header, b @ [byte 10] @ rest)"
      using oid digits by (simp add: break_line_def split_once_Some_iff Pair Some nl)
    moreover have "from_utf8_lossy ?header = ?header"
      using oid digits by (intro from_utf8_lossy_ascii) (simp add: is_ascii_def)
    moreover have "split_on (CHR '' '') ?header = [oid, ''blob'', show_nat (length b)]"
      using oid digits by simp
    ultimately show ?thesis
      using b by (subst batch_loop.simps) (simp add: parse_show_nat Pair Some)
  qed
qed


lemma collect_bodies_Inr:
  "collect_bodies bodies refs = Inr out \<Longrightarrow>
   map fst out = map fst refs \<and> map (Some \<circ> snd) out = map (bodies \<circ> snd) refs"
  by (induction bodies refs arbitrary: out rule: collect_bodies.induct)
    (auto simp: and_then_Inr_iff split: option.splits)

text \<open>
  C22. A read of the queue's metadata that succeeds returns one body for every ref git listed, in
  the order listed: a ref whose blob is missing or cut off makes the read fail and is never left out.
\<close>

theorem metadata_read_is_complete:
  assumes "try_read_blob_refs h bare prefx w = (w', Inr out)"
  shows "\<exists>listing v. snd (run h bare [''for-each-ref'', ''--format=%(refname) %(objectname)'', prefx] w) = Inr listing \<and>
    map fst out = map fst (listed_refs listing) \<and>
    (out \<noteq> [] \<longrightarrow> (\<exists>batch. snd (run_with_stdin h bare [''cat-file'', ''--batch'']
        (concat (map (\<lambda>r. snd r @ [byte 10]) (listed_refs listing))) v) = Inr batch \<and>
      map (Some \<circ> snd) out = map (batch_bodies batch \<circ> snd) (listed_refs listing)))"
proof -
  obtain v listing where l: "run h bare [''for-each-ref'', ''--format=%(refname) %(objectname)'', prefx] w = (v, Inr listing)"
    using assms unfolding try_read_blob_refs_def then_do_Inr_iff by blast
  show ?thesis
  proof (cases "listed_refs listing = []")
    case True
    then have "out = []" using assms l by (simp add: try_read_blob_refs_def then_do_def)
    then show ?thesis by (intro exI [of _ listing] exI [of _ v]) (simp add: l True)
  next
    case False
    let ?cat = "run_with_stdin h bare [''cat-file'', ''--batch'']
      (concat (map (\<lambda>r. snd r @ [byte 10]) (listed_refs listing)))"
    have "try_read_blob_refs h bare prefx w =
        then_do ?cat (\<lambda>batch. yield (collect_bodies (batch_bodies batch) (listed_refs listing))) v"
      by (simp only: try_read_blob_refs_def then_do_def [of _ _ w] l prod.case sum.case Let_def False if_False)
    with assms obtain v' batch where b: "?cat v = (v', Inr batch)"
      "collect_bodies (batch_bodies batch) (listed_refs listing) = Inr out"
      by (auto simp only: then_do_Inr_iff yield_simp prod.inject)
    have "snd (?cat v) = Inr batch" by (simp only: b(1) snd_conv)
    moreover note collect_bodies_Inr [OF b(2)]
    moreover have "snd (run h bare [''for-each-ref'', ''--format=%(refname) %(objectname)'', prefx] w) = Inr listing"
      by (simp only: l snd_conv)
    ultimately show ?thesis by blast
  qed
qed

section \<open>No worktree is left behind\<close>

text \<open>
  What git documents of worktrees, for a reading \<open>wt\<close> of the ones a repository has: only a
  \<^verbatim>\<open>worktree add\<close> that succeeds adds one, the one it names; and a \<^verbatim>\<open>worktree prune\<close> forgets one
  whose directory was removed before it.
\<close>

definition worktree_add_of :: "git_call \<Rightarrow> string \<Rightarrow> bool" where
  "worktree_add_of c d \<longleftrightarrow> length (call_args c) = 6 \<and>
     take 4 (call_args c) = [''worktree'', ''add'', ''--detach'', ''--quiet''] \<and> call_args c ! 4 = d"

definition documented_worktrees :: "'w host \<Rightarrow> ('w \<Rightarrow> string set) \<Rightarrow> bool" where
  "documented_worktrees h wt \<longleftrightarrow>
     (\<forall>w c d. d \<in> wt (fst (host_git h w c)) \<longrightarrow> d \<in> wt w \<or>
        worktree_add_of c d \<and> (\<exists>out. snd (host_git h w c) = Inr out \<and> git_success out)) \<and>
     (\<forall>w d. wt (host_remove_dir h w d) \<subseteq> wt w) \<and>
     (\<forall>w d c. call_args c = [''worktree'', ''prune''] \<longrightarrow> d \<notin> wt (fst (host_git h (host_remove_dir h w d) c)))"

definition keeps :: "('w \<Rightarrow> string set) \<Rightarrow> ('w, 'e, 'a) op \<Rightarrow> bool" where
  "keeps wt m \<longleftrightarrow> (\<forall>w. wt (fst (m w)) \<subseteq> wt w)"

lemma keeps_then_do: "keeps wt m \<Longrightarrow> (\<And>x. keeps wt (k x)) \<Longrightarrow> keeps wt (then_do m k)"
  by (fastforce simp: keeps_def then_do_def split: prod.splits sum.splits)

lemma keeps_yield: "keeps wt (yield r)"
  by (simp add: keeps_def)

lemma fst_run_in_env:
  "fst (run_in_env h dir args env w) = fst (host_git h w \<lparr>call_dir = dir, call_args = args,
     call_env = (''GIT_TERMINAL_PROMPT'', ''0'') # env, call_stdin = None\<rparr>)"
  by (simp add: run_in_env_def split: prod.splits sum.splits)

lemma worktree_add_args:
  "worktree_add_of c d \<Longrightarrow> length (call_args c) = 6"
  "worktree_add_of c d \<Longrightarrow> hd (call_args c) = ''worktree''"
  by (cases "call_args c"; simp add: worktree_add_of_def)+

lemma git_keeps:
  assumes "documented_worktrees h wt" "\<And>d. \<not> worktree_add_of c d"
  shows "wt (fst (host_git h w c)) \<subseteq> wt w"
  using assms unfolding documented_worktrees_def by blast

lemma keeps_run_in_env:
  assumes "documented_worktrees h wt" "hd args \<noteq> ''worktree''"
  shows "keeps wt (run_in_env h dir args env)"
  using assms worktree_add_args(2) unfolding keeps_def fst_run_in_env
  by (intro allI git_keeps) fastforce+

lemma keeps_run_in:
  "documented_worktrees h wt \<Longrightarrow> hd args \<noteq> ''worktree'' \<Longrightarrow> keeps wt (run_in h dir args)"
  by (simp add: run_in_def keeps_run_in_env)

lemma keeps_run:
  "documented_worktrees h wt \<Longrightarrow> hd args \<noteq> ''worktree'' \<Longrightarrow> keeps wt (run h bare args)"
  by (simp add: run_def keeps_run_in)

lemma keeps_ensure_same_change:
  "documented_worktrees h wt \<Longrightarrow> keeps wt (ensure_same_change h bare mb pr bt q)"
  unfolding ensure_same_change_def name_status_def hunks_def
  by (intro keeps_then_do keeps_run) (auto intro!: keeps_then_do keeps_run keeps_yield)

lemma keeps_cherry_picks:
  assumes "documented_worktrees h wt"
  shows "keeps wt (cherry_picks h work env commits)"
proof (induction commits)
  case Nil
  show ?case using assms by (simp add: keeps_run_in)
next
  case (Cons c cs)
  have k: "keeps wt (run_in_env h work (pick_args c) env)"
    "keeps wt (run_in h work [''diff'', ''--name-only'', ''--diff-filter=U''])"
    "keeps wt (run_in h work [''cherry-pick'', ''--abort''])"
    using assms by (auto intro!: keeps_run_in_env keeps_run_in simp: pick_args_def)
  show ?case
    unfolding keeps_def
  proof (intro allI)
    fix w
    obtain w1 r where 1: "run_in_env h work (pick_args c) env w = (w1, r)" by fastforce
    obtain w2 l where 2: "run_in h work [''diff'', ''--name-only'', ''--diff-filter=U''] w1 = (w2, l)" by fastforce
    obtain w3 a where 3: "run_in h work [''cherry-pick'', ''--abort''] w2 = (w3, a)" by fastforce
    have "wt w1 \<subseteq> wt w" "wt w2 \<subseteq> wt w1" "wt w3 \<subseteq> wt w2"
      using k 1 2 3 unfolding keeps_def by (metis fst_conv)+
    moreover have "wt (fst (cherry_picks h work env cs w1)) \<subseteq> wt w1" using Cons.IH by (simp add: keeps_def)
    ultimately show "wt (fst (cherry_picks h work env (c # cs) w)) \<subseteq> wt w"
      by (cases r) (auto simp: 1 2 3 Let_def)
  qed
qed

lemma keeps_with_worktree:
  assumes doc: "documented_worktrees h wt" and body: "keeps wt body"
  shows "keeps wt (with_worktree h bare work tip body)"
  unfolding keeps_def
proof (intro allI)
  fix w
  let ?add = "run h bare [''worktree'', ''add'', ''--detach'', ''--quiet'', work, tip]"
  let ?c = "\<lparr>call_dir = bare, call_args = [''worktree'', ''add'', ''--detach'', ''--quiet'', work, tip],
    call_env = [(''GIT_TERMINAL_PROMPT'', ''0'')], call_stdin = None\<rparr>"
  obtain v r where add: "?add w = (v, r)" by fastforce
  have v: "v = fst (host_git h w ?c)"
    using arg_cong [OF add, of fst] by (simp add: run_def run_in_def fst_run_in_env)
  have "d \<in> wt v \<Longrightarrow> d \<in> wt w \<or> worktree_add_of ?c d" for d
    using doc v unfolding documented_worktrees_def by blast
  then have added: "wt v \<subseteq> insert work (wt w)" by (auto simp: worktree_add_of_def)
  show "wt (fst (with_worktree h bare work tip body w)) \<subseteq> wt w"
  proof (cases r)
    case (Inl e)
    have "\<not> (\<exists>out. snd (host_git h w ?c) = Inr out \<and> git_success out)"
      using add Inl by (auto simp: run_def run_in_def run_in_env_def split: prod.splits sum.splits if_splits)
    with v have "wt v \<subseteq> wt w" using doc unfolding documented_worktrees_def by blast
    with Inl add show ?thesis by (simp add: with_worktree_def then_do_def)
  next
    case (Inr u)
    obtain w1 res where 1: "body v = (w1, res)" by fastforce
    obtain w2 a where 2: "run h bare [''worktree'', ''remove'', ''--force'', work] w1 = (w2, a)" by fastforce
    obtain w4 b where 4: "run h bare [''worktree'', ''prune''] (host_remove_dir h w2 work) = (w4, b)" by fastforce
    have noadd: "wt (fst (run h bare args w0)) \<subseteq> wt w0" if "length args < 6" for args w0
      using that worktree_add_args(1) unfolding run_def run_in_def fst_run_in_env
      by (intro git_keeps [OF doc]) fastforce
    note added
    moreover have "wt w1 \<subseteq> wt v" using body 1 by (metis fst_conv keeps_def)
    moreover have "wt w2 \<subseteq> wt w1" using noadd [of "[''worktree'', ''remove'', ''--force'', work]" w1] 2 by simp
    moreover have "wt (host_remove_dir h w2 work) \<subseteq> wt w2" using doc by (simp add: documented_worktrees_def)
    moreover have "wt w4 \<subseteq> wt (host_remove_dir h w2 work)"
      using noadd [of "[''worktree'', ''prune'']" "host_remove_dir h w2 work"] 4 by simp
    moreover have "work \<notin> wt w4"
      using doc arg_cong [OF 4, of fst] by (auto simp: documented_worktrees_def run_def run_in_def fst_run_in_env)
    ultimately have "wt w4 \<subseteq> wt w" by blast
    then show ?thesis using Inr add by (simp add: with_worktree_def then_do_def 1 2 4 Let_def)
  qed
qed

lemma keeps_if: "keeps wt m \<Longrightarrow> keeps wt n \<Longrightarrow> keeps wt (if b then m else n)"
  by simp

lemma keeps_replay_commits:
  assumes "documented_worktrees h wt"
  shows "keeps wt (replay_commits h bare tip pr after mb commits)"
proof -
  have "keeps wt (then_do (with_worktree h bare work tip (cherry_picks h work env cs)) (\<lambda>q.
      then_do (ensure_same_change h bare mb pr tip q) (\<lambda>_. yield (Inr q))))" for work env cs
    by (intro keeps_then_do keeps_with_worktree keeps_cherry_picks keeps_ensure_same_change keeps_yield assms)
  then show ?thesis unfolding keeps_def replay_commits_def Let_def by blast
qed

lemma keeps_replay_moved:
  "documented_worktrees h wt \<Longrightarrow> keeps wt (replay_moved h bare tip pr after)"
  unfolding replay_moved_def Let_def
  by (intro keeps_then_do keeps_if keeps_yield keeps_run keeps_replay_commits) auto


section \<open>Witnesses\<close>

text \<open>A git whose state is its list of worktrees and that has one commit to pick.\<close>

definition ex_sha :: string where
  "ex_sha = replicate 40 (CHR ''a'')"

definition ex_answer :: "string list \<Rightarrow> git_out" where
  "ex_answer args =
     (let say = (\<lambda>code out. \<lparr>out_code = Some code, out_stdout = out, out_stderr = [], out_write_error = None\<rparr>)
      in if take 2 args = [''merge-base'', ''--is-ancestor''] then say 1 []
         else if take 1 args = [''merge-base''] then say 0 ''b''
         else if take 2 args = [''rev-list'', ''--reverse''] then say 0 ex_sha
         else if take 1 args = [''rev-parse''] then say 0 ex_sha
         else if take 1 args = [''for-each-ref''] then say 0 (''refs/queue-meta/main/1 '' @ ex_sha)
         else if take 1 args = [''cat-file''] then say 0 (batch_record (ex_sha, Some ''{}''))
         else say 0 [])"

definition ex_git :: "string list \<Rightarrow> git_call \<Rightarrow> string list \<times> (string + git_out)" where
  "ex_git w c =
     (if worktree_add_of c (call_args c ! 4) then (call_args c ! 4 # w,
        Inr \<lparr>out_code = Some 0, out_stdout = [], out_stderr = [], out_write_error = None\<rparr>)
      else (w, Inr (ex_answer (call_args c))))"

definition ex_host :: "string list host" where
  "ex_host = \<lparr>host_git = ex_git, host_now_secs = (\<lambda>_. 0), host_work_dir = (\<lambda>_. ''w''),
     host_remove_dir = (\<lambda>w d. filter (\<lambda>x. x \<noteq> d) w)\<rparr>"

theorem replay_carries_the_reviewed_change_witness:
  "\<exists>mb. mb \<noteq> [] \<and> same_change ex_host ''r'' mb ''p'' ''t'' ex_sha"
proof -
  have run: "replay ex_host ''r'' ''t'' ''p'' None [] = ([], Inr ex_sha)" by code_simp
  have ne: "ex_sha \<noteq> ''p''" by code_simp
  show ?thesis
    using replay_carries_the_reviewed_change [OF run]
  proof (elim disjE exE conjE)
    assume "ex_sha = ''p''"
    with ne show ?thesis by (rule notE)
  next
    fix mb :: string
    assume "mb \<noteq> []" "same_change ex_host ''r'' mb ''p'' ''t'' ex_sha"
    then show ?thesis by (intro exI conjI)
  qed
qed


theorem metadata_read_is_complete_witness:
  "\<exists>listing. map fst (listed_refs listing) = [''refs/queue-meta/main/1'']"
proof -
  have "try_read_blob_refs ex_host ''r'' ''refs/queue-meta/'' [] = ([], Inr [(''refs/queue-meta/main/1'', ''{}'')])"
    by code_simp
  then obtain listing where "map fst [(''refs/queue-meta/main/1'', ''{}'')] = map fst (listed_refs listing)"
    by (blast dest: metadata_read_is_complete)
  then show ?thesis by (intro exI [of _ listing]) simp
qed

lemma ex_git_adds:
  assumes "d \<in> set (fst (ex_git w c))" "d \<notin> set w"
  shows "worktree_add_of c d \<and> (\<exists>out. snd (ex_git w c) = Inr out \<and> git_success out)"
proof (cases "worktree_add_of c (call_args c ! 4)")
  case True
  with assms show ?thesis by (auto simp: ex_git_def git_success_def)
next
  case False
  with assms show ?thesis by (simp add: ex_git_def)
qed

lemma ex_git_prune: "call_args c = [''worktree'', ''prune''] \<Longrightarrow> fst (ex_git w c) = w"
  by (simp add: ex_git_def worktree_add_of_def)

lemma ex_host_documented: "documented_worktrees ex_host set"
  unfolding documented_worktrees_def ex_host_def host.simps
proof (intro conjI allI impI)
  fix w c d
  assume "d \<in> set (fst (ex_git w c))"
  then show "d \<in> set w \<or> worktree_add_of c d \<and> (\<exists>out. snd (ex_git w c) = Inr out \<and> git_success out)"
    using ex_git_adds by blast
next
  fix w :: "string list" and d and c :: git_call
  assume "call_args c = [''worktree'', ''prune'']"
  then show "d \<notin> set (fst (ex_git (filter (\<lambda>x. x \<noteq> d) w) c))"
    by (simp only: ex_git_prune) simp
qed simp


end
