(* ===== verification/GateVerdict.thy ===== *)
theory GateVerdict
  imports Tables
begin

text \<open>
  How the merge queue reads a gate, from \<^verbatim>\<open>crates/jeryu-api/src/web/merge_queue.rs\<close>: the verdict on
  a commit (\<^verbatim>\<open>gate_verdict\<close>), when its gate first reported (\<^verbatim>\<open>gate_started_at\<close>) and what a commit
  must pass to land everything below it (\<^verbatim>\<open>covering_contexts\<close>). Commit statuses and check runs are
  rows of the forge's core, an answer \<open>None\<close> its failure to read them. Of a check run's status and
  conclusion the code distinguishes one value each, and of its recency only the order.
\<close>

section \<open>Statuses and checks\<close>

datatype commit_status_state = StatusSuccess | StatusPending | StatusFailure | StatusError

record commit_status =
  st_context :: string
  st_state :: commit_status_state
  st_created_at :: time
  st_updated_at :: time

datatype check_run_status = Completed | OtherStatus

datatype check_conclusion = ConclusionSuccess | OtherConclusion

record check_run =
  chk_name :: string
  chk_status :: check_run_status
  chk_conclusion :: "check_conclusion option"
  chk_started_at :: time
  chk_recency_key :: int

definition context_verdict :: "commit_status list \<Rightarrow> check_run list \<Rightarrow> string \<Rightarrow> bool option" where
  "context_verdict statuses checks nm =
     (case max_by_key st_updated_at (filter (\<lambda>s. st_context s = nm) statuses) of
        Some s \<Rightarrow>
          (case st_state s of
             StatusSuccess \<Rightarrow> Some True
           | StatusPending \<Rightarrow> None
           | StatusFailure \<Rightarrow> Some False
           | StatusError \<Rightarrow> Some False)
      | None \<Rightarrow>
          (case max_by_key chk_recency_key (filter (\<lambda>c. chk_name c = nm) checks) of
             None \<Rightarrow> None
           | Some c \<Rightarrow>
               (case chk_status c of
                  Completed \<Rightarrow> Some (chk_conclusion c = Some ConclusionSuccess)
                | OtherStatus \<Rightarrow> None)))"

definition reported_contexts :: "commit_status list \<Rightarrow> check_run list \<Rightarrow> string list" where
  "reported_contexts statuses checks =
     remdups_adj (sort (map st_context statuses @ map chk_name checks))"

fun verdict_loop :: "(string \<Rightarrow> bool option) \<Rightarrow> bool \<Rightarrow> string list \<Rightarrow> bool option" where
  "verdict_loop verdict all_green [] = (if all_green then Some True else None)"
| "verdict_loop verdict all_green (nm # names) =
     (case verdict nm of
        Some False \<Rightarrow> Some False
      | Some True \<Rightarrow> verdict_loop verdict all_green names
      | None \<Rightarrow> verdict_loop verdict False names)"

definition gate_verdict :: "commit_status list option \<Rightarrow> check_run list option \<Rightarrow> string list \<Rightarrow> bool option" where
  "gate_verdict combined_status check_runs required =
     (case combined_status of
        None \<Rightarrow> None
      | Some statuses \<Rightarrow>
          (case check_runs of
             None \<Rightarrow> None
           | Some checks \<Rightarrow>
               let reported = reported_contexts statuses checks
               in if required = [] then
                    (if reported = [] then None
                     else verdict_loop (context_verdict statuses checks) True reported)
                  else verdict_loop (context_verdict statuses checks) True required))"

definition counts :: "string list \<Rightarrow> string \<Rightarrow> bool" where
  "counts required nm \<longleftrightarrow> required = [] \<or> nm \<in> set required"

definition gate_started_at :: "commit_status list option \<Rightarrow> check_run list option \<Rightarrow> string list \<Rightarrow> time \<Rightarrow> time option" where
  "gate_started_at combined_status check_runs required since =
     (case combined_status of
        None \<Rightarrow> None
      | Some statuses \<Rightarrow>
          (case check_runs of
             None \<Rightarrow> None
           | Some checks \<Rightarrow>
               min_by_key id (filter (\<lambda>at. since \<le> at)
                 (map st_created_at (filter (\<lambda>s. counts required (st_context s)) statuses) @
                  map chk_started_at (filter (\<lambda>c. counts required (chk_name c)) checks)))))"

fun push_new :: "string list \<Rightarrow> string list \<Rightarrow> string list" where
  "push_new seen [] = seen"
| "push_new seen (c # cs) = push_new (if c \<in> set seen then seen else seen @ [c]) cs"

fun covering_from :: "string list \<Rightarrow> string list list \<Rightarrow> string list list" where
  "covering_from seen [] = []"
| "covering_from seen (contexts # rest) =
     (let seen' = push_new seen contexts in seen' # covering_from seen' rest)"

definition covering_contexts :: "string list list \<Rightarrow> string list list" where
  "covering_contexts required = covering_from [] required"

section \<open>The verdict\<close>

lemma verdict_loop_False:
  "verdict_loop v g names = Some False \<longleftrightarrow> (\<exists>n \<in> set names. v n = Some False)"
  by (induction names arbitrary: g) (auto split: option.splits bool.splits)

lemma verdict_loop_True:
  "verdict_loop v g names = Some True \<longleftrightarrow> g \<and> (\<forall>n \<in> set names. v n = Some True)"
  by (induction names arbitrary: g) (auto split: option.splits bool.splits)

lemma reported_contexts_set:
  "set (reported_contexts statuses checks) = st_context ` set statuses \<union> chk_name ` set checks"
  by (simp add: reported_contexts_def)

text \<open>The contexts a verdict is about: the required ones, or every reported one where none is.\<close>

definition judged :: "commit_status list \<Rightarrow> check_run list \<Rightarrow> string list \<Rightarrow> string set" where
  "judged statuses checks required =
     (if required = [] then st_context ` set statuses \<union> chk_name ` set checks else set required)"

lemma gate_verdict_judged:
  "gate_verdict (Some statuses) (Some checks) required =
     (let names = judged statuses checks required; v = context_verdict statuses checks
      in if \<exists>n \<in> names. v n = Some False then Some False
         else if names \<noteq> {} \<and> (\<forall>n \<in> names. v n = Some True) then Some True
         else None)"
proof -
  define names where "names = (if required = [] then reported_contexts statuses checks else required)"
  let ?v = "context_verdict statuses checks"
  have set: "set names = judged statuses checks required"
    by (simp add: names_def judged_def reported_contexts_set)
  have "gate_verdict (Some statuses) (Some checks) required =
      (if names = [] then None else verdict_loop ?v True names)"
    by (simp add: gate_verdict_def names_def Let_def)
  moreover have "names = [] \<longleftrightarrow> judged statuses checks required = {}"
    using set by (metis set_empty)
  moreover have "verdict_loop ?v True names \<in> {Some True, Some False, None}"
    by (metis (full_types) insertCI option.exhaust)
  ultimately show ?thesis
    using verdict_loop_False [of ?v True names] verdict_loop_True [of ?v True names]
    by (auto simp: Let_def set)
qed

text \<open>
  C24. The verdict is red exactly when some judged context is, green exactly when every one is and
  there is one, and open otherwise. The judged contexts are the required ones, or every reported
  context where none is required; an answer the core cannot give leaves the verdict open.
\<close>

theorem gate_verdict_is_the_conjunction:
  "gate_verdict statuses checks required =
     (case (statuses, checks) of
        (Some ss, Some cs) \<Rightarrow>
          if \<exists>n \<in> judged ss cs required. context_verdict ss cs n = Some False then Some False
          else if judged ss cs required \<noteq> {} \<and>
                  judged ss cs required \<subseteq> {n. context_verdict ss cs n = Some True}
          then Some True
          else None
      | _ \<Rightarrow> None)"
proof (cases "statuses = None \<or> checks = None")
  case True
  then show ?thesis by (auto simp: gate_verdict_def split: option.splits)
next
  case False
  then obtain ss cs where "statuses = Some ss" "checks = Some cs" by auto
  then show ?thesis by (auto simp: gate_verdict_judged Let_def)
qed

lemma context_verdict_latest_status:
  assumes "s \<in> set statuses" "st_context s = nm"
    and "\<forall>t \<in> set statuses. st_context t = nm \<longrightarrow> t \<noteq> s \<longrightarrow> st_updated_at t < st_updated_at s"
  shows "context_verdict statuses checks nm =
    (case st_state s of StatusSuccess \<Rightarrow> Some True | StatusPending \<Rightarrow> None | _ \<Rightarrow> Some False)"
proof -
  let ?mine = "filter (\<lambda>s. st_context s = nm) statuses"
  obtain m where m: "max_by_key st_updated_at ?mine = Some m"
    using assms(1,2) by (cases "max_by_key st_updated_at ?mine") (auto simp: filter_empty_conv)
  have "m \<in> set ?mine" "\<forall>x \<in> set ?mine. st_updated_at x \<le> st_updated_at m"
    using max_by_key_Some [OF m] by auto
  then have "m \<in> set statuses" "st_context m = nm" "st_updated_at s \<le> st_updated_at m"
    using assms(1,2) by auto
  with assms(3) have "m = s" by fastforce
  with m show ?thesis by (simp add: context_verdict_def split: commit_status_state.splits)
qed

section \<open>What covers a stack\<close>

lemma set_push_new: "set (push_new u cs) = set u \<union> set cs"
  by (induction u cs rule: push_new.induct) auto

lemma distinct_push_new: "distinct u \<Longrightarrow> distinct (push_new u cs)"
  by (induction u cs rule: push_new.induct) auto

lemma length_covering_from [simp]: "length (covering_from u rs) = length rs"
  by (induction u rs rule: covering_from.induct) (auto simp: Let_def)

lemma covering_from_nth:
  "i < length rs \<Longrightarrow> set (covering_from u rs ! i) = set u \<union> (\<Union>r \<in> set (take (Suc i) rs). set r)"
proof (induction u rs arbitrary: i rule: covering_from.induct)
  case (2 u c rest)
  then show ?case by (cases i) (auto simp: Let_def set_push_new)
qed simp

lemma distinct_covering_from: "distinct u \<Longrightarrow> i < length rs \<Longrightarrow> distinct (covering_from u rs ! i)"
proof (induction u rs arbitrary: i rule: covering_from.induct)
  case (2 u c rest)
  then show ?case by (cases i) (auto simp: Let_def distinct_push_new)
qed simp

lemma covering_set:
  "i < length rs \<Longrightarrow> set (covering_contexts rs ! i) = (\<Union>r \<in> set (take (Suc i) rs). set r)"
  by (simp add: covering_contexts_def covering_from_nth)

text \<open>
  C25. What the entry at a place of the stack must pass is the union, without repetition, of what it
  and every entry below it require. So a commit whose verdict on that union is green has a green
  verdict on the contexts of each entry it lands, where that entry requires any.
\<close>

theorem covering_gate_covers_every_entry_below:
  assumes "i < length required" and "j \<le> i"
    and "gate_verdict statuses checks (covering_contexts required ! i) = Some True"
  shows "distinct (covering_contexts required ! i) \<and>
    set (covering_contexts required ! i) = (\<Union>r \<in> set (take (Suc i) required). set r) \<and>
    (required ! j \<noteq> [] \<longrightarrow> gate_verdict statuses checks (required ! j) = Some True)"
proof -
  obtain ss cs where some: "statuses = Some ss" "checks = Some cs"
    using assms(3) by (auto simp: gate_verdict_def split: option.splits)
  have "required ! j \<in> set (take (Suc i) required)"
    using assms(1,2) by (auto simp: in_set_conv_nth intro!: exI [of _ j])
  then have sub: "set (required ! j) \<subseteq> set (covering_contexts required ! i)"
    using assms(1) by (auto simp: covering_set)
  have "gate_verdict statuses checks (required ! j) = Some True" if ne: "required ! j \<noteq> []"
  proof -
    have "covering_contexts required ! i \<noteq> []" using sub ne by (cases "required ! j") auto
    then have "\<forall>n \<in> set (covering_contexts required ! i). context_verdict ss cs n = Some True"
      using assms(3) by (auto simp: some gate_verdict_judged judged_def Let_def split: if_splits)
    with sub ne show ?thesis by (auto simp: some gate_verdict_judged judged_def Let_def)
  qed
  moreover have "distinct (covering_contexts required ! i)"
    using assms(1) by (simp add: covering_contexts_def distinct_covering_from)
  ultimately show ?thesis using assms(1) by (simp add: covering_set)
qed

lemma gate_started_at_Some:
  assumes "gate_started_at (Some ss) (Some cs) required since = Some at"
  shows "since \<le> at" "(\<exists>s \<in> set ss. counts required (st_context s) \<and> st_created_at s = at) \<or>
    (\<exists>c \<in> set cs. counts required (chk_name c) \<and> chk_started_at c = at)"
  using min_by_key_Some [OF assms [unfolded gate_started_at_def option.case]] by auto

theorem covering_gate_covers_every_entry_below_witness:
  "gate_verdict (Some [\<lparr>st_context = ''ci'', st_state = StatusSuccess, st_created_at = 0, st_updated_at = 1\<rparr>])
     (Some []) [''ci''] = Some True"
proof -
  have "gate_verdict (Some [\<lparr>st_context = ''ci'', st_state = StatusSuccess, st_created_at = 0, st_updated_at = 1\<rparr>])
      (Some []) (covering_contexts [[''ci''], [''ci'']] ! 1) = Some True"
    by code_simp
  with covering_gate_covers_every_entry_below [of 1 "[[''ci''], [''ci'']]" 0] show ?thesis by simp
qed

end
