(* ===== verification/QueueTypes.thy ===== *)
theory QueueTypes
  imports GitReplay GateVerdict GateWanted
begin

text \<open>
  The data of the merge queue (\<^verbatim>\<open>crates/jeryu-api/src/web/merge_queue.rs\<close>) and what its code
  calls. A \<open>forge\<close> is what lies outside the queue, as functions of a state \<open>'w\<close>: the git binary with
  its clock and files (a \<open>host\<close>), the rows of the core, the repository manager, the codec of an entry,
  the merge passport (\<^verbatim>\<open>pulls::queue_gate\<close>) and the sinks of comments and audits. An \<open>io\<close> is that
  state together with what the queue changes besides its own entries: the gate-wanted signals and the
  pipeline events it emits. Every function that runs git may change the outside state in any way the
  git of the \<open>host\<close> does.

  The text a reader sees (\<^verbatim>\<open>reason\<close>) is a constructor with the values its format string takes.
\<close>

section \<open>Entries\<close>

definition MAX_ATTEMPTS :: nat where
  "MAX_ATTEMPTS = 2"

definition SUPERSEDED :: string where
  "SUPERSEDED = ''superseded''"

definition MAX_CONFLICT_PATHS :: nat where
  "MAX_CONFLICT_PATHS = 64"

datatype queue_state = Building | Landed | Failed | Dequeued

definition queue_states :: "queue_state list" where
  "queue_states = [Building, Landed, Failed, Dequeued]"

fun state_name :: "queue_state \<Rightarrow> string" where
  "state_name Building = ''building''"
| "state_name Landed = ''landed''"
| "state_name Failed = ''failed''"
| "state_name Dequeued = ''dequeued''"

definition state_names :: "string list" where
  "state_names = map state_name queue_states"

record approver =
  ap_login :: string
  ap_automation :: bool

record attempt =
  at_queue_sha :: string
  at_base_sha :: string
  at_conclusion :: "string option"
  at_at :: string

record bot_principal =
  bot_id :: string
  bot_generation :: nat
  bot_key_id :: string

datatype queue_reason =
    DequeuedBy string
  | NoLongerOpen
  | HeadMoved string
  | GateNotPassed "string list"
  | ReplayRefused replay_failure
  | ReplayRefusedQueued replay_failure nat string
  | GateFailedOn "string list"
  | Unrecorded string string string
  | AlreadyMerged string
  | CouldNotLand string
  | LandedCovered string nat string bool string "string list"
  | LandedAt string string "string list"

record queue_entry =
  qe_repo :: string
  qe_base :: string
  qe_number :: nat
  qe_pr_head_sha :: string
  qe_base_sha :: string
  qe_queue_ref :: string
  qe_queue_sha :: string
  qe_state :: queue_state
  qe_enqueued_at :: string
  qe_enqueued_by :: string
  qe_enqueued_by_bot :: "bot_principal option"
  qe_approvers :: "approver list"
  qe_attempts :: "attempt list"
  qe_reason :: "queue_reason option"
  qe_refusal_code :: "string option"
  qe_conflict_paths :: "string list"
  qe_landed_sha :: "string option"
  qe_after :: "nat option"
  qe_landed_with :: "nat option"
  qe_audited_score_id :: "string option"

type_synonym queue_key = "string \<times> string \<times> nat"

type_synonym queue_entries = "(queue_key, queue_entry) btree"

definition stack_order :: "queue_entry \<Rightarrow> string \<times> nat" where
  "stack_order e = (qe_enqueued_at e, qe_number e)"

definition meta_ref :: "string \<Rightarrow> nat \<Rightarrow> string" where
  "meta_ref base number = ''refs/queue-meta/'' @ base @ ''/'' @ show_nat number"

definition queue_ref :: "string \<Rightarrow> nat \<Rightarrow> string" where
  "queue_ref base number = ''refs/queue/'' @ base @ ''/'' @ show_nat number"

definition branch_ref :: "string \<Rightarrow> string" where
  "branch_ref base = ''refs/heads/'' @ base"

definition number_of :: "queue_key \<Rightarrow> nat" where
  "number_of k = snd (snd k)"

section \<open>The index\<close>

text \<open>Why a repository's entries could not be read.\<close>

datatype meta_error =
    MetadataRead replay_failure
  | InvalidMetadata string string
  | InvalidCommit string nat
  | NotOpened string

record queue_index =
  qi_loaded :: bool
  qi_loaded_repos :: "(string \<times> string) list"
  qi_errors :: "(string \<times> string, meta_error) btree"
  qi_entries :: queue_entries

definition index_default :: queue_index where
  "index_default = \<lparr>qi_loaded = False, qi_loaded_repos = [], qi_errors = [], qi_entries = []\<rparr>"

section \<open>What the queue reads and calls\<close>

datatype pull_state = PullOpen | PullDraft | PullClosed | PullMerged

record pull_request =
  pr_owner :: string
  pr_repo :: string
  pr_number :: nat
  pr_head_ref :: string
  pr_head_sha :: string
  pr_base_ref :: string
  pr_state :: pull_state
  pr_merged :: bool
  pr_draft :: bool
  pr_author :: string
  pr_source_repository :: string

record review =
  rv_author :: string
  rv_approved :: bool

text \<open>The text of an error of the repository manager, and whether it says the repository is not there.\<close>

datatype open_error = RepoNotFound string | OpenFailed string

fun open_error_text :: "open_error \<Rightarrow> string" where
  "open_error_text (RepoNotFound t) = t"
| "open_error_text (OpenFailed t) = t"

record queue_event_row =
  ev_kind :: string
  ev_actor :: string
  ev_family :: "string option"
  ev_shift :: "string option"
  ev_repo :: string
  ev_pr :: "int option"
  ev_sha :: string
  ev_outcome :: "string option"
  ev_needs_human :: bool
  ev_reason :: "queue_reason option"
  ev_base :: string
  ev_queue_sha :: string
  ev_base_sha :: string
  ev_landed_sha :: "string option"
  ev_attempts :: nat
  ev_approvers :: "string list"

datatype queue_event =
    QueueEvent queue_event_row
  | PullMergedEvent nat string string
  | PullSkippedEvent nat string string

record 'w forge =
  fg_host :: "'w host"
  fg_now :: "'w \<Rightarrow> string"
  fg_server_time :: "'w \<Rightarrow> string"
  fg_list_repositories :: "'w \<Rightarrow> (string \<times> string) list"
  fg_open_parts :: "'w \<Rightarrow> string \<Rightarrow> string \<Rightarrow> open_error + string"
  fg_get_pull :: "'w \<Rightarrow> string \<Rightarrow> string \<Rightarrow> nat \<Rightarrow> pull_request option"
  fg_effective_reviews :: "'w \<Rightarrow> pull_request \<Rightarrow> review list"
  fg_shift_context :: "'w \<Rightarrow> string \<Rightarrow> string \<Rightarrow> string \<Rightarrow> string option \<times> string option"
  fg_required_contexts :: "'w \<Rightarrow> pull_request \<Rightarrow> string list"
  fg_parse_time :: "string \<Rightarrow> time option"
  fg_queue_gate :: "'w \<Rightarrow> pull_request \<Rightarrow> bool \<times> string list \<times> string list"
  fg_combined_status :: "'w \<Rightarrow> string \<Rightarrow> string \<Rightarrow> string \<Rightarrow> commit_status list option"
  fg_check_runs :: "'w \<Rightarrow> string \<Rightarrow> string \<Rightarrow> string \<Rightarrow> check_run list option"
  fg_can_write :: "'w \<Rightarrow> string \<Rightarrow> string \<Rightarrow> string \<Rightarrow> bool"
  fg_can_read :: "'w \<Rightarrow> string \<Rightarrow> string \<Rightarrow> string \<Rightarrow> bool"
  fg_authorize_bot :: "'w \<Rightarrow> bot_principal \<Rightarrow> string \<Rightarrow> string \<Rightarrow> nat \<Rightarrow> string \<Rightarrow> string option"
  fg_automation_identities :: "string list"
  fg_to_json :: "queue_entry \<Rightarrow> string option"
  fg_of_json :: "string \<Rightarrow> string + queue_entry"
  fg_comment :: "'w \<Rightarrow> string \<Rightarrow> string \<Rightarrow> nat \<Rightarrow> queue_reason \<Rightarrow> 'w"
  fg_queue_head_audit :: "'w \<Rightarrow> string \<Rightarrow> string \<Rightarrow> string \<Rightarrow> ref_update \<Rightarrow> 'w"

record 'w io =
  io_wanted :: signals
  io_events :: "queue_event list"
  io_world :: 'w

definition JANKURAI_PROOF_CHECK :: string where
  "JANKURAI_PROOF_CHECK = ''jankurai/proof''"

definition is_open_pull :: "pull_request \<Rightarrow> bool" where
  "is_open_pull pr \<longleftrightarrow> \<not> pr_merged pr \<and> pr_state pr \<notin> {PullClosed, PullMerged, PullDraft}"

definition can_write :: "'w forge \<Rightarrow> 'w \<Rightarrow> account_summary \<Rightarrow> string \<Rightarrow> string \<Rightarrow> bool" where
  "can_write F w account owner repo \<longleftrightarrow>
     acct_admin account \<or> fg_can_write F w (acct_login account) owner repo"

definition approvers :: "'w forge \<Rightarrow> 'w \<Rightarrow> pull_request \<Rightarrow> approver list" where
  "approvers F w pr =
     map (\<lambda>r. \<lparr>ap_login = rv_author r, ap_automation = rv_author r \<in> set (fg_automation_identities F)\<rparr>)
       (filter rv_approved (fg_effective_reviews F w pr))"

section \<open>Reading and writing entries\<close>

definition checked_entry :: "string \<Rightarrow> queue_entry \<Rightarrow> meta_error + queue_entry" where
  "checked_entry nm e =
     (if is_sha (qe_queue_sha e) \<or> (qe_state e = Dequeued \<and> qe_queue_sha e = [])
      then Inr e
      else Inl (InvalidCommit nm (qe_number e)))"

fun decode_entries :: "'w forge \<Rightarrow> (string \<times> string) list \<Rightarrow> meta_error + queue_entry list" where
  "decode_entries F [] = Inr []"
| "decode_entries F ((nm, body) # rest) =
     and_then (map_failure (InvalidMetadata nm) (fg_of_json F body)) (\<lambda>e.
     and_then (checked_entry nm e) (\<lambda>e.
     and_then (decode_entries F rest) (\<lambda>es. Inr (e # es))))"

definition read_metadata :: "'w forge \<Rightarrow> string \<Rightarrow> ('w, meta_error, queue_entry list) op" where
  "read_metadata F bare w =
     (case try_read_blob_refs (fg_host F) bare ''refs/queue-meta/'' w of
        (w', Inl f) \<Rightarrow> (w', Inl (MetadataRead f))
      | (w', Inr blobs) \<Rightarrow> (w', decode_entries F blobs))"

definition building_on_base :: "'w forge \<Rightarrow> string \<Rightarrow> string \<Rightarrow> ('w, meta_error, nat list) op" where
  "building_on_base F bare base =
     then_do (read_metadata F bare) (\<lambda>es. yield (Inr (map qe_number
       (filter (\<lambda>e. qe_base e = base \<and> qe_state e = Building) es))))"

definition emit_queue :: "'w forge \<Rightarrow> queue_entry \<Rightarrow> string \<Rightarrow> string \<Rightarrow> bool \<Rightarrow> 'w io \<Rightarrow> 'w io" where
  "emit_queue F e kind actor needs_human io =
     (let (owner, repo) = (case split_once (CHR ''/'') (qe_repo e) of None \<Rightarrow> ([], qe_repo e) | Some p \<Rightarrow> p);
          head_ref = (case fg_get_pull F (io_world io) owner repo (qe_number e) of None \<Rightarrow> [] | Some pr \<Rightarrow> pr_head_ref pr);
          (family, shift) = fg_shift_context F (io_world io) owner repo head_ref;
          outcome = (case qe_state e of
            Building \<Rightarrow> None | Landed \<Rightarrow> Some ''success'' | Failed \<Rightarrow> Some ''failure'' | Dequeued \<Rightarrow> Some ''dequeued'')
      in io\<lparr>io_events := io_events io @
           [QueueEvent \<lparr>ev_kind = kind, ev_actor = actor, ev_family = family, ev_shift = shift, ev_repo = qe_repo e,
              ev_pr = (if qe_number e \<le> i64_max then Some (int (qe_number e)) else None),
              ev_sha = qe_pr_head_sha e, ev_outcome = outcome, ev_needs_human = needs_human, ev_reason = qe_reason e,
              ev_base = qe_base e, ev_queue_sha = qe_queue_sha e, ev_base_sha = qe_base_sha e,
              ev_landed_sha = qe_landed_sha e, ev_attempts = length (qe_attempts e),
              ev_approvers = map ap_login (qe_approvers e)\<rparr>]\<rparr>)"

definition comment_io :: "'w forge \<Rightarrow> string \<Rightarrow> string \<Rightarrow> nat \<Rightarrow> queue_reason \<Rightarrow> 'w io \<Rightarrow> 'w io" where
  "comment_io F owner repo number reason io =
     io\<lparr>io_world := fg_comment F (io_world io) owner repo number reason\<rparr>"

definition schedule_audit :: "'w forge \<Rightarrow> string \<Rightarrow> string \<Rightarrow> queue_entry \<Rightarrow> string list option \<Rightarrow> 'w \<Rightarrow> 'w" where
  "schedule_audit F owner repo e required w =
     (case (case required of
              Some r \<Rightarrow> Some r
            | None \<Rightarrow> map_option (\<lambda>pr. snd (snd (fg_queue_gate F w pr))) (fg_get_pull F w owner repo (qe_number e))) of
        None \<Rightarrow> w
      | Some r \<Rightarrow>
          if JANKURAI_PROOF_CHECK \<notin> set r then w
          else case fg_open_parts F w owner repo of
                 Inl _ \<Rightarrow> w
               | Inr path \<Rightarrow>
                   (case run (fg_host F) path [''show'', meta_ref (qe_base e) (qe_number e)] w of
                      (w', Inl _) \<Rightarrow> w'
                    | (w', Inr body) \<Rightarrow>
                        (case fg_of_json F body of
                           Inl _ \<Rightarrow> w'
                         | Inr stored \<Rightarrow>
                             if qe_queue_sha stored \<noteq> qe_queue_sha e then w'
                             else fg_queue_head_audit F w' owner repo path
                               \<lparr>ru_ref_name = qe_queue_ref e, ru_old_oid = qe_base_sha e,
                                ru_new_oid = qe_queue_sha e\<rparr>)))"

definition persist :: "'w forge \<Rightarrow> string \<Rightarrow> string \<Rightarrow> queue_entry \<Rightarrow> 'w \<Rightarrow> 'w" where
  "persist F owner repo e w =
     (case fg_open_parts F w owner repo of
        Inl _ \<Rightarrow> w
      | Inr path \<Rightarrow>
          let w1 = (case fg_to_json F e of
                None \<Rightarrow> w
              | Some json \<Rightarrow>
                  (case write_blob_ref (fg_host F) path (meta_ref (qe_base e) (qe_number e)) json w of
                     (w', Inl _) \<Rightarrow> w'
                   | (w', Inr _) \<Rightarrow>
                       if qe_state e = Building then schedule_audit F owner repo e None w' else w'))
          in if qe_state e \<noteq> Building then delete_ref (fg_host F) path (qe_queue_ref e) w1 else w1)"

definition persist_io :: "'w forge \<Rightarrow> string \<Rightarrow> string \<Rightarrow> queue_entry \<Rightarrow> 'w io \<Rightarrow> 'w io" where
  "persist_io F owner repo e io = io\<lparr>io_world := persist F owner repo e (io_world io)\<rparr>"

definition base_tip :: "'w forge \<Rightarrow> string \<Rightarrow> string \<Rightarrow> string \<Rightarrow> ('w, replay_failure, string) op" where
  "base_tip F owner repo base w =
     (case fg_open_parts F w owner repo of
        Inl err \<Rightarrow> (w, Inl (Git (open_error_text err)))
      | Inr path \<Rightarrow>
          (case resolve (fg_host F) path (branch_ref base) w of
             (w', None) \<Rightarrow> (w', Inl (Git (branch_ref base @ '' does not resolve'')))
           | (w', Some tip) \<Rightarrow> (w', Inr tip)))"

definition built :: "string \<Rightarrow> string \<Rightarrow> string \<Rightarrow> queue_entry \<Rightarrow> queue_entry" where
  "built parent queue_sha at e =
     e\<lparr>qe_base_sha := parent, qe_queue_sha := queue_sha,
       qe_attempts := qe_attempts e @
         [\<lparr>at_queue_sha = queue_sha, at_base_sha = parent, at_conclusion = None, at_at = at\<rparr>]\<rparr>"

definition build_on :: "'w forge \<Rightarrow> string \<Rightarrow> string \<Rightarrow> queue_entry \<Rightarrow> string \<Rightarrow> int option
    \<Rightarrow> 'w io \<Rightarrow> 'w io \<times> (replay_failure + queue_entry)" where
  "build_on F owner repo e parent committed_after io =
     (case fg_open_parts F (io_world io) owner repo of
        Inl err \<Rightarrow> (io, Inl (Git (open_error_text err)))
      | Inr path \<Rightarrow>
          (case then_do (replay (fg_host F) path parent (qe_pr_head_sha e) committed_after) (\<lambda>queue_sha.
                  then_do (update_ref (fg_host F) path (qe_queue_ref e) queue_sha) (\<lambda>_.
                  yield (Inr queue_sha))) (io_world io) of
             (w, Inl f) \<Rightarrow> (io\<lparr>io_world := w\<rparr>, Inl f)
           | (w, Inr queue_sha) \<Rightarrow>
               (io\<lparr>io_world := w,
                   io_wanted := record_queue_commit (io_wanted io) (fg_server_time F w)
                     (qe_repo e) (qe_number e) queue_sha\<rparr>,
                Inr (built parent queue_sha (fg_now F w) e))))"

definition finish :: "'w forge \<Rightarrow> string \<Rightarrow> string \<Rightarrow> queue_entry \<Rightarrow> queue_state \<Rightarrow> queue_reason
    \<Rightarrow> 'w io \<Rightarrow> 'w io \<times> queue_entry" where
  "finish F owner repo e to reason io =
     (let e = e\<lparr>qe_state := to, qe_reason := Some reason\<rparr>;
          io = persist_io F owner repo e io;
          (kind, needs_human) = (case to of
             Landed \<Rightarrow> (''queue.landed'', False)
           | Failed \<Rightarrow> (''queue.failed'', True)
           | _ \<Rightarrow> (''queue.dequeued'', True));
          io = emit_queue F e kind ''merge-queue'' needs_human io;
          io = (if to = Landed \<and> fg_get_pull F (io_world io) owner repo (qe_number e) \<noteq> None
                then io\<lparr>io_events := io_events io @ [PullMergedEvent (qe_number e) ''merge-queue'' ''merge_queue'']\<rparr>
                else io)
      in (comment_io F owner repo (qe_number e) reason io, e))"

section \<open>A sound entry\<close>

definition is_red :: "attempt \<Rightarrow> bool" where
  "is_red a \<longleftrightarrow> at_conclusion a = Some ''failure''"

text \<open>
  An entry of the queue has its own ref, no more red gates than are allowed, and while it is queued
  one fewer, with its last attempt the open one of the commit it shows.
\<close>

definition red_count :: "queue_entry \<Rightarrow> nat" where
  "red_count e = length (filter is_red (qe_attempts e))"

definition entry_ok :: "queue_entry \<Rightarrow> bool" where
  "entry_ok e \<longleftrightarrow> qe_queue_ref e = queue_ref (qe_base e) (qe_number e) \<and> red_count e \<le> MAX_ATTEMPTS \<and>
     (qe_state e = Building \<longrightarrow> red_count e < MAX_ATTEMPTS \<and> qe_attempts e \<noteq> [] \<and>
        at_queue_sha (last (qe_attempts e)) = qe_queue_sha e \<and> at_base_sha (last (qe_attempts e)) = qe_base_sha e \<and>
        at_conclusion (last (qe_attempts e)) = None)"

section \<open>A forge of one repository\<close>

text \<open>
  A small forge the examples run on: its state is the table of refs, git says that every commit it is
  asked about is below the other, and every pull request is open against main with a green gate.
\<close>

definition ex_oid :: "nat \<Rightarrow> string" where
  "ex_oid n = replicate 40 (char_of (48 + n))"

definition ex_refs_git :: "(string \<times> string) list \<Rightarrow> git_call \<Rightarrow> (string \<times> string) list \<times> (string + git_out)" where
  "ex_refs_git w c =
     (let ok = (\<lambda>out. Inr \<lparr>out_code = Some 0, out_stdout = out, out_stderr = [], out_write_error = None\<rparr>);
          no = Inr \<lparr>out_code = Some 1, out_stdout = [], out_stderr = [], out_write_error = None\<rparr>
      in case call_args c of
           [cmd, nm, val] \<Rightarrow>
             if cmd = ''update-ref'' \<and> nm = ''-d'' then (filter (\<lambda>r. fst r \<noteq> val) w, ok [])
             else if cmd = ''update-ref'' then ((nm, val) # w, ok [])
             else if cmd = ''hash-object'' then (w, ok ex_sha)
             else (w, ok [])
         | [cmd, _, _, _, rv] \<Rightarrow>
             if cmd = ''rev-parse'' then
               (case find (\<lambda>r. fst r @ ''^{commit}'' = rv) w of None \<Rightarrow> (w, no) | Some r \<Rightarrow> (w, ok (snd r)))
             else if cmd = ''log'' then (w, ok ''7'')
             else (w, ok [])
         | _ \<Rightarrow> (w, ok []))"

definition ex_refs_host :: "(string \<times> string) list host" where
  "ex_refs_host = \<lparr>host_git = ex_refs_git, host_now_secs = (\<lambda>_. 0), host_work_dir = (\<lambda>_. ''w''),
     host_remove_dir = (\<lambda>w d. w)\<rparr>"

definition ex_pull :: "nat \<Rightarrow> pull_request" where
  "ex_pull n = \<lparr>pr_owner = ''o'', pr_repo = ''r'', pr_number = n, pr_head_ref = ''topic'', pr_head_sha = ex_oid n, pr_base_ref = ''main'',
     pr_state = PullOpen, pr_merged = False, pr_draft = False, pr_author = ''ann'', pr_source_repository = ''o/r''\<rparr>"

definition ex_forge :: "(string \<times> string) list forge" where
  "ex_forge = \<lparr>fg_host = ex_refs_host, fg_now = (\<lambda>_. ''t''), fg_server_time = (\<lambda>_. ''t''),
     fg_list_repositories = (\<lambda>_. [(''o'', ''r'')]), fg_open_parts = (\<lambda>_ _ _. Inr ''/r''),
     fg_get_pull = (\<lambda>_ _ _ n. Some (ex_pull n)), fg_effective_reviews = (\<lambda>_ _. []),
     fg_shift_context = (\<lambda>_ _ _ _. (None, None)), fg_required_contexts = (\<lambda>_ _. [''ci'']), fg_parse_time = (\<lambda>_. Some 0),
     fg_queue_gate = (\<lambda>_ _. (True, [], [''ci''])),
     fg_combined_status = (\<lambda>_ _ _ _. Some [\<lparr>st_context = ''ci'', st_state = StatusSuccess, st_created_at = 0, st_updated_at = 0\<rparr>]),
     fg_check_runs = (\<lambda>_ _ _ _. Some []), fg_can_write = (\<lambda>_ _ _ _. True), fg_can_read = (\<lambda>_ _ _ _. True),
     fg_authorize_bot = (\<lambda>_ _ _ _ _ _. None), fg_automation_identities = [], fg_to_json = (\<lambda>_. Some ''{}''),
     fg_of_json = (\<lambda>_. Inl ''text''), fg_comment = (\<lambda>w _ _ _ _. w), fg_queue_head_audit = (\<lambda>w _ _ _ _. w)\<rparr>"

definition ex_refs :: "(string \<times> string) list" where
  "ex_refs = [(branch_ref ''main'', ex_oid 0)]"

definition ex_entry :: "nat \<Rightarrow> queue_entry" where
  "ex_entry n = \<lparr>qe_repo = ''o/r'', qe_base = ''main'', qe_number = n, qe_pr_head_sha = ex_oid n, qe_base_sha = ex_oid 0,
     qe_queue_ref = queue_ref ''main'' n, qe_queue_sha = ex_oid n, qe_state = Building, qe_enqueued_at = ''t'',
     qe_enqueued_by = ''ann'', qe_enqueued_by_bot = None, qe_approvers = [],
     qe_attempts = [\<lparr>at_queue_sha = ex_oid n, at_base_sha = ex_oid 0, at_conclusion = None, at_at = ''t''\<rparr>],
     qe_reason = None, qe_refusal_code = None, qe_conflict_paths = [], qe_landed_sha = None, qe_after = None,
     qe_landed_with = None, qe_audited_score_id = None\<rparr>"

end
