(* ===== verification/Queries.thy ===== *)
theory Queries
  imports Tables
begin

text \<open>
  What a list route reads of its query: the page it asks for
  (\<^verbatim>\<open>crates/jeryu-api/src/web/paging.rs\<close>) and the keys and closed values it accepts
  (\<^verbatim>\<open>crates/jeryu-api/src/web/strict_query.rs\<close>). A slice of a string that would split a character is
  a panic in Rust and \<open>None\<close> here, as is a subtraction below zero. Decoding the accepted query into
  the route's own type is the web framework's and appears as an argument.
\<close>

section \<open>Pages\<close>

definition DEFAULT_LIMIT :: nat where
  "DEFAULT_LIMIT = 100"

definition MAX_LIMIT :: nat where
  "MAX_LIMIT = 500"

record page_params =
  pp_limit :: "string option"
  pp_per_page :: "string option"
  pp_page :: "string option"

record page =
  pg_limit :: nat
  pg_page :: nat

record page_info =
  pi_limit :: nat
  pi_page :: nat
  pi_total :: nat
  pi_has_more :: bool

datatype page_error =
    NotAWholeNumber string nat string
  | OutOfRange string nat nat
  | TwoLimits nat nat

definition page_number :: "string \<Rightarrow> string \<Rightarrow> nat \<Rightarrow> page_error + nat" where
  "page_number nm raw mx =
     (case parse_uint usize_max (trim raw) of
        None \<Rightarrow> Inl (NotAWholeNumber nm mx raw)
      | Some v \<Rightarrow> if v = 0 \<or> v > mx then Inl (OutOfRange nm mx v) else Inr v)"

definition optional_number :: "string \<Rightarrow> string option \<Rightarrow> nat \<Rightarrow> page_error + nat option" where
  "optional_number nm raw mx =
     (case raw of
        None \<Rightarrow> Inr None
      | Some r \<Rightarrow> and_then (page_number nm r mx) (\<lambda>v. Inr (Some v)))"

definition pick_limit :: "nat option \<Rightarrow> nat option \<Rightarrow> page_error + nat" where
  "pick_limit limit per_page =
     (case (limit, per_page) of
        (Some a, Some b) \<Rightarrow> if a \<noteq> b then Inl (TwoLimits a b) else Inr a
      | (Some a, None) \<Rightarrow> Inr a
      | (None, Some b) \<Rightarrow> Inr b
      | (None, None) \<Rightarrow> Inr DEFAULT_LIMIT)"

definition page_resolve :: "page_params \<Rightarrow> page_error + page" where
  "page_resolve p =
     and_then (optional_number ''limit'' (pp_limit p) MAX_LIMIT) (\<lambda>limit.
     and_then (optional_number ''per_page'' (pp_per_page p) MAX_LIMIT) (\<lambda>per_page.
     and_then (pick_limit limit per_page) (\<lambda>limit.
     and_then (optional_number ''page'' (pp_page p) usize_max) (\<lambda>pg.
     Inr \<lparr>pg_limit = limit, pg_page = (case pg of None \<Rightarrow> 1 | Some n \<Rightarrow> n)\<rparr>))))"

definition page_apply :: "page \<Rightarrow> 'a list \<Rightarrow> ('a list \<times> page_info) option" where
  "page_apply pg items =
     (case checked_sub (pg_page pg) 1 of
        None \<Rightarrow> None
      | Some before \<Rightarrow>
          let total = length items;
              start = min (sat_mul usize_max before (pg_limit pg)) total;
              rows = take (pg_limit pg) (drop start items)
          in Some (rows, \<lparr>pi_limit = pg_limit pg, pi_page = pg_page pg, pi_total = total,
                          pi_has_more = start + length rows < total\<rparr>))"

section \<open>Keys and closed values\<close>

definition one_of :: "string \<Rightarrow> string list \<Rightarrow> bool" where
  "one_of val allowed \<longleftrightarrow> val \<in> set allowed"

definition filter_one_of :: "string option \<Rightarrow> string list \<Rightarrow> bool" where
  "filter_one_of val allowed =
     (case val of
        None \<Rightarrow> True
      | Some v \<Rightarrow> if trim v = [] then True else one_of (trim v) allowed)"

text \<open>\<^verbatim>\<open>u8::from_str_radix(s, 16)\<close>: hexadecimal digits of either case after an optional plus sign.\<close>

definition hex_value :: "char \<Rightarrow> nat" where
  "hex_value c =
     (let n = (of_char c :: nat)
      in if is_ascii_digit c then n - 48 else if n < 97 then n - 55 else n - 87)"

definition from_hex :: "string \<Rightarrow> nat option" where
  "from_hex s =
     (let ds = (case s of c # cs \<Rightarrow> if c = CHR ''+'' then cs else s | [] \<Rightarrow> []);
          v = foldl (\<lambda>acc c. 16 * acc + hex_value c) 0 ds
      in if ds \<noteq> [] \<and> list_all is_ascii_hexdigit ds \<and> v < 256 then Some v else None)"

definition char_boundary :: "string \<Rightarrow> nat \<Rightarrow> bool" where
  "char_boundary s i \<longleftrightarrow> i = length s \<or> (i < length s \<and> \<not> is_continuation (s ! i))"

definition str_slice :: "string \<Rightarrow> nat \<Rightarrow> nat \<Rightarrow> string option" where
  "str_slice s i j =
     (if i \<le> j \<and> char_boundary s i \<and> char_boundary s j then Some (take (j - i) (drop i s)) else None)"

function decode_key :: "string \<Rightarrow> nat \<Rightarrow> string \<Rightarrow> string option" where
  "decode_key raw i out =
     (if i < length raw then
        let c = raw ! i in
        if c = CHR ''+'' then decode_key raw (i + 1) (out @ [CHR '' ''])
        else if c = CHR ''%'' \<and> i + 2 < length raw then
          (case str_slice raw (i + 1) (i + 3) of
             None \<Rightarrow> None
           | Some digits \<Rightarrow>
               (case from_hex digits of
                  Some b \<Rightarrow> decode_key raw (i + 3) (out @ [byte b])
                | None \<Rightarrow> decode_key raw (i + 1) (out @ [CHR ''%''])))
        else decode_key raw (i + 1) (out @ [c])
      else Some (from_utf8_lossy out))"
  by pat_completeness auto
termination
  by (relation "measure (\<lambda>(raw, i, _). length raw - i)") auto

declare decode_key.simps [simp del]

definition key_of :: "string \<Rightarrow> string option" where
  "key_of pair = decode_key (hd (split_on (CHR ''='') pair)) 0 []"

definition query_keys :: "string \<Rightarrow> string option list" where
  "query_keys query = map key_of (filter (\<lambda>pair. pair \<noteq> []) (split_on (CHR ''&'') query))"

datatype query_refused = UnknownKey string | Undecodable | WrongValue

text \<open>The loop over the keys; the outer \<open>None\<close> is a panic while a key is read.\<close>

fun check_keys :: "string list \<Rightarrow> string option list \<Rightarrow> (query_refused + unit) option" where
  "check_keys allowed [] = Some (Inr ())"
| "check_keys allowed (None # ks) = None"
| "check_keys allowed (Some k # ks) =
     (if k \<in> set allowed then check_keys allowed ks else Some (Inl (UnknownKey k)))"

definition strict_query :: "string list \<Rightarrow> ('a \<Rightarrow> bool) \<Rightarrow> (string \<Rightarrow> 'a option) \<Rightarrow> string
    \<Rightarrow> (query_refused + 'a) option" where
  "strict_query allowed check_values decode query =
     (case check_keys allowed (query_keys query) of
        None \<Rightarrow> None
      | Some (Inl e) \<Rightarrow> Some (Inl e)
      | Some (Inr _) \<Rightarrow>
          (case decode query of
             None \<Rightarrow> Some (Inl Undecodable)
           | Some v \<Rightarrow> Some (if check_values v then Inr v else Inl WrongValue)))"

section \<open>Properties of pages\<close>

lemma page_number_Inr: "page_number nm raw mx = Inr v \<Longrightarrow> 0 < v \<and> v \<le> mx"
  by (auto simp: page_number_def split: option.splits if_splits)

lemma optional_number_Inr: "optional_number nm raw mx = Inr (Some v) \<Longrightarrow> 0 < v \<and> v \<le> mx"
  by (auto simp: optional_number_def and_then_Inr_iff split: option.splits dest: page_number_Inr)

lemma page_resolve_Inr:
  assumes "page_resolve p = Inr pg"
  shows "0 < pg_limit pg \<and> pg_limit pg \<le> MAX_LIMIT \<and> 0 < pg_page pg"
proof -
  obtain l pp n where l: "optional_number ''limit'' (pp_limit p) MAX_LIMIT = Inr l"
    and pp: "optional_number ''per_page'' (pp_per_page p) MAX_LIMIT = Inr pp"
    and n: "optional_number ''page'' (pp_page p) usize_max = Inr n"
    and lim: "pick_limit l pp = Inr (pg_limit pg)"
    and pg: "pg_page pg = (case n of None \<Rightarrow> 1 | Some n \<Rightarrow> n)"
    using assms by (auto simp: page_resolve_def and_then_Inr_iff)
  have "0 < pg_limit pg \<and> pg_limit pg \<le> MAX_LIMIT"
    using l pp lim
    by (auto simp: pick_limit_def DEFAULT_LIMIT_def MAX_LIMIT_def split: option.splits if_splits
        dest: optional_number_Inr)
  moreover have "0 < pg_page pg" using n pg by (auto split: option.splits dest: optional_number_Inr)
  ultimately show ?thesis by simp
qed

lemma page_apply_eq:
  assumes "pg_page pg = Suc n" "length items \<le> usize_max"
  shows "page_apply pg items =
    Some (take (pg_limit pg) (drop (n * pg_limit pg) items),
          \<lparr>pi_limit = pg_limit pg, pi_page = Suc n, pi_total = length items,
           pi_has_more = Suc n * pg_limit pg < length items\<rparr>)"
proof -
  let ?x = "n * pg_limit pg"
  have m: "min (sat_mul usize_max n (pg_limit pg)) (length items) = min ?x (length items)"
    using assms(2) by (simp add: sat_mul_def min_def)
  have d: "drop (min ?x (length items)) items = drop ?x items" by (simp add: min_def)
  have "min ?x (length items) + length (take (pg_limit pg) (drop ?x items)) < length items \<longleftrightarrow>
      Suc n * pg_limit pg < length items"
    by (simp add: min_def) arith
  then show ?thesis
    by (simp only: page_apply_def checked_sub_def assms(1) diff_Suc_Suc diff_zero One_nat_def Suc_le_mono le0 if_True
        option.case Let_def m d)
qed

lemma page_walk:
  "concat (map (\<lambda>n. take l (drop (n * l) xs)) [0..<k]) = take (k * l) xs"
proof (induction k)
  case 0
  show ?case by simp
next
  case (Suc k)
  have "take (l + k * l) xs = take (k * l) xs @ take l (drop (k * l) xs)"
    by (metis add.commute take_add)
  with Suc show ?case by simp
qed

text \<open>
  C26. A request that is not refused names a limit from 1 to 500 and a page from 1, so cutting its
  page never panics. Reading the pages one after the other gives every row once and in order, and a
  page says there is more exactly when rows follow it.
\<close>

theorem pages_walk_the_collection:
  assumes "page_resolve p = Inr pg" and "length items \<le> usize_max"
  shows "1 \<le> pg_limit pg \<and> pg_limit pg \<le> MAX_LIMIT \<and>
    (\<exists>rows info. page_apply pg items = Some (rows, info) \<and> length rows \<le> pg_limit pg \<and>
       pi_total info = length items \<and> (pi_has_more info \<longleftrightarrow> drop (pg_page pg * pg_limit pg) items \<noteq> [])) \<and>
    concat (map (\<lambda>n. fst (the (page_apply (pg\<lparr>pg_page := n + 1\<rparr>) items))) [0..<pages]) =
      take (pages * pg_limit pg) items"
proof -
  note ok = page_resolve_Inr [OF assms(1)]
  then obtain k where k: "pg_page pg = Suc k" by (cases "pg_page pg") auto
  have "fst (the (page_apply (pg\<lparr>pg_page := n + 1\<rparr>) items)) =
      take (pg_limit pg) (drop (n * pg_limit pg) items)" for n
    using assms(2) by (simp add: page_apply_eq)
  then have "concat (map (\<lambda>n. fst (the (page_apply (pg\<lparr>pg_page := n + 1\<rparr>) items))) [0..<pages]) =
      take (pages * pg_limit pg) items"
    using page_walk [of "pg_limit pg" items pages] by simp
  with ok k show ?thesis by (auto simp: page_apply_eq [OF k assms(2)])
qed

theorem pages_walk_the_collection_witness:
  "concat (map (\<lambda>n. fst (the (page_apply \<lparr>pg_limit = 2, pg_page = n + 1\<rparr> ''abcde''))) [0..<3]) = ''abcde''"
proof -
  have "page_resolve \<lparr>pp_limit = None, pp_per_page = Some ''2'', pp_page = Some '' 3''\<rparr> =
      Inr \<lparr>pg_limit = 2, pg_page = 3\<rparr>"
    by code_simp
  from pages_walk_the_collection [OF this, of "''abcde''" 3] show ?thesis by (simp add: u64_max_def)
qed

section \<open>Properties of keys\<close>

text \<open>A key as a client may write it: every byte as a percent sign and two hexadecimal digits.\<close>

definition hex_digit :: "nat \<Rightarrow> char" where
  "hex_digit n = byte (if n < 10 then 48 + n else 55 + n)"

definition percent :: "char \<Rightarrow> string" where
  "percent c = [CHR ''%'', hex_digit (of_char c div 16), hex_digit (of_char c mod 16)]"

definition percent_encode :: "string \<Rightarrow> string" where
  "percent_encode s = concat (map percent s)"

lemma hex_digit_props:
  assumes "n < 16"
  shows "is_ascii_hexdigit (hex_digit n)" "hex_value (hex_digit n) = n"
    "hex_digit n \<noteq> CHR ''+''" "hex_digit n \<noteq> CHR ''=''" "hex_digit n \<noteq> CHR ''%''" "\<not> is_continuation (hex_digit n)"
proof -
  have "list_all (\<lambda>n. is_ascii_hexdigit (hex_digit n) \<and> hex_value (hex_digit n) = n \<and>
      hex_digit n \<noteq> CHR ''+'' \<and> hex_digit n \<noteq> CHR ''='' \<and> hex_digit n \<noteq> CHR ''%'' \<and>
      \<not> is_continuation (hex_digit n)) [0..<16]"
    by code_simp
  with assms show "is_ascii_hexdigit (hex_digit n)" "hex_value (hex_digit n) = n"
    "hex_digit n \<noteq> CHR ''+''" "hex_digit n \<noteq> CHR ''=''" "hex_digit n \<noteq> CHR ''%''" "\<not> is_continuation (hex_digit n)"
    by (simp_all add: list_all_iff)
qed

lemma byte_of_char [simp]: "byte (of_char c) = c"
  by (simp add: byte_def)

lemma of_char_lt [simp]: "(of_char c :: nat) < 256"
proof -
  have "of_char (char_of (of_char c :: nat)) = (of_char c :: nat) mod 256" by (rule of_char_of)
  then show ?thesis by (metis char_of_char mod_less_divisor zero_less_numeral)
qed

lemma of_char_digits: "(of_char c :: nat) div 16 < 16" "(of_char c :: nat) mod 16 < 16"
  using of_char_lt [of c] by (auto simp: less_mult_imp_div_less)

lemma from_hex_percent: "from_hex (tl (percent c)) = Some (of_char c)"
proof -
  note hi = hex_digit_props [OF of_char_digits(1) [of c]] and lo = hex_digit_props [OF of_char_digits(2) [of c]]
  have "16 * hex_value (hex_digit (of_char c div 16)) + hex_value (hex_digit (of_char c mod 16)) = (of_char c :: nat)"
    using hi(2) lo(2) by simp
  then show ?thesis using hi lo by (simp add: from_hex_def percent_def Let_def)
qed

lemma decode_key_step:
  assumes "raw = pre @ percent c @ post" "\<not> is_continuation (hd (post @ ''%''))"
  shows "decode_key raw (length pre) out = decode_key raw (length pre + 3) (out @ [c])"
proof -
  let ?d = "tl (percent c)"
  note hi = hex_digit_props [OF of_char_digits(1) [of c]]
  have raw: "raw = pre @ CHR ''%'' # ?d @ post" by (simp add: assms(1) percent_def)
  have len: "length ?d = 2" by (simp add: percent_def)
  have "take 2 (drop (length pre + 1) raw) = ?d" by (simp add: raw percent_def)
  moreover have "char_boundary raw (length pre + 1)"
    using hi by (simp add: char_boundary_def raw percent_def nth_append)
  moreover have "char_boundary raw (length pre + 3)"
    using assms(2) by (cases post) (auto simp: char_boundary_def raw percent_def nth_append)
  ultimately have "str_slice raw (length pre + 1) (length pre + 3) = Some ?d"
    by (simp add: str_slice_def)
  moreover have "raw ! length pre = CHR ''%''" "length pre + 2 < length raw"
    by (simp_all add: raw percent_def)
  ultimately show ?thesis
    by (subst decode_key.simps) (simp add: from_hex_percent Let_def)
qed

lemma decode_key_percent:
  assumes "raw = pre @ percent_encode s" 
  shows "decode_key raw (length pre) out = Some (from_utf8_lossy (out @ s))"
  using assms
proof (induction s arbitrary: pre out)
  case Nil
  then show ?case by (subst decode_key.simps) (simp add: percent_encode_def)
next
  case (Cons c s)
  have "\<not> is_continuation (hd (percent_encode s @ ''%''))"
    by (cases s) (auto simp: percent_encode_def percent_def is_continuation_def)
  then have "decode_key raw (length pre) out = decode_key raw (length pre + 3) (out @ [c])"
    using Cons.prems by (intro decode_key_step [where post = "percent_encode s"]) (simp_all add: percent_encode_def)
  also have "length pre + 3 = length (pre @ percent c)" by (simp add: percent_def)
  also have "decode_key raw (length (pre @ percent c)) (out @ [c]) = Some (from_utf8_lossy ((out @ [c]) @ s))"
    using Cons.prems by (intro Cons.IH) (simp add: percent_encode_def)
  finally show ?case by simp
qed



end
