(* ===== verification/Principals.thy ===== *)
theory Principals
  imports Tables
begin

text \<open>
  Who a login is, \<^verbatim>\<open>crates/jeryu-api/src/web/principals.rs\<close>: the normalised principal that every
  independence check compares. The alias table is the site's configuration, an argument here as it is
  of the functions the module tests.
\<close>

definition normalize_login :: "string \<Rightarrow> string" where
  "normalize_login login = to_ascii_lowercase (trim (dropWhile (\<lambda>c. c = CHR ''@'') (trim login)))"

definition alias_separator :: "char \<Rightarrow> bool" where
  "alias_separator c \<longleftrightarrow> c = CHR '';'' \<or> c = CHR '' '' \<or> c = byte 9 \<or> c = byte 10 \<or> c = byte 13"

definition entry_pairs :: "string \<times> string \<Rightarrow> (string \<times> string) list" where
  "entry_pairs e =
     map (\<lambda>al. (normalize_login (fst e), al))
       (filter (\<lambda>al. al \<noteq> []) (map normalize_login (split_on (CHR '','') (snd e))))"

definition alias_pairs :: "string option \<Rightarrow> (string \<times> string) list" where
  "alias_pairs aliases =
     filter (\<lambda>p. fst p \<noteq> [])
       (concat (map entry_pairs
         (List.map_filter (split_once (CHR ''=''))
           (filter (\<lambda>e. e \<noteq> [])
             (map trim (split_pred alias_separator (case aliases of None \<Rightarrow> [] | Some t \<Rightarrow> t)))))))"

definition resolve_alias :: "string option \<Rightarrow> string \<Rightarrow> string" where
  "resolve_alias aliases normalized =
     (case find (\<lambda>p. snd p = normalized) (alias_pairs aliases) of
        Some p \<Rightarrow> fst p
      | None \<Rightarrow> normalized)"

definition principal_with_aliases :: "string option \<Rightarrow> string \<Rightarrow> string option" where
  "principal_with_aliases aliases login =
     (let normalized = normalize_login login
      in if normalized = [] then None else Some (resolve_alias aliases normalized))"

definition same_principal_with_aliases :: "string option \<Rightarrow> string \<Rightarrow> string \<Rightarrow> bool" where
  "same_principal_with_aliases aliases left right =
     (case (principal_with_aliases aliases left, principal_with_aliases aliases right) of
        (Some l, Some r) \<Rightarrow> l = r
      | _ \<Rightarrow> False)"

section \<open>Spelling never makes two principals of one\<close>

text \<open>A login as it is written down: not empty, no white space at its ends and no leading at sign.\<close>

definition plain_login :: "string \<Rightarrow> bool" where
  "plain_login s \<longleftrightarrow> s \<noteq> [] \<and> trim s = s \<and> hd s \<noteq> CHR ''@''"

lemma principal_nonempty: "principal_with_aliases aliases login = Some p \<Longrightarrow> p \<noteq> []"
proof -
  assume a: "principal_with_aliases aliases login = Some p"
  show ?thesis
  proof (cases "find (\<lambda>p. snd p = normalize_login login) (alias_pairs aliases)")
    case None
    with a show ?thesis by (auto simp: principal_with_aliases_def resolve_alias_def Let_def split: if_splits)
  next
    case (Some q)
    then have "q \<in> set (alias_pairs aliases)" by (auto simp: find_Some_iff)
    then have "fst q \<noteq> []" by (auto simp: alias_pairs_def)
    with a Some show ?thesis by (auto simp: principal_with_aliases_def resolve_alias_def Let_def split: if_splits)
  qed
qed

definition ats :: "nat \<Rightarrow> string" where
  "ats n = replicate n (CHR ''@'')"

lemma white_space_no_at: "w \<in> set white_space \<Longrightarrow> w \<noteq> [] \<and> CHR ''@'' \<notin> set w"
proof -
  have "list_all (\<lambda>w. w \<noteq> [] \<and> CHR ''@'' \<notin> set w) white_space" by code_simp
  then show "w \<in> set white_space \<Longrightarrow> w \<noteq> [] \<and> CHR ''@'' \<notin> set w" by (simp add: list_all_iff)
qed

lemma starts_with_before_ats:
  assumes "starts_with (s @ ats n) w" "CHR ''@'' \<notin> set w"
  shows "starts_with s w"
proof (cases "length w \<le> length s")
  case True
  with assms(1) show ?thesis by (simp add: starts_with_def)
next
  case False
  then have "w = s @ take (length w - length s) (ats n)" using assms(1) by (simp add: starts_with_def)
  then have "set (take (length w - length s) (ats n)) \<subseteq> set w" by (metis set_append Un_upper2)
  moreover have "x = CHR ''@''" if "x \<in> set (take (length w - length s) (ats n))" for x
    using in_set_takeD [OF that] by (simp add: ats_def)
  ultimately have "set (take (length w - length s) (ats n)) = {}" using assms(2) by (metis equals0I subsetD)
  then have "take (length w - length s) (ats n) = []" by (simp only: set_empty)
  with \<open>w = s @ _\<close> False show ?thesis by simp
qed

lemma drop_leading_stop:
  assumes "\<And>w. w \<in> set ws \<Longrightarrow> \<not> starts_with s w"
  shows "drop_leading n ws s = s"
proof -
  have "find (\<lambda>w. starts_with s w) ws = None" using assms by (simp add: find_None_iff)
  then show ?thesis by (cases n) simp_all
qed

lemma trim_fixed_ends:
  assumes "trim s = s" "w \<in> set white_space"
  shows "\<not> starts_with s w" "\<not> starts_with (rev s) (rev w)"
proof -
  have len: "length (trim_start s) \<le> length s" by (simp add: trim_start_def length_drop_leading)
  have "length (trim_end (trim_start s)) \<le> length (trim_start s)"
    by (simp add: trim_end_def) (metis length_drop_leading length_rev)
  with len assms(1) have l: "length (trim_start s) = length s" by (simp add: trim_def)
  have ne: "[] \<notin> set white_space" using white_space_no_at by blast
  have "find (\<lambda>w. starts_with (trim_start s) w) white_space = None"
    unfolding trim_start_def by (rule drop_leading_done) (simp_all add: ne)
  moreover have st: "trim_start s = s"
    using l drop_leading_length_eq [of white_space "length s" s] ne by (simp add: trim_start_def)
  ultimately show "\<not> starts_with s w" using assms(2) by (auto simp: find_None_iff)
  have "find (\<lambda>w. starts_with (drop_leading (length s) (map rev white_space) (rev s)) w) (map rev white_space) = None"
    by (rule drop_leading_done) (use ne in auto)
  moreover have "drop_leading (length s) (map rev white_space) (rev s) = rev s"
    using assms(1) by (simp add: trim_def st trim_end_def) (metis rev_swap)
  ultimately show "\<not> starts_with (rev s) (rev w)" using assms(2) by (auto simp: find_None_iff)
qed

lemma trim_ats:
  assumes "trim s = s" "s \<noteq> []"
  shows "trim (ats n @ s) = ats n @ s"
proof -
  have "\<not> starts_with (ats n @ s) w" if "w \<in> set white_space" for w
    using trim_fixed_ends(1) [OF assms(1) that] white_space_no_at [OF that]
    by (cases n; cases w) (auto simp: ats_def starts_with_def)
  then have a: "trim_start (ats n @ s) = ats n @ s"
    unfolding trim_start_def by (rule drop_leading_stop)
  have "\<not> starts_with (rev s @ ats n) (rev w)" if "w \<in> set white_space" for w
    using trim_fixed_ends(2) [OF assms(1) that] white_space_no_at [OF that] starts_with_before_ats by auto
  then have "drop_leading m (map rev white_space) (rev s @ ats n) = rev s @ ats n" for m
    by (intro drop_leading_stop) auto
  then have "trim_end (ats n @ s) = ats n @ s" by (simp add: trim_end_def) (simp add: ats_def)
  with a show ?thesis by (simp add: trim_def)
qed

text \<open>
  Being the same principal is symmetric and transitive, and reflexive on every login that names
  somebody; a login that names nobody is never anybody's, not even its own.
\<close>

lemma same_principal_is_partial_equivalence:
  "(same_principal_with_aliases al a b \<longleftrightarrow> same_principal_with_aliases al b a) \<and>
   (same_principal_with_aliases al a a \<longleftrightarrow> normalize_login a \<noteq> []) \<and>
   (same_principal_with_aliases al a b \<and> same_principal_with_aliases al b c \<and>
      \<not> same_principal_with_aliases al a c \<longleftrightarrow> False)"
  by (auto simp: same_principal_with_aliases_def principal_with_aliases_def Let_def split: option.splits)

text \<open>
  Two spellings that differ in the case of ASCII letters and in leading at signs are the same
  principal, whatever aliases the site declares, and a login that the site lists as an alias is the
  principal the first entry that lists it names.
\<close>

lemma spelling_keeps_the_principal:
  assumes "plain_login a" and "plain_login b" and "to_ascii_lowercase a = to_ascii_lowercase b"
  shows "same_principal_with_aliases al (ats m @ a) (ats n @ b) \<and>
    principal_with_aliases al (ats m @ a) = Some
      (case find (\<lambda>p. snd p = to_ascii_lowercase a) (alias_pairs al) of
         Some p \<Rightarrow> fst p | None \<Rightarrow> to_ascii_lowercase a)"
proof -
  have p: "principal_with_aliases al (ats k @ s) = Some (resolve_alias al (to_ascii_lowercase s))"
    if "plain_login s" for k s
  proof -
    have s: "s \<noteq> []" "trim s = s" "hd s \<noteq> CHR ''@''" using that by (auto simp: plain_login_def)
    have "dropWhile (\<lambda>c. c = CHR ''@'') (ats k @ s) = s"
      using s by (induction k) (auto simp: ats_def dropWhile_eq_self_iff)
    then have "normalize_login (ats k @ s) = to_ascii_lowercase s"
      using s by (simp add: normalize_login_def trim_ats)
    moreover have "to_ascii_lowercase s \<noteq> []" using s(1) by (simp add: to_ascii_lowercase_def)
    ultimately show ?thesis by (simp add: principal_with_aliases_def Let_def)
  qed
  show ?thesis
    using p [OF assms(1)] p [OF assms(2)] assms(3)
    by (simp add: same_principal_with_aliases_def resolve_alias_def split: option.splits)
qed

lemma spelling_keeps_the_principal_witness:
  "same_principal_with_aliases (Some ''gatebot=gate-bot,mina'') (ats 1 @ ''Mina'') (ats 0 @ ''mINA'')"
proof -
  have "plain_login ''Mina''" "plain_login ''mINA''" "to_ascii_lowercase ''Mina'' = to_ascii_lowercase ''mINA''"
    by code_simp+
  from spelling_keeps_the_principal [OF this] show ?thesis by blast
qed

end
