(* ===== verification/QueueStore.thy ===== *)
theory QueueStore
  imports QueueTypes Queries Principals
begin

text \<open>
  The merge queue's index and the requests that change or read it
  (\<^verbatim>\<open>crates/jeryu-api/src/web/merge_queue.rs\<close>): loading the entries from the repositories' metadata,
  joining and leaving the queue, recording an audit's score, and the listings.

  A request reads its pull request before it takes the queue's lock, so a join is two operations:
  \<open>enqueue_check\<close> and \<open>enqueue_locked\<close>, between which anything may happen.
\<close>

section \<open>Loading\<close>

definition mark_error :: "string \<times> string \<Rightarrow> meta_error \<Rightarrow> queue_index \<Rightarrow> queue_index" where
  "mark_error key err idx = idx\<lparr>qi_errors := bt_insert key err (qi_errors idx)\<rparr>"

definition has_entries :: "queue_index \<Rightarrow> string \<Rightarrow> string \<Rightarrow> bool" where
  "has_entries idx owner repo \<longleftrightarrow> list_ex (\<lambda>e. fst (fst e) = owner \<and> fst (snd (fst e)) = repo) (qi_entries idx)"

definition replace_entries :: "string \<Rightarrow> string \<Rightarrow> queue_entry list \<Rightarrow> queue_entries \<Rightarrow> queue_entries" where
  "replace_entries owner repo es entries =
     foldl (\<lambda>m e. bt_insert (owner, repo, qe_number e) e m)
       (bt_retain (\<lambda>k _. fst k \<noteq> owner \<or> fst (snd k) \<noteq> repo) entries) es"

definition load_repo :: "'w forge \<Rightarrow> queue_index \<times> 'w \<Rightarrow> string \<times> string \<Rightarrow> queue_index \<times> 'w" where
  "load_repo F s key =
     (case s of (idx, w) \<Rightarrow>
        if key \<in> set (qi_loaded_repos idx) then (idx, w)
        else case fg_open_parts F w (fst key) (snd key) of
               Inl (RepoNotFound t) \<Rightarrow>
                 if has_entries idx (fst key) (snd key) then (mark_error key (NotOpened t) idx, w) else (idx, w)
             | Inl (OpenFailed t) \<Rightarrow> (mark_error key (NotOpened t) idx, w)
             | Inr path \<Rightarrow>
                 (case read_metadata F path w of
                    (w', Inr es) \<Rightarrow>
                      (idx\<lparr>qi_entries := replace_entries (fst key) (snd key) es (qi_entries idx),
                           qi_loaded_repos := List.insert key (qi_loaded_repos idx)\<rparr>, w')
                  | (w', Inl err) \<Rightarrow> (mark_error key err idx, w')))"

definition ensure_loaded :: "'w forge \<Rightarrow> queue_index \<Rightarrow> 'w \<Rightarrow> queue_index \<times> 'w" where
  "ensure_loaded F idx w =
     (if qi_loaded idx then (idx, w)
      else case foldl (load_repo F) (idx\<lparr>qi_errors := []\<rparr>, w) (fg_list_repositories F w) of
             (idx', w') \<Rightarrow> (idx'\<lparr>qi_loaded := qi_errors idx' = []\<rparr>, w'))"

text \<open>What \<^verbatim>\<open>ensure_loaded\<close> returns: the errors it met, unless there are none.\<close>

definition load_result :: "queue_index \<Rightarrow> (string \<times> string, meta_error) btree + unit" where
  "load_result idx = (if qi_loaded idx then Inr () else Inl (qi_errors idx))"

definition ensure_repo_loaded :: "'w forge \<Rightarrow> queue_index \<Rightarrow> 'w \<Rightarrow> string \<Rightarrow> string
    \<Rightarrow> queue_index \<times> 'w \<times> (meta_error + unit)" where
  "ensure_repo_loaded F idx w owner repo =
     (case ensure_loaded F idx w of
        (idx', w') \<Rightarrow>
          (idx', w', case map_of (qi_errors idx') (owner, repo) of Some err \<Rightarrow> Inl err | None \<Rightarrow> Inr ()))"

definition queue_entries_where :: "'w forge \<Rightarrow> queue_index \<Rightarrow> 'w \<Rightarrow> (queue_entry \<Rightarrow> bool)
    \<Rightarrow> queue_index \<times> 'w \<times> queue_entry list" where
  "queue_entries_where F idx w P =
     (case ensure_loaded F idx w of (idx', w') \<Rightarrow> (idx', w', filter P (bt_values (qi_entries idx'))))"

section \<open>Joining and leaving\<close>

datatype queue_answer =
    RepositoryNotFound
  | PermissionDenied
  | PullNotFound
  | BotRefused string
  | NotOpen bool
  | GateBlocked "string list"
  | MetadataError meta_error
  | AlreadyQueued queue_entry
  | BadHead
  | Refused string queue_reason
  | Joined queue_entry
  | Left
  | NotQueued

definition enqueue_check :: "'w forge \<Rightarrow> repository list \<Rightarrow> account_summary \<Rightarrow> bot_principal option
    \<Rightarrow> string \<Rightarrow> nat \<Rightarrow> 'w io \<Rightarrow> 'w io \<times> (queue_answer + repository \<times> pull_request)" where
  "enqueue_check F repositories account by_bot i number io =
     (let w = io_world io in
      case find_repo repositories i of
        None \<Rightarrow> (io, Inl RepositoryNotFound)
      | Some repo \<Rightarrow>
          if \<not> can_write F w account (repo_owner repo) (repo_name repo) then (io, Inl PermissionDenied)
          else case fg_get_pull F w (repo_owner repo) (repo_name repo) number of
                 None \<Rightarrow> (io, Inl PullNotFound)
               | Some pr \<Rightarrow>
                   (case (case by_bot of None \<Rightarrow> None
                          | Some b \<Rightarrow> fg_authorize_bot F w b (repo_owner repo) (repo_name repo) (pr_number pr)
                                        (branch_ref (pr_base_ref pr))) of
                      Some err \<Rightarrow> (io, Inl (BotRefused err))
                    | None \<Rightarrow>
                        if \<not> is_open_pull pr then
                          (if pr_draft pr
                           then (io\<lparr>io_events := io_events io @ [PullSkippedEvent (pr_number pr) ''merge-queue'' ''draft'']\<rparr>,
                                 Inl (NotOpen True))
                           else (io, Inl (NotOpen False)))
                        else (case fg_queue_gate F w pr of
                                (pass, blockers, _) \<Rightarrow>
                                  if \<not> pass then (io, Inl (GateBlocked blockers)) else (io, Inr (repo, pr)))))"

definition new_entry :: "'w forge \<Rightarrow> 'w \<Rightarrow> repository \<Rightarrow> pull_request \<Rightarrow> account_summary \<Rightarrow> bot_principal option
    \<Rightarrow> nat \<Rightarrow> queue_entry" where
  "new_entry F w repo pr account by_bot number =
     \<lparr>qe_repo = repo_owner repo @ ''/'' @ repo_name repo, qe_base = pr_base_ref pr, qe_number = number,
      qe_pr_head_sha = pr_head_sha pr, qe_base_sha = [], qe_queue_ref = queue_ref (pr_base_ref pr) number,
      qe_queue_sha = [], qe_state = Building, qe_enqueued_at = fg_now F w,
      qe_enqueued_by = acct_login account, qe_enqueued_by_bot = by_bot, qe_approvers = approvers F w pr,
      qe_attempts = [], qe_reason = None, qe_refusal_code = None, qe_conflict_paths = [],
      qe_landed_sha = None, qe_after = None, qe_landed_with = None, qe_audited_score_id = None\<rparr>"

text \<open>The last entry queued on the same base, whose commit the new one is built on.\<close>

definition stack_tail :: "queue_entries \<Rightarrow> queue_key \<Rightarrow> string \<Rightarrow> queue_entry option" where
  "stack_tail entries key base =
     max_by_key stack_order (map snd (filter (\<lambda>(k, q).
       fst k = fst key \<and> fst (snd k) = fst (snd key) \<and> number_of k \<noteq> number_of key \<and>
       qe_state q = Building \<and> qe_base q = base \<and> is_sha (qe_queue_sha q)) entries))"

definition build_new :: "'w forge \<Rightarrow> string \<Rightarrow> string \<Rightarrow> queue_entry option \<Rightarrow> queue_entry
    \<Rightarrow> 'w io \<Rightarrow> 'w io \<times> queue_entry \<times> replay_failure option" where
  "build_new F owner repo tail e io =
     (case tail of
        Some q \<Rightarrow>
          let e = e\<lparr>qe_after := Some (qe_number q)\<rparr>
          in (case build_on F owner repo e (qe_queue_sha q) None io of
                (io', Inl f) \<Rightarrow> (io', e, Some f)
              | (io', Inr e') \<Rightarrow> (io', e', None))
      | None \<Rightarrow>
          (case base_tip F owner repo (qe_base e) (io_world io) of
             (w, Inl f) \<Rightarrow> (io\<lparr>io_world := w\<rparr>, e, Some f)
           | (w, Inr tip) \<Rightarrow>
               (case build_on F owner repo e tip None (io\<lparr>io_world := w\<rparr>) of
                  (io', Inl f) \<Rightarrow> (io', e, Some f)
                | (io', Inr e') \<Rightarrow> (io', e', None))))"

fun refusal_code :: "replay_failure \<Rightarrow> string" where
  "refusal_code (Conflict _) = ''queue_conflict''"
| "refusal_code (Mismatch _) = ''queue_mismatch''"
| "refusal_code MergeCommits = ''queue_merge_commits''"
| "refusal_code (Git _) = ''queue_git_error''"

text \<open>
  A conflict with the entry ahead and not with the base: the pull request replays onto the base tip
  by itself, which is tried without keeping the commit.
\<close>

definition conflict_ahead :: "'w forge \<Rightarrow> string \<Rightarrow> string \<Rightarrow> queue_entry \<Rightarrow> replay_failure \<Rightarrow> queue_entry option
    \<Rightarrow> string option \<Rightarrow> 'w \<Rightarrow> 'w \<times> nat option" where
  "conflict_ahead F owner repo e failure tail tip w =
     (case (failure, tail, tip) of
        (Conflict _, Some q, Some t) \<Rightarrow>
          (case fg_open_parts F w owner repo of
             Inl _ \<Rightarrow> (w, None)
           | Inr path \<Rightarrow>
               (case replay (fg_host F) path t (qe_pr_head_sha e) None w of
                  (w', Inl _) \<Rightarrow> (w', None)
                | (w', Inr _) \<Rightarrow> (w', Some (qe_number q))))
      | _ \<Rightarrow> (w, None))"

definition refused_entry :: "'w forge \<Rightarrow> string \<Rightarrow> string \<Rightarrow> queue_entry \<Rightarrow> replay_failure \<Rightarrow> queue_entry option
    \<Rightarrow> 'w \<Rightarrow> 'w \<times> queue_entry \<times> string \<times> queue_reason" where
  "refused_entry F owner repo e failure tail w0 =
     (let (w1, r) = base_tip F owner repo (qe_base e) w0;
          tip = (case r of Inl _ \<Rightarrow> None | Inr t \<Rightarrow> Some t);
          e = (case tip of Some t \<Rightarrow> if is_sha t then e\<lparr>qe_base_sha := t\<rparr> else e | None \<Rightarrow> e);
          e = (case failure of Conflict paths \<Rightarrow> e\<lparr>qe_conflict_paths := take MAX_CONFLICT_PATHS paths\<rparr> | _ \<Rightarrow> e);
          (w2, ahead) = conflict_ahead F owner repo e failure tail tip w1;
          (code, reason) = (case ahead of
             None \<Rightarrow> (refusal_code failure, ReplayRefused failure)
           | Some n \<Rightarrow> (''queue_conflict_queued'', ReplayRefusedQueued failure n (qe_base e)))
      in (w2, e\<lparr>qe_state := Dequeued, qe_reason := Some reason, qe_refusal_code := Some code\<rparr>, code, reason))"

definition enqueue_build :: "'w forge \<Rightarrow> account_summary \<Rightarrow> queue_key \<Rightarrow> queue_entry \<Rightarrow> queue_index \<Rightarrow> 'w io
    \<Rightarrow> queue_index \<times> 'w io \<times> queue_answer" where
  "enqueue_build F account key e idx io =
     (let owner = fst key; repo = fst (snd key) in
      if \<not> is_sha (qe_pr_head_sha e) then (idx, io, BadHead)
      else let tail = stack_tail (qi_entries idx) key (qe_base e) in
        case build_new F owner repo tail e io of
          (io, e, Some failure) \<Rightarrow>
            (case refused_entry F owner repo e failure tail (io_world io) of
               (w, e, code, reason) \<Rightarrow>
                 let io = persist_io F owner repo e (io\<lparr>io_world := w\<rparr>)
                 in (idx\<lparr>qi_entries := bt_insert key e (qi_entries idx)\<rparr>,
                     emit_queue F e ''queue.refused'' (acct_login account) True io, Refused code reason))
        | (io, e, None) \<Rightarrow>
            let io = persist_io F owner repo e io
            in (idx\<lparr>qi_entries := bt_insert key e (qi_entries idx)\<rparr>,
                emit_queue F e ''queue.enqueued'' (acct_login account) False io, Joined e))"

definition enqueue_locked :: "'w forge \<Rightarrow> account_summary \<Rightarrow> bot_principal option \<Rightarrow> nat
    \<Rightarrow> repository \<Rightarrow> pull_request \<Rightarrow> queue_index \<Rightarrow> 'w io \<Rightarrow> queue_index \<times> 'w io \<times> queue_answer" where
  "enqueue_locked F account by_bot number repo pr idx io =
     (let owner = repo_owner repo; name = repo_name repo; key = (owner, name, number) in
      case ensure_repo_loaded F idx (io_world io) owner name of
        (idx, w, Inl err) \<Rightarrow> (idx, io\<lparr>io_world := w\<rparr>, MetadataError err)
      | (idx, w, Inr _) \<Rightarrow>
          let io = io\<lparr>io_world := w\<rparr>; e = new_entry F w repo pr account by_bot number in
          case map_of (qi_entries idx) key of
            Some old \<Rightarrow>
              if qe_state old = Building \<and> qe_pr_head_sha old = pr_head_sha pr
              then (idx, io, AlreadyQueued old)
              else enqueue_build F account key e idx io
          | None \<Rightarrow> enqueue_build F account key e idx io)"

definition enqueue :: "'w forge \<Rightarrow> repository list \<Rightarrow> account_summary \<Rightarrow> bot_principal option \<Rightarrow> string \<Rightarrow> nat
    \<Rightarrow> queue_index \<Rightarrow> 'w io \<Rightarrow> queue_index \<times> 'w io \<times> queue_answer" where
  "enqueue F repositories account by_bot i number idx io =
     (case enqueue_check F repositories account by_bot i number io of
        (io, Inl answer) \<Rightarrow> (idx, io, answer)
      | (io, Inr (repo, pr)) \<Rightarrow> enqueue_locked F account by_bot number repo pr idx io)"

definition dequeue :: "'w forge \<Rightarrow> repository list \<Rightarrow> account_summary \<Rightarrow> string \<Rightarrow> nat
    \<Rightarrow> queue_index \<Rightarrow> 'w io \<Rightarrow> queue_index \<times> 'w io \<times> queue_answer" where
  "dequeue F repositories account i number idx io =
     (case find_repo repositories i of
        None \<Rightarrow> (idx, io, RepositoryNotFound)
      | Some repo \<Rightarrow>
          if \<not> can_write F (io_world io) account (repo_owner repo) (repo_name repo) then (idx, io, PermissionDenied)
          else case ensure_repo_loaded F idx (io_world io) (repo_owner repo) (repo_name repo) of
                 (idx, w, Inl err) \<Rightarrow> (idx, io\<lparr>io_world := w\<rparr>, MetadataError err)
               | (idx, w, Inr _) \<Rightarrow>
                   let io = io\<lparr>io_world := w\<rparr>; key = (repo_owner repo, repo_name repo, number) in
                   case map_of (qi_entries idx) key of
                     Some e \<Rightarrow>
                       if qe_state e = Building then
                         let e = e\<lparr>qe_state := Dequeued, qe_reason := Some (DequeuedBy (acct_login account))\<rparr>;
                             io = persist_io F (repo_owner repo) (repo_name repo) e io
                         in (idx\<lparr>qi_entries := bt_insert key e (qi_entries idx)\<rparr>,
                             emit_queue F e ''queue.dequeued'' (acct_login account) False io, Left)
                       else (idx, io, NotQueued)
                   | None \<Rightarrow> (idx, io, NotQueued))"

section \<open>Scores of audited queue commits\<close>

record jankurai_score =
  sc_id :: string
  sc_owner :: string
  sc_repo :: string
  sc_branch :: string
  sc_commit_sha :: string

definition trusted_queue_scores :: "'w forge \<Rightarrow> string \<Rightarrow> jankurai_score list \<Rightarrow> 'w \<Rightarrow> 'w \<times> jankurai_score list" where
  "trusted_queue_scores F bare scores w =
     (case read_metadata F bare w of
        (w', Inl _) \<Rightarrow> (w', [])
      | (w', Inr entries) \<Rightarrow>
          let receipts = List.map_filter (\<lambda>e. map_option (\<lambda>i. (qe_queue_ref e, qe_queue_sha e, i))
                (qe_audited_score_id e)) entries
          in (w', filter (\<lambda>s. (sc_branch s, sc_commit_sha s, sc_id s) \<in> set receipts) scores))"

datatype score_error =
    ScoreMetadata meta_error
  | EntryChanged
  | ScoreOpen open_error
  | ScoreWrite replay_failure
  | ScoreEncode

definition is_scored :: "jankurai_score \<Rightarrow> queue_entry \<Rightarrow> bool" where
  "is_scored s e \<longleftrightarrow> qe_repo e = sc_owner s @ ''/'' @ sc_repo s \<and> qe_queue_ref e = sc_branch s \<and>
     qe_queue_sha e = sc_commit_sha s"

definition record_queue_score :: "'w forge \<Rightarrow> jankurai_score \<Rightarrow> queue_index \<Rightarrow> 'w
    \<Rightarrow> queue_index \<times> 'w \<times> (score_error + unit)" where
  "record_queue_score F s idx w =
     (if \<not> starts_with (sc_branch s) ''refs/queue/'' then (idx, w, Inr ())
      else case ensure_repo_loaded F idx w (sc_owner s) (sc_repo s) of
        (idx, w, Inl err) \<Rightarrow> (idx, w, Inl (ScoreMetadata err))
      | (idx, w, Inr _) \<Rightarrow>
          (case find (\<lambda>ke. is_scored s (snd ke)) (qi_entries idx) of
             None \<Rightarrow> (idx, w, Inl EntryChanged)
           | Some (key, e) \<Rightarrow>
               let recorded = e\<lparr>qe_audited_score_id := Some (sc_id s)\<rparr> in
               case fg_open_parts F w (sc_owner s) (sc_repo s) of
                 Inl err \<Rightarrow> (idx, w, Inl (ScoreOpen err))
               | Inr path \<Rightarrow>
                   (case fg_to_json F recorded of
                      None \<Rightarrow> (idx, w, Inl ScoreEncode)
                    | Some json \<Rightarrow>
                        (case write_blob_ref (fg_host F) path (meta_ref (qe_base e) (qe_number e)) json w of
                           (w', Inl f) \<Rightarrow> (idx, w', Inl (ScoreWrite f))
                         | (w', Inr _) \<Rightarrow>
                             (idx\<lparr>qi_entries := bt_insert key recorded (qi_entries idx)\<rparr>, w', Inr ())))))"

definition NO_COMMIT_BASE_OID :: string where
  "NO_COMMIT_BASE_OID = ''4b825dc642cb6eb9a060e54bf8d69288fbee4904''"

datatype audit_error =
    AuditOpen string
  | AuditMetadata meta_error
  | AuditCommit nat
  | AuditGit replay_failure
  | AuditPull nat

text \<open>One entry after the other; \<open>Some n\<close> is the pull request the login authored.\<close>

fun authored_loop :: "'w forge \<Rightarrow> string option \<Rightarrow> string \<Rightarrow> string \<Rightarrow> string \<Rightarrow> string \<Rightarrow> string list option \<Rightarrow> string
    \<Rightarrow> queue_entry list \<Rightarrow> ('w, audit_error, nat option) op" where
  "authored_loop F aliases owner repo path head in_diff login [] = yield (Inr None)"
| "authored_loop F aliases owner repo path head in_diff login (e # es) = (\<lambda>w.
     if qe_state e = Dequeued \<and> qe_queue_sha e = [] then authored_loop F aliases owner repo path head in_diff login es w
     else if \<not> is_sha (qe_queue_sha e) then (w, Inl (AuditCommit (qe_number e)))
     else case (if qe_state e = Building then try_is_ancestor (fg_host F) path (qe_queue_sha e) head w
                else (w, Inr False)) of
            (w', Inl f) \<Rightarrow> (w', Inl (AuditGit f))
          | (w', Inr live_ancestor) \<Rightarrow>
              if \<not> (case in_diff of Some listed \<Rightarrow> qe_queue_sha e \<in> set listed | None \<Rightarrow> live_ancestor)
              then authored_loop F aliases owner repo path head in_diff login es w'
              else (case fg_get_pull F w' owner repo (qe_number e) of
                      None \<Rightarrow> (w', Inl (AuditPull (qe_number e)))
                    | Some pr \<Rightarrow>
                        if same_principal_with_aliases aliases (pr_author pr) login
                        then (w', Inr (Some (qe_number e)))
                        else authored_loop F aliases owner repo path head in_diff login es w'))"

definition authored_audit :: "'w forge \<Rightarrow> string option \<Rightarrow> string \<Rightarrow> string \<Rightarrow> string \<Rightarrow> string \<Rightarrow> string
    \<Rightarrow> ('w, audit_error, nat option) op" where
  "authored_audit F aliases owner repo head diff_base login w =
     (if \<not> is_sha head then (w, Inr None)
      else case fg_open_parts F w owner repo of
             Inl (RepoNotFound _) \<Rightarrow> (w, Inr None)
           | Inl (OpenFailed t) \<Rightarrow> (w, Inl (AuditOpen t))
           | Inr path \<Rightarrow>
               (case read_metadata F path w of
                  (w1, Inl err) \<Rightarrow> (w1, Inl (AuditMetadata err))
                | (w1, Inr entries) \<Rightarrow>
                    if \<not> list_ex (\<lambda>e. qe_state e = Building \<and> qe_queue_sha e = head) entries
                    then (w1, Inr None)
                    else let (w2, in_diff) =
                           (if is_sha diff_base \<and> diff_base \<noteq> NO_COMMIT_BASE_OID
                            then (case run (fg_host F) path [''rev-list'', ''--end-of-options'', diff_base @ ''..'' @ head] w1 of
                                    (w2, Inl _) \<Rightarrow> (w2, None)
                                  | (w2, Inr listing) \<Rightarrow> (w2, Some (lines listing)))
                            else (w1, None))
                         in authored_loop F aliases owner repo path head in_diff login entries w2))"

section \<open>Listings\<close>

definition EVERY_STATE :: string where
  "EVERY_STATE = ''all''"

record queue_list_query =
  ql_state :: "string option"
  ql_paging :: page_params

definition queue_list_check :: "queue_list_query \<Rightarrow> bool" where
  "queue_list_check q = filter_one_of (ql_state q) (state_names @ [EVERY_STATE])"

datatype list_answer =
    PageRefused page_error
  | ListMetadataErrors "(string \<times> string, meta_error) btree"
  | ListMetadataError meta_error
  | ListNotFound
  | Listed "queue_entry list" page_info
  | ListedStarted "(queue_entry \<times> time option option) list" page_info
  | ListPanic

definition queue_page :: "page \<Rightarrow> queue_entry list \<Rightarrow> list_answer" where
  "queue_page pg entries =
     (case page_apply pg entries of None \<Rightarrow> ListPanic | Some (rows, info) \<Rightarrow> Listed rows info)"

definition wanted_state :: "queue_list_query \<Rightarrow> string" where
  "wanted_state q =
     (case map_option trim (ql_state q) of
        None \<Rightarrow> state_name Building
      | Some s \<Rightarrow> if s = [] then state_name Building else s)"

definition may_list :: "'w forge \<Rightarrow> 'w \<Rightarrow> account_summary \<Rightarrow> queue_entry \<Rightarrow> bool" where
  "may_list F w account e =
     (case split_once (CHR ''/'') (qe_repo e) of
        None \<Rightarrow> False
      | Some (owner, nm) \<Rightarrow> acct_admin account \<or> fg_can_read F w (acct_login account) owner nm)"

definition list_all_queues :: "'w forge \<Rightarrow> account_summary \<Rightarrow> queue_list_query \<Rightarrow> queue_index \<Rightarrow> 'w
    \<Rightarrow> queue_index \<times> 'w \<times> list_answer" where
  "list_all_queues F account q idx w =
     (case page_resolve (ql_paging q) of
        Inl err \<Rightarrow> (idx, w, PageRefused err)
      | Inr pg \<Rightarrow>
          (case ensure_loaded F idx w of
             (idx, w) \<Rightarrow>
               (case load_result idx of
                  Inl errs \<Rightarrow> (idx, w, ListMetadataErrors errs)
                | Inr _ \<Rightarrow>
                    (case queue_entries_where F idx w (\<lambda>e.
                            (wanted_state q = EVERY_STATE \<or> state_name (qe_state e) = wanted_state q) \<and>
                            may_list F w account e) of
                       (idx, w, es) \<Rightarrow> (idx, w, queue_page pg es)))))"

text \<open>A queued entry is listed with when its gate first reported, which may be never.\<close>

definition with_gate_started_at :: "'w forge \<Rightarrow> 'w \<Rightarrow> string \<Rightarrow> string \<Rightarrow> queue_entry \<Rightarrow> queue_entry \<times> time option option" where
  "with_gate_started_at F w owner repo e =
     (e, if qe_state e \<noteq> Building then None
         else Some (case fg_parse_time F (qe_enqueued_at e) of
                      None \<Rightarrow> None
                    | Some enqueued \<Rightarrow>
                        (case fg_get_pull F w owner repo (qe_number e) of
                           None \<Rightarrow> None
                         | Some pr \<Rightarrow>
                             gate_started_at (fg_combined_status F w owner repo (qe_queue_sha e))
                               (fg_check_runs F w owner repo (qe_queue_sha e)) (fg_required_contexts F w pr) enqueued)))"

definition list_repo_queue :: "'w forge \<Rightarrow> repository list \<Rightarrow> string \<Rightarrow> page_params \<Rightarrow> queue_index \<Rightarrow> 'w
    \<Rightarrow> queue_index \<times> 'w \<times> list_answer" where
  "list_repo_queue F repositories i paging idx w =
     (case page_resolve paging of
        Inl err \<Rightarrow> (idx, w, PageRefused err)
      | Inr pg \<Rightarrow>
          (case find_repo repositories i of
             None \<Rightarrow> (idx, w, ListNotFound)
           | Some repo \<Rightarrow>
               (case ensure_repo_loaded F idx w (repo_owner repo) (repo_name repo) of
                  (idx, w, Inl err) \<Rightarrow> (idx, w, ListMetadataError err)
                | (idx, w, Inr _) \<Rightarrow>
                    (case queue_entries_where F idx w
                            (\<lambda>e. qe_repo e = repo_owner repo @ ''/'' @ repo_name repo) of
                       (idx, w, es) \<Rightarrow>
                         (idx, w, case page_apply pg es of
                            None \<Rightarrow> ListPanic
                          | Some (rows, info) \<Rightarrow>
                              ListedStarted (map (with_gate_started_at F w (repo_owner repo) (repo_name repo)) rows) info)))))"

section \<open>What loading leaves and replaces\<close>

lemma load_repo_cases:
  obtains (skip) "load_repo F (idx, w) key = (idx, w)"
  | (failed) err w' where "key \<notin> set (qi_loaded_repos idx)" "load_repo F (idx, w) key = (mark_error key err idx, w')"
  | (loaded) path es w' where "key \<notin> set (qi_loaded_repos idx)" "read_metadata F path w = (w', Inr es)"
      "load_repo F (idx, w) key =
        (idx\<lparr>qi_entries := replace_entries (fst key) (snd key) es (qi_entries idx),
             qi_loaded_repos := List.insert key (qi_loaded_repos idx)\<rparr>, w')"
proof (cases "key \<in> set (qi_loaded_repos idx)")
  case True
  then show ?thesis using skip by (simp add: load_repo_def)
next
  case False
  show ?thesis
  proof (cases "fg_open_parts F w (fst key) (snd key)")
    case (Inl err)
    show ?thesis
    proof (cases "(\<exists>t. err = RepoNotFound t) \<and> \<not> has_entries idx (fst key) (snd key)")
      case True
      then show ?thesis using False Inl by (intro skip) (auto simp: load_repo_def)
    next
      case refused: False
      show ?thesis
        by (rule failed [of "NotOpened (open_error_text err)" w])
          (use refused False Inl in \<open>cases err; auto simp: load_repo_def\<close>)+
    qed
  next
    case (Inr path)
    obtain w' r where "read_metadata F path w = (w', r)" by fastforce
    then show ?thesis using False Inr failed loaded by (cases r) (auto simp: load_repo_def)
  qed
qed

lemma replace_entries_other:
  "fst k \<noteq> owner \<or> fst (snd k) \<noteq> repo \<Longrightarrow> map_of (replace_entries owner repo es m) k = map_of m k"
proof -
  assume k: "fst k \<noteq> owner \<or> fst (snd k) \<noteq> repo"
  have "map_of (foldl (\<lambda>m e. bt_insert (owner, repo, qe_number e) e m) n es) k = map_of n k" for n
    using k by (induction es arbitrary: n) (auto simp: map_of_bt_insert)
  moreover have "map_of (bt_retain (\<lambda>k _. fst k \<noteq> owner \<or> fst (snd k) \<noteq> repo) m) k = map_of m k"
    using k by (induction m) (auto simp: bt_retain_def)
  ultimately show ?thesis by (simp add: replace_entries_def)
qed

lemma replace_entries_wf: "bt_wf m \<Longrightarrow> bt_wf (replace_entries owner repo es m)"
proof -
  have "bt_wf n \<Longrightarrow> bt_wf (foldl (\<lambda>m e. bt_insert (owner, repo, qe_number e) e m) n es)" for n :: queue_entries
    by (induction es arbitrary: n) auto
  then show "bt_wf m \<Longrightarrow> ?thesis" by (auto simp: replace_entries_def)
qed

lemma replace_entries_Some:
  assumes "bt_wf m" "map_of (replace_entries owner repo es m) k = Some e"
  shows "map_of m k = Some e \<and> (fst k \<noteq> owner \<or> fst (snd k) \<noteq> repo) \<or> e \<in> set es \<and> k = (owner, repo, qe_number e)"
proof -
  have "map_of (foldl (\<lambda>m e. bt_insert (owner, repo, qe_number e) e m) n es) k = Some e \<Longrightarrow>
      map_of n k = Some e \<or> e \<in> set es \<and> k = (owner, repo, qe_number e)" for n
  proof (induction es arbitrary: n)
    case (Cons a es)
    from Cons.IH [OF Cons.prems [unfolded foldl_Cons]] show ?case by (auto simp: map_of_bt_insert split: if_splits)
  qed simp
  from this [OF assms(2) [unfolded replace_entries_def]] show ?thesis
    using assms(1) by (auto simp: map_of_bt_retain split: option.splits if_splits)
qed

text \<open>While the repositories are read one after the other, what is known of the ones read so far.\<close>

definition load_inv :: "queue_index \<Rightarrow> (string \<times> string) set \<Rightarrow> queue_index \<Rightarrow> bool" where
  "load_inv idx0 seen idx \<longleftrightarrow>
     (\<forall>key. map_of (qi_errors idx) key \<noteq> None \<longrightarrow> key \<in> seen \<and> key \<notin> set (qi_loaded_repos idx)) \<and>
     (\<forall>owner repo n. map_of (qi_errors idx) (owner, repo) \<noteq> None \<or> (owner, repo) \<notin> seen \<longrightarrow>
        map_of (qi_entries idx) (owner, repo, n) = map_of (qi_entries idx0) (owner, repo, n)) \<and>
     (\<forall>key. key \<notin> seen \<longrightarrow> key \<in> set (qi_loaded_repos idx) \<longleftrightarrow> key \<in> set (qi_loaded_repos idx0))"

lemma load_repo_inv:
  assumes "load_inv idx0 seen idx" "key \<notin> seen" "load_repo F (idx, w) key = (idx', w')"
  shows "load_inv idx0 (insert key seen) idx'"
proof (cases rule: load_repo_cases [of F idx w key])
  case skip
  then show ?thesis using assms by (auto simp: load_inv_def)
next
  case (failed err v)
  then have "idx' = mark_error key err idx" using assms(3) by simp
  then show ?thesis using assms(1,2) failed(1) by (auto simp: load_inv_def mark_error_def map_of_bt_insert)
next
  case (loaded path es v)
  then have idx': "idx' = idx\<lparr>qi_entries := replace_entries (fst key) (snd key) es (qi_entries idx),
      qi_loaded_repos := List.insert key (qi_loaded_repos idx)\<rparr>" using assms(3) by simp
  have other: "map_of (qi_entries idx') (owner, repo, n) = map_of (qi_entries idx) (owner, repo, n)"
    if "(owner, repo) \<noteq> key" for owner repo n
    unfolding idx' using that by (simp add: replace_entries_other prod_eq_iff)
  have clear: "map_of (qi_errors idx) key = None" using assms(1,2) by (auto simp: load_inv_def)
  have rest: "qi_errors idx' = qi_errors idx" "set (qi_loaded_repos idx') = insert key (set (qi_loaded_repos idx))"
    using idx' by simp_all
  show ?thesis
    unfolding load_inv_def rest
  proof (intro conjI allI impI)
    fix owner repo n assume a: "map_of (qi_errors idx) (owner, repo) \<noteq> None \<or> (owner, repo) \<notin> insert key seen"
    then have "(owner, repo) \<noteq> key" using clear by auto
    then show "map_of (qi_entries idx') (owner, repo, n) = map_of (qi_entries idx0) (owner, repo, n)"
      using other a assms(1) by (auto simp: load_inv_def)
  qed (use assms(1) clear in \<open>auto simp: load_inv_def\<close>)
qed

lemma load_all_inv:
  "load_inv idx0 seen idx \<Longrightarrow> distinct keys \<Longrightarrow> seen \<inter> set keys = {} \<Longrightarrow>
   foldl (load_repo F) (idx, w) keys = (idx', w') \<Longrightarrow> load_inv idx0 (seen \<union> set keys) idx'"
proof (induction keys arbitrary: seen idx w)
  case (Cons key keys)
  obtain idx1 w1 where l: "load_repo F (idx, w) key = (idx1, w1)" by fastforce
  have "load_inv idx0 (insert key seen) idx1" by (rule load_repo_inv [OF Cons.prems(1) _ l]) (use Cons.prems(3) in auto)
  from Cons.IH [OF this] show ?case using Cons.prems l by auto
qed simp

text \<open>
  C29. A repository whose metadata cannot be read keeps the entries it had, is not marked as loaded and
  keeps the whole index from being so: the next use of the queue reads it again, and until then a
  request for it is refused with the error instead of answered from an empty queue.
\<close>

theorem unreadable_repository_keeps_its_entries:
  assumes "distinct (fg_list_repositories F w)" "\<not> qi_loaded idx"
    and "ensure_repo_loaded F idx w owner repo = (idx', w', Inl err)"
  shows "\<not> qi_loaded idx' \<and> (owner, repo) \<notin> set (qi_loaded_repos idx') \<and>
    (\<forall>n. map_of (qi_entries idx') (owner, repo, n) = map_of (qi_entries idx) (owner, repo, n))"
proof -
  obtain idx1 w1 where f: "foldl (load_repo F) (idx\<lparr>qi_errors := []\<rparr>, w) (fg_list_repositories F w) = (idx1, w1)"
    by fastforce
  have idx': "idx' = idx1\<lparr>qi_loaded := qi_errors idx1 = []\<rparr>" "map_of (qi_errors idx1) (owner, repo) = Some err"
    using assms(2,3) f by (auto simp: ensure_repo_loaded_def ensure_loaded_def split: option.splits)
  have "load_inv idx {} (idx\<lparr>qi_errors := []\<rparr>)" by (simp add: load_inv_def)
  from load_all_inv [OF this assms(1) _ f] idx'(2) have
    "(owner, repo) \<notin> set (qi_loaded_repos idx1)"
    "map_of (qi_entries idx1) (owner, repo, n) = map_of (qi_entries idx) (owner, repo, n)" for n
    by (auto simp: load_inv_def)
  then show ?thesis using idx' by auto
qed

lemma load_repo_wf: "bt_wf (qi_entries (fst s)) \<Longrightarrow> bt_wf (qi_entries (fst (load_repo F s key)))"
  by (cases s, cases rule: load_repo_cases [of F "fst s" "snd s" key])
    (auto simp: mark_error_def intro: replace_entries_wf)

lemma ensure_loaded_wf: "bt_wf (qi_entries idx) \<Longrightarrow> bt_wf (qi_entries (fst (ensure_loaded F idx w)))"
proof -
  have "bt_wf (qi_entries (fst s)) \<Longrightarrow> bt_wf (qi_entries (fst (foldl (load_repo F) s keys)))" for s keys
  proof (induction keys arbitrary: s)
    case (Cons key keys)
    from Cons.IH [OF load_repo_wf [OF Cons.prems]] show ?case by simp
  qed simp
  from this [of "(idx\<lparr>qi_errors := []\<rparr>, w)" "fg_list_repositories F w"] show "bt_wf (qi_entries idx) \<Longrightarrow> ?thesis"
    by (auto simp: ensure_loaded_def split: prod.splits)
qed

section \<open>Joining\<close>

lemma build_on_built:
  "build_on F owner repo e parent after io = (io', Inr e') \<Longrightarrow> \<exists>q at. e' = built parent q at e"
  by (auto simp: build_on_def split: sum.splits prod.splits)

lemma build_new_built:
  assumes "build_new F owner repo tail e io = (io', e', None)"
  shows "\<exists>q at. case tail of
      Some t \<Rightarrow> e' = built (qe_queue_sha t) q at (e\<lparr>qe_after := Some (qe_number t)\<rparr>)
    | None \<Rightarrow> \<exists>w tip. snd (base_tip F owner repo (qe_base e) w) = Inr tip \<and> e' = built tip q at e"
proof (cases tail)
  case (Some t)
  let ?e = "e\<lparr>qe_after := Some (qe_number t)\<rparr>"
  obtain io1 r where b: "build_on F owner repo ?e (qe_queue_sha t) None io = (io1, r)" by fastforce
  then have "r = Inr e'" using assms Some by (cases r) (simp_all add: build_new_def Let_def)
  from build_on_built [OF b [unfolded this]] show ?thesis unfolding Some option.case .
next
  case None
  obtain w r where b: "base_tip F owner repo (qe_base e) (io_world io) = (w, r)" by fastforce
  then obtain tip where tip: "r = Inr tip" using assms None by (cases r) (simp_all add: build_new_def)
  obtain io1 x where o: "build_on F owner repo e tip None (io\<lparr>io_world := w\<rparr>) = (io1, x)" by fastforce
  then have x: "x = Inr e'" using b tip assms None by (cases x) (simp_all add: build_new_def)
  obtain q at where "e' = built tip q at e" using build_on_built [OF o [unfolded x]] by blast
  moreover have "snd (base_tip F owner repo (qe_base e) (io_world io)) = Inr tip" using b tip by simp
  ultimately show ?thesis unfolding None option.case by blast
qed

lemma build_new_failed:
  assumes "build_new F owner repo tail e io = (io', e', Some f)"
  shows "e' = e \<or> (\<exists>n. e' = e\<lparr>qe_after := Some n\<rparr>)"
proof (cases tail)
  case (Some t)
  let ?e = "e\<lparr>qe_after := Some (qe_number t)\<rparr>"
  obtain io1 r where "build_on F owner repo ?e (qe_queue_sha t) None io = (io1, r)" by fastforce
  then show ?thesis using assms Some by (cases r) (auto simp: build_new_def Let_def)
next
  case None
  obtain w r where b: "base_tip F owner repo (qe_base e) (io_world io) = (w, r)" by fastforce
  show ?thesis
  proof (cases r)
    case (Inl f)
    then show ?thesis using assms None b by (simp add: build_new_def)
  next
    case (Inr tip)
    obtain io1 x where "build_on F owner repo e tip None (io\<lparr>io_world := w\<rparr>) = (io1, x)" by fastforce
    then show ?thesis using assms None b Inr by (cases x) (simp_all add: build_new_def)
  qed
qed

lemma refused_entry_facts:
  assumes "refused_entry F owner repo e failure tail w = (w', e', code, reason)"
  shows "qe_state e' = Dequeued \<and> qe_reason e' = Some reason \<and> qe_refusal_code e' = Some code \<and>
    qe_pr_head_sha e' = qe_pr_head_sha e \<and> qe_number e' = qe_number e \<and> qe_attempts e' = qe_attempts e \<and>
    qe_queue_ref e' = qe_queue_ref e \<and> qe_base e' = qe_base e \<and>
    (qe_conflict_paths e = [] \<longrightarrow> length (qe_conflict_paths e') \<le> MAX_CONFLICT_PATHS)"
proof -
  have "e' = (let (w1, r) = base_tip F owner repo (qe_base e) w;
          tip = (case r of Inl _ \<Rightarrow> None | Inr t \<Rightarrow> Some t);
          e = (case tip of Some t \<Rightarrow> if is_sha t then e\<lparr>qe_base_sha := t\<rparr> else e | None \<Rightarrow> e);
          e = (case failure of Conflict paths \<Rightarrow> e\<lparr>qe_conflict_paths := take MAX_CONFLICT_PATHS paths\<rparr> | _ \<Rightarrow> e)
      in e\<lparr>qe_state := Dequeued, qe_reason := Some reason, qe_refusal_code := Some code\<rparr>)"
    using assms by (auto simp: refused_entry_def Let_def split: prod.splits)
  then show ?thesis
    by (auto simp: Let_def split: prod.splits sum.splits replay_failure.splits option.splits)
qed

lemma new_entry_fields [simp]:
  "qe_state (new_entry F w repo pr account by_bot n) = Building" "qe_attempts (new_entry F w repo pr account by_bot n) = []"
  "qe_queue_ref (new_entry F w repo pr account by_bot n) = queue_ref (pr_base_ref pr) n"
  "qe_base (new_entry F w repo pr account by_bot n) = pr_base_ref pr" "qe_number (new_entry F w repo pr account by_bot n) = n"
  "qe_pr_head_sha (new_entry F w repo pr account by_bot n) = pr_head_sha pr"
  "qe_after (new_entry F w repo pr account by_bot n) = None" "qe_conflict_paths (new_entry F w repo pr account by_bot n) = []"
  by (simp_all add: new_entry_def)

text \<open>What a join leaves in the index, by its answer.\<close>

definition joined :: "'w forge \<Rightarrow> queue_entries \<Rightarrow> queue_key \<Rightarrow> pull_request \<Rightarrow> queue_answer \<Rightarrow> queue_entries \<Rightarrow> bool" where
  "joined F m key pr answer m' \<longleftrightarrow>
     (case answer of
        Joined e \<Rightarrow> m' = bt_insert key e m \<and> entry_ok e \<and> qe_state e = Building \<and> qe_pr_head_sha e = pr_head_sha pr \<and>
          qe_base e = pr_base_ref pr \<and> qe_number e = number_of key \<and>
          (case stack_tail m key (pr_base_ref pr) of
             Some t \<Rightarrow> qe_after e = Some (qe_number t) \<and> qe_base_sha e = qe_queue_sha t
           | None \<Rightarrow> qe_after e = None \<and>
               (\<exists>w. snd (base_tip F (fst key) (fst (snd key)) (pr_base_ref pr) w) = Inr (qe_base_sha e)))
      | Refused code reason \<Rightarrow> (\<exists>e. m' = bt_insert key e m \<and> entry_ok e \<and> qe_state e = Dequeued \<and>
          qe_pr_head_sha e = pr_head_sha pr \<and> qe_reason e = Some reason \<and> qe_refusal_code e = Some code \<and>
          qe_number e = number_of key \<and> length (qe_conflict_paths e) \<le> MAX_CONFLICT_PATHS)
      | _ \<Rightarrow> m' = m)"

lemma enqueue_build_joined:
  assumes "enqueue_build F account (owner, repo, n) e idx io = (idx', io', answer)"
    and e: "e = new_entry F w rp pr account by_bot n"
  shows "joined F (qi_entries idx) (owner, repo, n) pr answer (qi_entries idx') \<and>
    qi_errors idx' = qi_errors idx \<and> qi_loaded idx' = qi_loaded idx"
proof (cases "is_sha (qe_pr_head_sha e)")
  case False
  then show ?thesis using assms(1) by (auto simp: enqueue_build_def joined_def)
next
  case True
  let ?tail = "stack_tail (qi_entries idx) (owner, repo, n) (qe_base e)"
  obtain io1 e1 r where b: "build_new F owner repo ?tail e io = (io1, e1, r)" by (metis prod_cases3)
  show ?thesis
  proof (cases r)
    case None
    from build_new_built [OF b [unfolded None]] obtain q at where
      e1: "case ?tail of
        Some t \<Rightarrow> e1 = built (qe_queue_sha t) q at (e\<lparr>qe_after := Some (qe_number t)\<rparr>)
      | None \<Rightarrow> \<exists>w tip. snd (base_tip F owner repo (qe_base e) w) = Inr tip \<and> e1 = built tip q at e" by blast
    have "idx' = idx\<lparr>qi_entries := bt_insert (owner, repo, n) e1 (qi_entries idx)\<rparr>" "answer = Joined e1"
      using assms(1) True b None by (auto simp: enqueue_build_def Let_def)
    then show ?thesis
      using e1 e by (auto simp: joined_def built_def entry_ok_def red_count_def MAX_ATTEMPTS_def is_red_def number_of_def
        split: option.splits)
  next
    case (Some f)
    obtain w2 e2 code reason where r: "refused_entry F owner repo e1 f ?tail (io_world io1) = (w2, e2, code, reason)"
      by (metis prod_cases4)
    have "idx' = idx\<lparr>qi_entries := bt_insert (owner, repo, n) e2 (qi_entries idx)\<rparr>" "answer = Refused code reason"
      using assms(1) True b Some r by (auto simp: enqueue_build_def Let_def)
    then show ?thesis
      using refused_entry_facts [OF r] build_new_failed [OF b [unfolded Some]] e
      by (auto simp: joined_def entry_ok_def red_count_def number_of_def)
  qed
qed


section \<open>Examples\<close>

lemma read_metadata_none: "read_metadata ex_forge bare w = (w, Inr [])"
proof -
  have "lines (trim_end []) = []" by code_simp
  then show ?thesis
    by (simp add: read_metadata_def try_read_blob_refs_def ex_forge_def ex_refs_host_def then_do_def run_def run_in_def
        run_in_env_def ex_refs_git_def git_success_def listed_refs_def Let_def map_filter_simps)
qed

definition ex_index :: queue_index where
  "ex_index = index_default\<lparr>qi_entries := [((''o'', ''r'', 1), ex_entry 1)]\<rparr>"

theorem unreadable_repository_keeps_its_entries_witness:
  "let F = ex_forge\<lparr>fg_open_parts := \<lambda>_ _ _. Inl (OpenFailed ''disk'')\<rparr>;
       idx' = fst (ensure_repo_loaded F ex_index [] ''o'' ''r'')
   in \<not> qi_loaded idx' \<and> map_of (qi_entries idx') (''o'', ''r'', 1) = Some (ex_entry 1)"
proof -
  let ?F = "ex_forge\<lparr>fg_open_parts := \<lambda>_ _ _. Inl (OpenFailed ''disk'')\<rparr>"
  have d: "distinct (fg_list_repositories ?F [])" by (simp add: ex_forge_def)
  have n: "\<not> qi_loaded ex_index" by (simp add: ex_index_def index_default_def)
  obtain idx' w' where r: "ensure_repo_loaded ?F ex_index [] ''o'' ''r'' = (idx', w', Inl (NotOpened ''disk''))"
    by (simp add: ensure_repo_loaded_def ensure_loaded_def load_repo_def ex_index_def index_default_def ex_forge_def
        mark_error_def)
  have "map_of (qi_entries ex_index) (''o'', ''r'', 1) = Some (ex_entry 1)" by (simp add: ex_index_def)
  with unreadable_repository_keeps_its_entries [OF d n r] show ?thesis by (simp only: r Let_def fst_conv simp_thms)
qed

definition ex_io :: "(string \<times> string) list io" where
  "ex_io = \<lparr>io_wanted = signals_default, io_events = [], io_world = ex_refs\<rparr>"

definition ex_repository :: repository where
  "ex_repository = \<lparr>repo_id = ''1'', repo_owner = ''o'', repo_name = ''r'', repo_full_name = ''o/r'',
     repo_default_branch = ''main''\<rparr>"

definition ex_join :: "queue_index \<times> (string \<times> string) list io \<times> queue_answer" where
  "ex_join = enqueue_locked ex_forge \<lparr>acct_login = ''ann'', acct_admin = False\<rparr> None 1 ex_repository (ex_pull 1)
     index_default ex_io"


end
