(* ===== verification/QueueLanding.thy ===== *)
theory QueueLanding
  imports QueueTypes
begin

text \<open>
  Landing a stack of queue commits with one gate:
  \<^verbatim>\<open>crates/jeryu-api/src/github/pulls.rs\<close>, \<^verbatim>\<open>land_queued_batch\<close>. A \<open>lander\<close> is what it calls: the
  core's readiness and record of a merge, the ref service of the git backend, and what runs after the
  ref moved (the push bridge, the mirror, the clean-up of merged heads). The reads are functions of the
  outside state; the operations that change it return the new one.
\<close>

section \<open>The parts\<close>

datatype merge_readiness =
    Ready string string string string bool
  | AlreadyMergedAt string

datatype forge_error = StorageError string | OtherError string

datatype member_problem = Merged string | NotReady string | Unreadable string

datatype land_refusal = BaseMoved string | Blocked string | Member nat member_problem

record batch_landing =
  bl_tip :: string
  bl_unrecorded :: "(nat \<times> string) list"

record queued_landing =
  ql_bot :: "bot_principal option"
  ql_number :: nat
  ql_pr_head :: string
  ql_queue_sha :: string

record ready_member =
  rm_member :: queued_landing
  rm_base_ref :: string
  rm_base_sha :: string
  rm_head_ref :: string
  rm_head_sha :: string
  rm_linear :: bool

record merge_call =
  mc_path :: string
  mc_actor :: string
  mc_base_name :: string
  mc_base_oid :: string
  mc_head :: string
  mc_message :: string
  mc_fast_forward :: bool

record 'w lander =
  ld_backend :: bool
  ld_readiness :: "'w \<Rightarrow> string \<Rightarrow> string \<Rightarrow> nat \<Rightarrow> string \<Rightarrow> forge_error + merge_readiness"
  ld_resolve_parts :: "'w \<Rightarrow> string \<Rightarrow> string \<Rightarrow> string + string"
  ld_resolve_commit :: "'w \<Rightarrow> string \<Rightarrow> string \<Rightarrow> string + string option"
  ld_is_ancestor :: "'w \<Rightarrow> string \<Rightarrow> string \<Rightarrow> string \<Rightarrow> bool"
  ld_merge_pull :: "'w \<Rightarrow> merge_call \<Rightarrow> 'w \<times> (string + string)"
  ld_on_push :: "'w \<Rightarrow> string \<Rightarrow> string \<Rightarrow> ref_update \<Rightarrow> 'w"
  ld_finalize_merge :: "'w \<Rightarrow> string \<Rightarrow> string \<Rightarrow> nat \<Rightarrow> string \<Rightarrow> string \<Rightarrow> string \<times> string \<Rightarrow> 'w \<times> (string + unit)"
  ld_mirror :: "'w \<Rightarrow> string \<Rightarrow> ready_member \<Rightarrow> string \<Rightarrow> string \<Rightarrow> 'w"
  ld_delete_head :: "'w \<Rightarrow> string \<Rightarrow> ready_member \<Rightarrow> string \<Rightarrow> string \<Rightarrow> 'w"

section \<open>The landing\<close>

fun collect_ready :: "'w lander \<Rightarrow> 'w \<Rightarrow> string \<Rightarrow> string \<Rightarrow> queued_landing list \<Rightarrow> land_refusal + ready_member list" where
  "collect_ready L w owner repo [] = Inr []"
| "collect_ready L w owner repo (m # ms) =
     (case ld_readiness L w owner repo (ql_number m) (ql_pr_head m) of
        Inr (Ready base_ref base_sha head_ref head_sha linear) \<Rightarrow>
          and_then (collect_ready L w owner repo ms) (\<lambda>rs.
            Inr (\<lparr>rm_member = m, rm_base_ref = base_ref, rm_base_sha = base_sha, rm_head_ref = head_ref,
                  rm_head_sha = head_sha, rm_linear = linear\<rparr> # rs))
      | Inr (AlreadyMergedAt sha) \<Rightarrow> Inl (Member (ql_number m) (Merged sha))
      | Inl (StorageError err) \<Rightarrow> Inl (Member (ql_number m) (Unreadable err))
      | Inl (OtherError err) \<Rightarrow> Inl (Member (ql_number m) (NotReady err)))"

definition bot_check :: "'w forge \<Rightarrow> 'w \<Rightarrow> string \<Rightarrow> string \<Rightarrow> ready_member \<Rightarrow> land_refusal + unit" where
  "bot_check F w owner repo r =
     (case ql_bot (rm_member r) of
        None \<Rightarrow> Inr ()
      | Some call \<Rightarrow>
          (case fg_authorize_bot F w call owner repo (ql_number (rm_member r)) (branch_ref (rm_base_ref r)) of
             None \<Rightarrow> Inr ()
           | Some err \<Rightarrow> Inl (Member (ql_number (rm_member r)) (NotReady err))))"

definition same_base :: "string \<Rightarrow> ready_member \<Rightarrow> land_refusal + unit" where
  "same_base base_ref r =
     ensure (rm_base_ref r = base_ref)
       (Member (ql_number (rm_member r))
         (NotReady (''#'' @ show_nat (ql_number (rm_member r)) @ '' does not target '' @ base_ref)))"

definition below_top :: "'w lander \<Rightarrow> 'w \<Rightarrow> string \<Rightarrow> queued_landing \<Rightarrow> queued_landing \<Rightarrow> land_refusal + unit" where
  "below_top L w path topm m =
     ensure (ld_is_ancestor L w path (ql_queue_sha m) (ql_queue_sha topm))
       (Member (ql_number m) (NotReady (''#'' @ show_nat (ql_number m) @ '''s queue commit '' @ ql_queue_sha m @
          '' is not below #'' @ show_nat (ql_number topm) @ '''s '' @ ql_queue_sha topm)))"

definition merge_message :: "nat \<Rightarrow> string option \<Rightarrow> string option \<Rightarrow> string" where
  "merge_message number commit_title commit_message =
     (let part = (\<lambda>t. case t of None \<Rightarrow> [] | Some s \<Rightarrow> if trim s = [] then [] else [byte 10, byte 10] @ trim s)
      in ''Merge pull request #'' @ show_nat number @ part commit_title @ part commit_message)"

definition pull_source_repository :: "'w forge \<Rightarrow> 'w \<Rightarrow> string \<Rightarrow> string \<Rightarrow> nat \<Rightarrow> string" where
  "pull_source_repository F w owner repo number =
     (case fg_get_pull F w owner repo number of
        Some pr \<Rightarrow> pr_source_repository pr
      | None \<Rightarrow> owner @ ''/'' @ repo)"

text \<open>Everything that is read and may refuse before the ref moves.\<close>

definition land_checks :: "'w forge \<Rightarrow> 'w lander \<Rightarrow> string \<Rightarrow> string \<Rightarrow> queued_landing list \<Rightarrow> string \<Rightarrow> 'w
    \<Rightarrow> land_refusal + ready_member list \<times> string \<times> string \<times> string" where
  "land_checks F L owner repo members expected_base w =
     (if members = [] then Inl (Blocked ''nothing to land'')
      else if \<not> ld_backend L then Inl (Blocked ''no git backend is wired'')
      else let topm = last members in
       and_then (collect_ready L w owner repo members) (\<lambda>ready.
       and_then (first_err (map (bot_check F w owner repo) ready)) (\<lambda>_.
       let base_ref = rm_base_ref (hd ready); base_name = branch_ref base_ref in
       and_then (first_err (map (same_base base_ref) ready)) (\<lambda>_.
       and_then (map_failure Blocked (ld_resolve_parts L w owner repo)) (\<lambda>path.
       and_then (map_failure Blocked (ld_resolve_commit L w path base_name)) (\<lambda>oid.
       case oid of
         None \<Rightarrow> Inl (Blocked (base_name @ '' does not resolve''))
       | Some base_oid \<Rightarrow>
           if base_oid \<noteq> expected_base then Inl (BaseMoved base_oid)
           else if \<not> ld_is_ancestor L w path base_oid (ql_queue_sha topm)
           then Inl (Blocked (base_name @ '' at '' @ base_oid @ '' is not below #'' @ show_nat (ql_number topm) @
                  '''s queue commit '' @ ql_queue_sha topm))
           else and_then (first_err (map (below_top L w path topm) (butlast members))) (\<lambda>_.
                Inr (ready, path, base_name, base_oid))))))))"

fun finalize_all :: "'w lander \<Rightarrow> string \<Rightarrow> string \<Rightarrow> nat \<Rightarrow> string \<Rightarrow> ready_member list \<Rightarrow> 'w \<Rightarrow> 'w \<times> (nat \<times> string) list" where
  "finalize_all L owner repo topm merge_oid [] w = (w, [])"
| "finalize_all L owner repo topm merge_oid (r # rs) w =
     (let m = rm_member r;
          merged_at = (if ql_number m = topm then merge_oid else ql_queue_sha m);
          (w1, result) = ld_finalize_merge L w owner repo (ql_number m) merged_at (ql_pr_head m)
                           (rm_base_ref r, rm_base_sha r);
          (w2, rest) = finalize_all L owner repo topm merge_oid rs w1
      in (w2, (case result of Inl err \<Rightarrow> [(ql_number m, err)] | Inr _ \<Rightarrow> []) @ rest))"

fun clean_up :: "'w forge \<Rightarrow> 'w lander \<Rightarrow> string \<Rightarrow> string \<Rightarrow> string \<Rightarrow> bool \<Rightarrow> string \<Rightarrow> ready_member list \<Rightarrow> 'w \<Rightarrow> 'w" where
  "clean_up F L owner repo path mirrored merge_oid [] w = w"
| "clean_up F L owner repo path mirrored merge_oid (r # rs) w =
     (let source = pull_source_repository F w owner repo (ql_number (rm_member r));
          w = (if mirrored then w else ld_mirror L w path r source merge_oid);
          w = ld_delete_head L w path r source (ql_pr_head (rm_member r))
      in clean_up F L owner repo path True merge_oid rs w)"

definition land_queued_batch :: "'w forge \<Rightarrow> 'w lander \<Rightarrow> string \<Rightarrow> string \<Rightarrow> queued_landing list \<Rightarrow> string
    \<Rightarrow> ('w, land_refusal, batch_landing) op" where
  "land_queued_batch F L owner repo members expected_base w =
     (case land_checks F L owner repo members expected_base w of
        Inl refusal \<Rightarrow> (w, Inl refusal)
      | Inr (ready, path, base_name, base_oid) \<Rightarrow>
          let topm = last members in
          case ld_merge_pull L w \<lparr>mc_path = path, mc_actor = ''system:merge-queue'', mc_base_name = base_name,
                 mc_base_oid = base_oid, mc_head = ql_queue_sha topm,
                 mc_message = merge_message (ql_number topm) None None, mc_fast_forward = True\<rparr> of
            (w1, Inl err) \<Rightarrow> (w1, Inl (Blocked err))
          | (w1, Inr merge_oid) \<Rightarrow>
              let w2 = ld_on_push L w1 owner repo
                    \<lparr>ru_ref_name = base_name, ru_old_oid = base_oid, ru_new_oid = merge_oid\<rparr>;
                  (w3, unrecorded) = finalize_all L owner repo (ql_number topm) merge_oid ready w2
              in (clean_up F L owner repo path False merge_oid ready w3, Inr \<lparr>bl_tip = merge_oid, bl_unrecorded = unrecorded\<rparr>))"

section \<open>Nothing lands that is not ready\<close>

lemma collect_ready_Inr:
  "collect_ready L w owner repo ms = Inr rs \<Longrightarrow> map rm_member rs = ms \<and>
     (\<forall>r \<in> set rs. ld_readiness L w owner repo (ql_number (rm_member r)) (ql_pr_head (rm_member r)) =
        Inr (Ready (rm_base_ref r) (rm_base_sha r) (rm_head_ref r) (rm_head_sha r) (rm_linear r)))"
  by (induction ms arbitrary: rs)
    (auto simp: and_then_Inr_iff split: sum.splits merge_readiness.splits forge_error.splits)

lemma first_err_Inr_all: "first_err (map f xs) = Inr u \<Longrightarrow> x \<in> set xs \<Longrightarrow> f x = Inr ()"
  by (induction xs) auto

text \<open>What holds when every check passed, for the members of a landing.\<close>

definition landable :: "'w forge \<Rightarrow> 'w lander \<Rightarrow> string \<Rightarrow> string \<Rightarrow> queued_landing list \<Rightarrow> string \<Rightarrow> 'w \<Rightarrow> string \<Rightarrow> string \<Rightarrow> bool" where
  "landable F L owner repo members expected_base w path base_ref \<longleftrightarrow>
     members \<noteq> [] \<and> ld_resolve_commit L w path (branch_ref base_ref) = Inr (Some expected_base) \<and>
     ld_is_ancestor L w path expected_base (ql_queue_sha (last members)) \<and>
     (\<forall>m \<in> set (butlast members). ld_is_ancestor L w path (ql_queue_sha m) (ql_queue_sha (last members))) \<and>
     (\<forall>m \<in> set members.
        (\<exists>base_sha head_ref head_sha linear.
           ld_readiness L w owner repo (ql_number m) (ql_pr_head m) =
             Inr (Ready base_ref base_sha head_ref head_sha linear)) \<and>
        (\<forall>call. ql_bot m = Some call \<longrightarrow>
           fg_authorize_bot F w call owner repo (ql_number m) (branch_ref base_ref) = None))"

lemma land_checks_parts:
  assumes "land_checks F L owner repo members expected_base w = Inr (ready, path, base_name, base_oid)"
  shows "members \<noteq> []" "collect_ready L w owner repo members = Inr ready"
    "first_err (map (bot_check F w owner repo) ready) = Inr ()"
    "first_err (map (same_base (rm_base_ref (hd ready))) ready) = Inr ()"
    "ld_resolve_commit L w path (branch_ref (rm_base_ref (hd ready))) = Inr (Some expected_base)"
    "base_oid = expected_base" "base_name = branch_ref (rm_base_ref (hd ready))"
    "ld_is_ancestor L w path expected_base (ql_queue_sha (last members))"
    "first_err (map (below_top L w path (last members)) (butlast members)) = Inr ()"
proof -
  have ne: "members \<noteq> []" "ld_backend L" using assms by (auto simp: land_checks_def split: if_splits)
  obtain rs where c: "collect_ready L w owner repo members = Inr rs"
    using assms ne by (cases "collect_ready L w owner repo members") (simp_all add: land_checks_def Let_def)
  have bots: "first_err (map (bot_check F w owner repo) rs) = Inr ()"
    using assms ne c by (cases "first_err (map (bot_check F w owner repo) rs)") (simp_all add: land_checks_def Let_def)
  have same: "first_err (map (same_base (rm_base_ref (hd rs))) rs) = Inr ()"
    using assms ne c bots
    by (cases "first_err (map (same_base (rm_base_ref (hd rs))) rs)") (simp_all add: land_checks_def Let_def)
  obtain p where p: "ld_resolve_parts L w owner repo = Inr p"
    using assms ne c bots same by (cases "ld_resolve_parts L w owner repo") (simp_all add: land_checks_def Let_def)
  obtain oid where oid: "ld_resolve_commit L w p (branch_ref (rm_base_ref (hd rs))) = Inr oid"
    using assms ne c bots same p
    by (cases "ld_resolve_commit L w p (branch_ref (rm_base_ref (hd rs)))") (simp_all add: land_checks_def Let_def)
  obtain b where b: "oid = Some b" "b = expected_base" "ld_is_ancestor L w p b (ql_queue_sha (last members))"
    using assms ne c bots same p oid by (cases oid) (auto simp: land_checks_def Let_def split: if_splits)
  have below: "first_err (map (below_top L w p (last members)) (butlast members)) = Inr ()"
    using assms ne c bots same p oid b
    by (cases "first_err (map (below_top L w p (last members)) (butlast members))") (simp_all add: land_checks_def Let_def)
  have eq: "rs = ready" "p = path" "b = base_oid" "base_name = branch_ref (rm_base_ref (hd rs))"
    using assms ne c bots same p oid b below by (auto simp: land_checks_def Let_def)
  show "members \<noteq> []" "collect_ready L w owner repo members = Inr ready"
    "first_err (map (bot_check F w owner repo) ready) = Inr ()"
    "first_err (map (same_base (rm_base_ref (hd ready))) ready) = Inr ()"
    "ld_resolve_commit L w path (branch_ref (rm_base_ref (hd ready))) = Inr (Some expected_base)"
    "base_oid = expected_base" "base_name = branch_ref (rm_base_ref (hd ready))"
    "ld_is_ancestor L w path expected_base (ql_queue_sha (last members))"
    "first_err (map (below_top L w path (last members)) (butlast members)) = Inr ()"
    using ne c bots same oid b below eq by simp_all
qed

lemma land_checks_Inr:
  assumes "land_checks F L owner repo members expected_base w = Inr (ready, path, base_name, base_oid)"
  shows "\<exists>base_ref. base_name = branch_ref base_ref \<and> base_oid = expected_base \<and>
    map rm_member ready = members \<and> (\<forall>r \<in> set ready. rm_base_ref r = base_ref) \<and> landable F L owner repo members expected_base w path base_ref"
proof -
  let ?ref = "rm_base_ref (hd ready)"
  note parts = land_checks_parts [OF assms]
  note ne = parts(1) and c = parts(2) and bots = parts(3) and same = parts(4) and oid = parts(5)
    and eq = parts(6,7) and anc = parts(8) and below = parts(9)
  note r = collect_ready_Inr [OF c]
  have member: "(\<exists>base_sha head_ref head_sha linear.
        ld_readiness L w owner repo (ql_number m) (ql_pr_head m) = Inr (Ready ?ref base_sha head_ref head_sha linear)) \<and>
      (\<forall>call. ql_bot m = Some call \<longrightarrow> fg_authorize_bot F w call owner repo (ql_number m) (branch_ref ?ref) = None)"
    if "m \<in> set members" for m
  proof -
    have "m \<in> rm_member ` set ready" using that r by (simp flip: list.set_map)
    then obtain x where x: "x \<in> set ready" "rm_member x = m" by blast
    have "rm_base_ref x = ?ref" using first_err_Inr_all [OF same x(1)] by (simp add: same_base_def)
    moreover have "bot_check F w owner repo x = Inr ()" by (rule first_err_Inr_all [OF bots x(1)])
    ultimately show ?thesis using r x by (auto simp: bot_check_def split: option.splits)
  qed
  have "ld_is_ancestor L w path (ql_queue_sha m) (ql_queue_sha (last members))" if "m \<in> set (butlast members)" for m
    using first_err_Inr_all [OF below that] by (simp add: below_top_def)
  moreover have "\<forall>r \<in> set ready. rm_base_ref r = ?ref"
    using first_err_Inr_all [OF same] by (auto simp: same_base_def)
  ultimately have "landable F L owner repo members expected_base w path ?ref"
    using ne oid anc eq(1) member unfolding landable_def by blast
  with eq r \<open>\<forall>r \<in> set ready. rm_base_ref r = ?ref\<close> show ?thesis by blast
qed

text \<open>The one call that moves the base.\<close>

definition landing_call :: "string \<Rightarrow> string \<Rightarrow> queued_landing list \<Rightarrow> string \<Rightarrow> merge_call" where
  "landing_call path base_ref members expected_base =
     \<lparr>mc_path = path, mc_actor = ''system:merge-queue'', mc_base_name = branch_ref base_ref,
      mc_base_oid = expected_base, mc_head = ql_queue_sha (last members),
      mc_message = merge_message (ql_number (last members)) None None, mc_fast_forward = True\<rparr>"

lemma land_cases:
  obtains (refused) r where "land_queued_batch F L owner repo members expected_base w = (w, Inl r)"
  | (blocked) path base_ref w1 err where "landable F L owner repo members expected_base w path base_ref"
      "ld_merge_pull L w (landing_call path base_ref members expected_base) = (w1, Inl err)"
      "land_queued_batch F L owner repo members expected_base w = (w1, Inl (Blocked err))"
  | (landed) path base_ref w1 oid ready w3 unrecorded where
      "landable F L owner repo members expected_base w path base_ref" "map rm_member ready = members"
      "\<forall>r \<in> set ready. rm_base_ref r = base_ref"
      "ld_merge_pull L w (landing_call path base_ref members expected_base) = (w1, Inr oid)"
      "finalize_all L owner repo (ql_number (last members)) oid ready
         (ld_on_push L w1 owner repo \<lparr>ru_ref_name = branch_ref base_ref, ru_old_oid = expected_base,
            ru_new_oid = oid\<rparr>) = (w3, unrecorded)"
      "land_queued_batch F L owner repo members expected_base w =
         (clean_up F L owner repo path False oid ready w3, Inr \<lparr>bl_tip = oid, bl_unrecorded = unrecorded\<rparr>)"
proof (cases "land_checks F L owner repo members expected_base w")
  case (Inl r)
  then show ?thesis using refused by (simp add: land_queued_batch_def)
next
  case (Inr x)
  obtain ready path base_name base_oid where x: "x = (ready, path, base_name, base_oid)" by (cases x)
  obtain base_ref where b: "base_name = branch_ref base_ref" "base_oid = expected_base"
    "map rm_member ready = members" "\<forall>r \<in> set ready. rm_base_ref r = base_ref"
    "landable F L owner repo members expected_base w path base_ref"
    using land_checks_Inr [OF Inr [unfolded x]] by blast
  obtain w1 res where m: "ld_merge_pull L w (landing_call path base_ref members expected_base) = (w1, res)"
    by fastforce
  show ?thesis
  proof (cases res)
    case (Inl err)
    with Inr x b m show ?thesis
      by (intro blocked [of path base_ref w1 err]) (simp_all add: land_queued_batch_def landing_call_def)
  next
    case (Inr oid)
    obtain w3 u where f: "finalize_all L owner repo (ql_number (last members)) oid ready
         (ld_on_push L w1 owner repo \<lparr>ru_ref_name = branch_ref base_ref, ru_old_oid = expected_base,
            ru_new_oid = oid\<rparr>) = (w3, u)"
      by fastforce
    from \<open>land_checks F L owner repo members expected_base w = Inr x\<close> Inr x b m f show ?thesis
      by (intro landed [of path base_ref ready w1 oid w3 u]) (simp_all add: land_queued_batch_def landing_call_def Let_def)
  qed
qed

text \<open>
  C10. A landing happens only when every member passes its merge gate at its own head and targets the
  same base, every bot among them may still write it, the base is where the stack was built, and it
  and every member's commit are below the top's; the ref is then moved by one compare-and-swap from
  that base to the top's commit. A refusal for a member or a moved base has changed nothing.
\<close>

theorem landing_needs_every_member_ready:
  assumes "land_queued_batch F L owner repo members expected_base w = (w', result)"
  shows "case result of
      Inr landing \<Rightarrow> (\<exists>path base_ref w1. landable F L owner repo members expected_base w path base_ref \<and>
        ld_merge_pull L w (landing_call path base_ref members expected_base) = (w1, Inr (bl_tip landing)))
    | Inl (Blocked _) \<Rightarrow> w' = w \<or>
        (\<exists>path base_ref. w' = fst (ld_merge_pull L w (landing_call path base_ref members expected_base)))
    | Inl _ \<Rightarrow> w' = w"
proof (cases rule: land_cases [of F L owner repo members expected_base w])
  case (refused r)
  with assms show ?thesis by (auto split: land_refusal.splits)
next
  case (blocked path base_ref w1 err)
  then have "w1 = fst (ld_merge_pull L w (landing_call path base_ref members expected_base))" by simp
  moreover have "result = Inl (Blocked err)" "w' = w1" using assms blocked(3) by simp_all
  ultimately show ?thesis by (simp only: sum.case land_refusal.case) metis
next
  case (landed path base_ref w1 oid ready w3 unrecorded)
  then have "result = Inr \<lparr>bl_tip = oid, bl_unrecorded = unrecorded\<rparr>" using assms by simp
  with landed(1,4) show ?thesis by (simp only: sum.case batch_landing.simps) blast
qed

section \<open>The base moves once\<close>

text \<open>
  What the ref service documents, for a reading \<open>tip\<close> of the branches: a merge that answers has moved
  its branch from the commit it was given to the one it answers, which is the head itself for a
  fast-forward; one that fails leaves every branch, and what runs after the move leaves the base.
\<close>

definition documented_refs :: "'w lander \<Rightarrow> ('w \<Rightarrow> string \<times> string \<Rightarrow> string option) \<Rightarrow> bool" where
  "documented_refs L tip \<longleftrightarrow>
     (\<forall>w c w' oid. ld_merge_pull L w c = (w', Inr oid) \<longrightarrow>
        tip w (mc_path c, mc_base_name c) = Some (mc_base_oid c) \<and>
        (mc_fast_forward c \<longrightarrow> oid = mc_head c) \<and>
        tip w' = (tip w)((mc_path c, mc_base_name c) \<mapsto> oid)) \<and>
     (\<forall>w c w' err. ld_merge_pull L w c = (w', Inl err) \<longrightarrow> tip w' = tip w) \<and>
     (\<forall>w owner repo u. tip (ld_on_push L w owner repo u) = tip w) \<and>
     (\<forall>w owner repo n at head base. tip (fst (ld_finalize_merge L w owner repo n at head base)) = tip w) \<and>
     (\<forall>w path r src oid. tip (ld_mirror L w path r src oid) = tip w) \<and>
     (\<forall>w path r src head. tip (ld_delete_head L w path r src head) (path, branch_ref (rm_base_ref r)) =
        tip w (path, branch_ref (rm_base_ref r)))"

lemma tip_finalize_all:
  "documented_refs L tip \<Longrightarrow> tip (fst (finalize_all L owner repo n oid rs w)) = tip w"
proof (induction rs arbitrary: w)
  case Nil
  show ?case by simp
next
  case (Cons r rs)
  obtain w1 res where "ld_finalize_merge L w owner repo (ql_number (rm_member r))
      (if ql_number (rm_member r) = n then oid else ql_queue_sha (rm_member r)) (ql_pr_head (rm_member r))
      (rm_base_ref r, rm_base_sha r) = (w1, res)"
    by fastforce
  moreover from this have "tip w1 = tip w"
    using Cons.prems unfolding documented_refs_def by (metis fst_conv)
  ultimately show ?case using Cons.IH [OF Cons.prems, of w1] by (simp add: Let_def split_beta)
qed

lemma tip_clean_up:
  assumes "documented_refs L tip" "\<forall>r \<in> set rs. rm_base_ref r = base"
  shows "tip (clean_up F L owner repo path mirrored oid rs w) (path, branch_ref base) = tip w (path, branch_ref base)"
  using assms(2)
proof (induction rs arbitrary: w mirrored)
  case Nil
  show ?case by simp
next
  case (Cons r rs)
  have "tip (ld_delete_head L v path r src h) (path, branch_ref base) = tip v (path, branch_ref base)" for v src h
    using assms(1) Cons.prems unfolding documented_refs_def by auto
  moreover have "tip (ld_mirror L w path r src oid) = tip w" for src using assms(1) by (simp add: documented_refs_def)
  ultimately show ?case using Cons by (simp add: Let_def)
qed

lemma landing_tips:
  assumes "documented_refs L tip"
    and "land_queued_batch F L owner repo members expected_base w = (w', Inr landing)"
  shows "\<exists>path base_ref. landable F L owner repo members expected_base w path base_ref \<and>
    tip w (path, branch_ref base_ref) = Some expected_base \<and>
    tip w' (path, branch_ref base_ref) = Some (ql_queue_sha (last members)) \<and>
    bl_tip landing = ql_queue_sha (last members)"
proof (cases rule: land_cases [of F L owner repo members expected_base w])
  case (landed path base_ref w1 oid ready w3 unrecorded)
  let ?b = "(path, branch_ref base_ref)"
  have t: "tip w ?b = Some expected_base" "oid = ql_queue_sha (last members)" "tip w1 = (tip w)(?b \<mapsto> oid)"
    using assms(1) landed(4) unfolding documented_refs_def by (fastforce simp: landing_call_def)+
  have "tip w3 = tip (ld_on_push L w1 owner repo \<lparr>ru_ref_name = branch_ref base_ref, ru_old_oid = expected_base,
            ru_new_oid = oid\<rparr>)"
    using tip_finalize_all [OF assms(1)] landed(5) by (metis fst_conv)
  also have "\<dots> = tip w1" using assms(1) by (simp add: documented_refs_def)
  finally have t3: "tip w3 ?b = Some oid" using t(3) by simp
  have "tip (clean_up F L owner repo path False oid ready w3) ?b = Some oid"
    using tip_clean_up [OF assms(1) landed(3)] t3 by simp
  moreover have "landing = \<lparr>bl_tip = oid, bl_unrecorded = unrecorded\<rparr>" "w' = clean_up F L owner repo path False oid ready w3"
    using assms(2) landed(6) by simp_all
  ultimately show ?thesis using landed(1) t by auto
qed (use assms(2) in simp_all)

text \<open>
  C9. With a ref service that keeps its promise, a landing moves the base from the commit the stack
  was built on to the top's gated commit and nowhere else, and a refusal leaves it where it was.
\<close>

theorem landing_moves_the_base_once:
  assumes "documented_refs L tip"
    and "land_queued_batch F L owner repo members expected_base w = (w', result)"
  shows "case result of
      Inr landing \<Rightarrow> (\<exists>path base_ref. landable F L owner repo members expected_base w path base_ref \<and>
        tip w (path, branch_ref base_ref) = Some expected_base \<and>
        tip w' (path, branch_ref base_ref) = Some (ql_queue_sha (last members)) \<and>
        bl_tip landing = ql_queue_sha (last members))
    | Inl _ \<Rightarrow> tip w' = tip w"
proof (cases result)
  case (Inr landing)
  then show ?thesis using landing_tips [OF assms(1)] assms(2) by simp
next
  case (Inl refusal)
  show ?thesis
  proof (cases rule: land_cases [of F L owner repo members expected_base w])
    case (blocked path base_ref w1 err)
    then have "tip w1 = tip w" using assms(1) unfolding documented_refs_def by metis
    then show ?thesis using assms(2) blocked(3) Inl by simp
  qed (use assms(2) Inl in auto)
qed

section \<open>Examples\<close>

definition ex_lander :: "(string \<times> string) list lander" where
  "ex_lander = \<lparr>ld_backend = True,
     ld_readiness = (\<lambda>_ _ _ n head. Inr (Ready ''main'' (ex_oid 0) ''topic'' head False)),
     ld_resolve_parts = (\<lambda>_ _ _. Inr ''/r''), ld_resolve_commit = (\<lambda>w _ nm. Inr (map_of w nm)),
     ld_is_ancestor = (\<lambda>_ _ _ _. True),
     ld_merge_pull = (\<lambda>w c. if mc_path c = ''/r'' \<and> map_of w (mc_base_name c) = Some (mc_base_oid c)
       then ((mc_base_name c, mc_head c) # w, Inr (mc_head c)) else (w, Inl ''moved'')),
     ld_on_push = (\<lambda>w _ _ _. w), ld_finalize_merge = (\<lambda>w _ _ _ _ _ _. (w, Inr ())),
     ld_mirror = (\<lambda>w _ _ _ _. w), ld_delete_head = (\<lambda>w _ _ _ _. w)\<rparr>"

definition ex_tip :: "(string \<times> string) list \<Rightarrow> string \<times> string \<Rightarrow> string option" where
  "ex_tip w b = (if fst b = ''/r'' then map_of w (snd b) else None)"

definition ex_member :: "nat \<Rightarrow> queued_landing" where
  "ex_member n = \<lparr>ql_bot = None, ql_number = n, ql_pr_head = ex_oid n, ql_queue_sha = ex_oid n\<rparr>"

lemma ex_landing_run:
  "land_queued_batch ex_forge ex_lander ''o'' ''r'' [ex_member 1, ex_member 2] (ex_oid 0) ex_refs =
     ((branch_ref ''main'', ex_oid 2) # ex_refs, Inr \<lparr>bl_tip = ex_oid 2, bl_unrecorded = []\<rparr>)"
  by code_simp

theorem landing_needs_every_member_ready_witness:
  "\<exists>path base_ref. landable ex_forge ex_lander ''o'' ''r'' [ex_member 1, ex_member 2] (ex_oid 0) ex_refs path base_ref"
  using landing_needs_every_member_ready [OF ex_landing_run] by auto

lemma ex_documented_refs: "documented_refs ex_lander ex_tip"
  by (auto simp: documented_refs_def ex_lander_def ex_tip_def fun_eq_iff split: if_splits)

theorem landing_moves_the_base_once_witness:
  "ex_tip ((branch_ref ''main'', ex_oid 2) # ex_refs) (''/r'', branch_ref ''main'') = Some (ex_oid 2) \<and>
   (\<exists>path base_ref. ex_tip ex_refs (path, branch_ref base_ref) = Some (ex_oid 0))"
proof -
  from landing_moves_the_base_once [OF ex_documented_refs ex_landing_run]
  obtain path base_ref where "ex_tip ex_refs (path, branch_ref base_ref) = Some (ex_oid 0)"
    by (simp only: sum.case) blast
  moreover have "ex_tip ((branch_ref ''main'', ex_oid 2) # ex_refs) (''/r'', branch_ref ''main'') = Some (ex_oid 2)"
    by (simp add: ex_tip_def)
  ultimately show ?thesis by blast
qed

end
