(* ===== verification/QueueTick.thy ===== *)
theory QueueTick
  imports QueueStore QueueLanding
begin

text \<open>
  The pass over the merge queue (\<^verbatim>\<open>crates/jeryu-api/src/web/merge_queue.rs\<close>): \<open>tick\<close> takes the queued
  entries of every base as one stack, drops what may no longer land, makes the stack a chain again,
  lands the highest entry whose gate covers everything below it, and retries or fails the lowest one
  when its gate is red. A loop over keys that changes the entries it finds is \<open>for_entries\<close>.
\<close>

section \<open>One entry\<close>

fun for_entries :: "('x \<Rightarrow> queue_entry \<Rightarrow> 's \<Rightarrow> 's \<times> queue_entry) \<Rightarrow> ('x \<Rightarrow> queue_key) \<Rightarrow> 'x list
    \<Rightarrow> queue_entries \<Rightarrow> 's \<Rightarrow> queue_entries \<times> 's" where
  "for_entries f key [] m s = (m, s)"
| "for_entries f key (x # xs) m s =
     (case map_of m (key x) of
        None \<Rightarrow> for_entries f key xs m s
      | Some e \<Rightarrow> (case f x e s of (s', e') \<Rightarrow> for_entries f key xs (bt_insert (key x) e' m) s'))"

definition gate_result :: "'w forge \<Rightarrow> 'w \<Rightarrow> string \<Rightarrow> string \<Rightarrow> string \<Rightarrow> string list \<Rightarrow> bool option" where
  "gate_result F w owner repo sha required =
     gate_verdict (fg_combined_status F w owner repo sha) (fg_check_runs F w owner repo sha) required"

definition still_queued :: "'w forge \<Rightarrow> string \<Rightarrow> string \<Rightarrow> queue_entry \<Rightarrow> 'w io
    \<Rightarrow> 'w io \<times> queue_entry \<times> string list option" where
  "still_queued F owner repo e io =
     (case fg_get_pull F (io_world io) owner repo (qe_number e) of
        None \<Rightarrow> (io, e, None)
      | Some pr \<Rightarrow>
          if \<not> is_open_pull pr then
            let e = e\<lparr>qe_state := Dequeued, qe_reason := Some NoLongerOpen\<rparr>;
                io = persist_io F owner repo e io
            in (emit_queue F e ''queue.dequeued'' ''merge-queue'' False io, e, None)
          else if pr_head_sha pr \<noteq> qe_pr_head_sha e then
            let (io, e) = finish F owner repo e Dequeued (HeadMoved (pr_head_sha pr)) io in (io, e, None)
          else (case fg_queue_gate F (io_world io) pr of
                  (pass, blockers, required) \<Rightarrow>
                    if \<not> pass then
                      let (io, e) = finish F owner repo e Failed (GateNotPassed blockers) io in (io, e, None)
                    else (io, e, Some required)))"

definition conclude :: "string \<Rightarrow> attempt list \<Rightarrow> attempt list" where
  "conclude c tried = (if tried = [] then [] else butlast tried @ [(last tried)\<lparr>at_conclusion := Some c\<rparr>])"

text \<open>The replaced attempt decided nothing, and earlier replaced ones are dropped.\<close>

definition supersede :: "attempt list \<Rightarrow> attempt list" where
  "supersede tried =
     (let kept = filter (\<lambda>a. at_conclusion a \<noteq> Some SUPERSEDED) tried
      in if kept \<noteq> [] \<and> at_conclusion (last kept) = None then conclude SUPERSEDED kept else kept)"

definition restack_entry :: "'w forge \<Rightarrow> string \<Rightarrow> string \<Rightarrow> queue_entry \<Rightarrow> string \<times> nat option \<times> 'w io
    \<Rightarrow> (string \<times> nat option \<times> 'w io) \<times> queue_entry" where
  "restack_entry F owner repo e s =
     (case s of (parent, after, io) \<Rightarrow>
        if qe_state e \<noteq> Building then ((parent, after, io), e)
        else if qe_base_sha e \<noteq> parent \<or> \<not> is_sha (qe_queue_sha e) then
          let e = e\<lparr>qe_attempts := supersede (qe_attempts e)\<rparr> in
          (case build_on F owner repo e parent None io of
             (io, Inl failure) \<Rightarrow>
               let (io, e) = finish F owner repo e Dequeued (ReplayRefused failure) io in ((parent, after, io), e)
           | (io, Inr e) \<Rightarrow>
               let e = e\<lparr>qe_after := after\<rparr>;
                   io = persist_io F owner repo e io;
                   io = emit_queue F e ''queue.building'' ''merge-queue'' False io
               in ((qe_queue_sha e, Some (qe_number e), io), e))
        else if qe_after e \<noteq> after then
          let e = e\<lparr>qe_after := after\<rparr>
          in ((qe_queue_sha e, Some (qe_number e), persist_io F owner repo e io), e)
        else ((qe_queue_sha e, Some (qe_number e), io), e))"

definition restack :: "'w forge \<Rightarrow> string \<Rightarrow> string \<Rightarrow> string \<Rightarrow> queue_key list \<Rightarrow> queue_entries \<Rightarrow> 'w io
    \<Rightarrow> queue_entries \<times> 'w io" where
  "restack F owner repo base stack entries io =
     (case base_tip F owner repo base (io_world io) of
        (w, Inl _) \<Rightarrow> (entries, io\<lparr>io_world := w\<rparr>)
      | (w, Inr tip) \<Rightarrow>
          (case for_entries (\<lambda>_. restack_entry F owner repo) id stack entries (tip, None, io\<lparr>io_world := w\<rparr>) of
             (entries, _, _, io) \<Rightarrow> (entries, io)))"

definition retry_build :: "'w forge \<Rightarrow> string \<Rightarrow> string \<Rightarrow> queue_entry \<Rightarrow> 'w io
    \<Rightarrow> 'w io \<times> (replay_failure + queue_entry)" where
  "retry_build F owner repo e io =
     (case fg_open_parts F (io_world io) owner repo of
        Inl err \<Rightarrow> (io, Inl (Git (open_error_text err)))
      | Inr path \<Rightarrow>
          (case committer_time (fg_host F) path (qe_queue_sha e) (io_world io) of
             (w, Inl f) \<Rightarrow> (io\<lparr>io_world := w\<rparr>, Inl f)
           | (w, Inr previous) \<Rightarrow>
               build_on F owner repo e (qe_base_sha e) (Some previous) (io\<lparr>io_world := w\<rparr>)))"

definition retry_or_fail :: "'w forge \<Rightarrow> string \<Rightarrow> string \<Rightarrow> queue_entry \<Rightarrow> 'w io \<Rightarrow> 'w io \<times> queue_entry" where
  "retry_or_fail F owner repo e io =
     (let e = e\<lparr>qe_attempts := conclude ''failure'' (qe_attempts e)\<rparr>;
          red = length (filter is_red (qe_attempts e))
      in if red < MAX_ATTEMPTS \<and> qe_queue_sha e \<noteq> qe_pr_head_sha e then
           (case retry_build F owner repo e io of
              (io, Inl failure) \<Rightarrow> finish F owner repo e Dequeued (ReplayRefused failure) io
            | (io, Inr e) \<Rightarrow>
                (emit_queue F e ''queue.building'' ''merge-queue'' False (persist_io F owner repo e io), e))
         else finish F owner repo e Failed (GateFailedOn (map at_queue_sha (filter is_red (qe_attempts e)))) io)"

section \<open>Landing a stack\<close>

definition approved_by :: "queue_entry \<Rightarrow> string list" where
  "approved_by e = map (\<lambda>a. ap_login a @ (if ap_automation a then '' (automation)'' else [])) (qe_approvers e)"

definition landed_conclusion :: "bool \<Rightarrow> bool option \<Rightarrow> nat \<Rightarrow> string" where
  "landed_conclusion covered own_gate topn =
     (if \<not> covered \<or> own_gate = Some True then ''success''
      else if own_gate = Some False then ''failure, covered by #'' @ show_nat topn
      else ''covered by #'' @ show_nat topn)"

definition landed :: "'w forge \<Rightarrow> string \<Rightarrow> string \<Rightarrow> string \<Rightarrow> nat \<Rightarrow> bool option \<Rightarrow> queue_entry \<Rightarrow> 'w io
    \<Rightarrow> 'w io \<times> queue_entry" where
  "landed F owner repo tip topn own_gate e io =
     (let covered = qe_number e \<noteq> topn;
          at = (if covered then qe_queue_sha e else tip);
          e = e\<lparr>qe_attempts := conclude (landed_conclusion covered own_gate topn) (qe_attempts e),
                qe_landed_sha := Some at, qe_landed_with := (if covered then Some topn else None)\<rparr>;
          reason = (if covered
            then LandedCovered at topn tip (own_gate = Some False) (qe_pr_head_sha e) (approved_by e)
            else LandedAt at (qe_pr_head_sha e) (approved_by e))
      in finish F owner repo e Landed reason io)"

definition record_landing :: "'w forge \<Rightarrow> string \<Rightarrow> string \<Rightarrow> batch_landing \<Rightarrow> nat \<Rightarrow> queue_key \<times> bool option
    \<Rightarrow> queue_entry \<Rightarrow> 'w io \<Rightarrow> 'w io \<times> queue_entry" where
  "record_landing F owner repo landing topn kv e io =
     (case find (\<lambda>u. fst u = qe_number e) (bl_unrecorded landing) of
        Some u \<Rightarrow> finish F owner repo e Failed (Unrecorded (qe_base e) (bl_tip landing) (snd u)) io
      | None \<Rightarrow> landed F owner repo (bl_tip landing) topn (snd kv) e io)"

definition landing_member :: "queue_entry \<Rightarrow> queued_landing" where
  "landing_member e = \<lparr>ql_bot = qe_enqueued_by_bot e, ql_number = qe_number e, ql_pr_head = qe_pr_head_sha e,
     ql_queue_sha = qe_queue_sha e\<rparr>"

definition refuse_member :: "'w forge \<Rightarrow> string \<Rightarrow> string \<Rightarrow> member_problem \<Rightarrow> queue_entry \<Rightarrow> 'w io
    \<Rightarrow> 'w io \<times> queue_entry" where
  "refuse_member F owner repo problem e io =
     (case problem of
        Merged sha \<Rightarrow> finish F owner repo e Dequeued (AlreadyMerged sha) io
      | NotReady reason \<Rightarrow> finish F owner repo e Failed (CouldNotLand reason) io
      | Unreadable _ \<Rightarrow> (io, e))"

definition entry_of :: "queue_entries \<Rightarrow> queue_key \<Rightarrow> queue_entry" where
  "entry_of entries k = the (map_of entries k)"

definition land_stack :: "'w forge \<Rightarrow> 'w lander \<Rightarrow> string \<Rightarrow> string \<Rightarrow> queue_key list \<Rightarrow> bool option list
    \<Rightarrow> queue_entries \<Rightarrow> 'w io \<Rightarrow> queue_entries \<times> 'w io" where
  "land_stack F L owner repo stack own entries io =
     (let members = map (\<lambda>k. landing_member (entry_of entries k)) stack;
          expected_base = qe_base_sha (entry_of entries (hd stack));
          topn = ql_number (last members)
      in case land_queued_batch F L owner repo members expected_base (io_world io) of
           (w, Inr landing) \<Rightarrow>
             for_entries (record_landing F owner repo landing topn) fst (zip stack own) entries (io\<lparr>io_world := w\<rparr>)
         | (w, Inl (BaseMoved _)) \<Rightarrow> (entries, io\<lparr>io_world := w\<rparr>)
         | (w, Inl (Blocked _)) \<Rightarrow> (entries, io\<lparr>io_world := w\<rparr>)
         | (w, Inl (Member number problem)) \<Rightarrow>
             (case find (\<lambda>k. number_of k = number) stack of
                None \<Rightarrow> (entries, io\<lparr>io_world := w\<rparr>)
              | Some key \<Rightarrow>
                  for_entries (\<lambda>_. refuse_member F owner repo problem) id [key] entries (io\<lparr>io_world := w\<rparr>)))"

section \<open>One stack\<close>

definition check_queued :: "'w forge \<Rightarrow> string \<Rightarrow> string \<Rightarrow> queue_key \<Rightarrow> queue_entry
    \<Rightarrow> (queue_key \<Rightarrow> string list option) \<times> 'w io \<Rightarrow> ((queue_key \<Rightarrow> string list option) \<times> 'w io) \<times> queue_entry" where
  "check_queued F owner repo key e s =
     (case s of (required, io) \<Rightarrow>
        (case still_queued F owner repo e io of
           (io, e, None) \<Rightarrow> ((required, io), e)
         | (io, e, Some contexts) \<Rightarrow> ((required(key \<mapsto> contexts), io), e)))"

definition live_keys :: "queue_key list \<Rightarrow> (queue_key \<Rightarrow> string list option) \<Rightarrow> queue_entries \<Rightarrow> queue_key list" where
  "live_keys keys required entries =
     filter (\<lambda>k. required k \<noteq> None \<and>
       (case map_of entries k of None \<Rightarrow> False | Some e \<Rightarrow> qe_state e = Building)) keys"

fun audit_all :: "'w forge \<Rightarrow> string \<Rightarrow> string \<Rightarrow> queue_entries \<Rightarrow> (queue_key \<Rightarrow> string list option)
    \<Rightarrow> queue_key list \<Rightarrow> 'w io \<Rightarrow> 'w io" where
  "audit_all F owner repo entries required [] io = io"
| "audit_all F owner repo entries required (k # ks) io =
     audit_all F owner repo entries required ks
       (io\<lparr>io_world := schedule_audit F owner repo (entry_of entries k) (required k) (io_world io)\<rparr>)"

fun rposition :: "('a \<Rightarrow> bool) \<Rightarrow> 'a list \<Rightarrow> nat option" where
  "rposition P [] = None"
| "rposition P (x # xs) =
     (case rposition P xs of
        Some i \<Rightarrow> Some (Suc i)
      | None \<Rightarrow> if P x then Some 0 else None)"

definition cover_verdicts :: "'w forge \<Rightarrow> 'w \<Rightarrow> string \<Rightarrow> string \<Rightarrow> queue_entries \<Rightarrow> (queue_key \<Rightarrow> string list option)
    \<Rightarrow> queue_key list \<Rightarrow> bool option list" where
  "cover_verdicts F w owner repo entries required stack =
     map (\<lambda>(k, contexts). gate_result F w owner repo (qe_queue_sha (entry_of entries k)) contexts)
       (zip stack (covering_contexts (map (\<lambda>k. the (required k)) stack)))"

text \<open>Landing what is green, or retrying what is red: \<open>None\<close> when there is neither.\<close>

definition decide_stack :: "'w forge \<Rightarrow> 'w lander \<Rightarrow> string \<Rightarrow> string \<Rightarrow> (queue_key \<Rightarrow> string list option)
    \<Rightarrow> queue_key list \<Rightarrow> queue_entries \<Rightarrow> 'w io \<Rightarrow> (queue_entries \<times> 'w io) option" where
  "decide_stack F L owner repo required stack entries io =
     (let own = map (\<lambda>k. gate_result F (io_world io) owner repo (qe_queue_sha (entry_of entries k)) (the (required k))) stack
      in case rposition (\<lambda>c. c = Some True) (cover_verdicts F (io_world io) owner repo entries required stack) of
           Some topi \<Rightarrow> Some (land_stack F L owner repo (take (Suc topi) stack) (take (Suc topi) own) entries io)
         | None \<Rightarrow>
             if own \<noteq> [] \<and> hd own = Some False
             then Some (for_entries (\<lambda>_. retry_or_fail F owner repo) id [hd stack] entries io)
             else None)"

definition advance_stack :: "'w forge \<Rightarrow> 'w lander \<Rightarrow> string \<Rightarrow> string \<Rightarrow> string \<Rightarrow> queue_key list
    \<Rightarrow> queue_entries \<Rightarrow> 'w io \<Rightarrow> queue_entries \<times> 'w io" where
  "advance_stack F L owner repo base keys entries io =
     (let (entries, required, io) = for_entries (check_queued F owner repo) id keys entries (\<lambda>_. None, io);
          (entries, io) = restack F owner repo base (live_keys keys required entries) entries io;
          stack = live_keys keys required entries;
          io = audit_all F owner repo entries required stack io
      in case decide_stack F L owner repo required stack entries io of
           None \<Rightarrow> (entries, io)
         | Some (entries, io) \<Rightarrow>
             let (entries, io) = restack F owner repo base (live_keys keys required entries) entries io
             in (entries, audit_all F owner repo entries (\<lambda>_. None) (live_keys keys required entries) io))"

section \<open>The pass\<close>

definition considered :: "queue_index \<Rightarrow> queue_key \<Rightarrow> queue_entry \<Rightarrow> bool" where
  "considered idx k e \<longleftrightarrow> qe_state e = Building \<and> map_of (qi_errors idx) (fst k, fst (snd k)) = None"

definition stack_push :: "string \<times> string \<times> string \<Rightarrow> queue_key
    \<Rightarrow> (string \<times> string \<times> string, queue_key list) btree \<Rightarrow> (string \<times> string \<times> string, queue_key list) btree" where
  "stack_push g k m = bt_insert g ((case map_of m g of None \<Rightarrow> [] | Some ks \<Rightarrow> ks) @ [k]) m"

definition stacks :: "queue_index \<Rightarrow> (string \<times> string \<times> string, queue_key list) btree" where
  "stacks idx =
     foldl (\<lambda>m (k, e). if considered idx k e then stack_push (fst k, fst (snd k), qe_base e) k m else m)
       [] (qi_entries idx)"

definition advance_one :: "'w forge \<Rightarrow> 'w lander \<Rightarrow> queue_entries \<times> 'w io
    \<Rightarrow> (string \<times> string \<times> string) \<times> queue_key list \<Rightarrow> queue_entries \<times> 'w io" where
  "advance_one F L s st =
     (case s of (entries, io) \<Rightarrow>
      case st of ((owner, repo, base), keys) \<Rightarrow>
        advance_stack F L owner repo base (sort_key (\<lambda>k. stack_order (entry_of entries k)) keys) entries io)"

definition tick :: "'w forge \<Rightarrow> 'w lander \<Rightarrow> queue_index \<Rightarrow> 'w io \<Rightarrow> queue_index \<times> 'w io \<times> nat" where
  "tick F L idx io =
     (let (idx, w) = ensure_loaded F idx (io_world io);
          (entries, io') = foldl (advance_one F L) (qi_entries idx, io\<lparr>io_world := w\<rparr>) (stacks idx);
          changed = filter (\<lambda>(k, e). considered idx k e \<and>
            (case map_of entries k of None \<Rightarrow> False | Some e' \<Rightarrow> qe_state e' \<noteq> qe_state e)) (qi_entries idx)
      in (idx\<lparr>qi_entries := entries\<rparr>, io', length changed))"

section \<open>What a loop over keys changes\<close>

definition moved :: "(queue_entry \<Rightarrow> queue_entry \<Rightarrow> bool) \<Rightarrow> queue_key set \<Rightarrow> queue_entries \<Rightarrow> queue_entries \<Rightarrow> bool" where
  "moved R ks m m' \<longleftrightarrow> (\<forall>k. rel_option R (map_of m k) (map_of m' k) \<and> (k \<notin> ks \<longrightarrow> map_of m' k = map_of m k))"

lemma moved_refl: "reflp R \<Longrightarrow> moved R ks m m"
  by (auto simp: moved_def option.rel_reflp reflp_def intro!: option.rel_refl)

lemma moved_trans: "transp R \<Longrightarrow> moved R ks m m1 \<Longrightarrow> moved R ks m1 m2 \<Longrightarrow> moved R ks m m2"
  unfolding moved_def by (metis option.rel_transp transpD)

lemma moved_mono: "moved R ks m m' \<Longrightarrow> (\<And>e e'. R e e' \<Longrightarrow> S e e') \<Longrightarrow> ks \<subseteq> ls \<Longrightarrow> moved S ls m m'"
  unfolding moved_def by (metis option.rel_mono_strong subsetD)

lemma moved_None: "moved R ks m m' \<Longrightarrow> map_of m' k = None \<longleftrightarrow> map_of m k = None"
  unfolding moved_def by (metis option.rel_sel)

lemma moved_Some: "moved R ks m m' \<Longrightarrow> map_of m' k = Some e' \<Longrightarrow> \<exists>e. map_of m k = Some e \<and> R e e'"
  unfolding moved_def by (metis option_rel_Some2)

lemma moved_SomeD: "moved R ks m m' \<Longrightarrow> map_of m k = Some e \<Longrightarrow> \<exists>e'. map_of m' k = Some e' \<and> R e e'"
  unfolding moved_def by (metis option_rel_Some1)

text \<open>Each key is visited once, with the entry it had before the loop.\<close>

lemma for_entries_moved:
  assumes "distinct (map key xs)" "reflp R"
    and "\<And>x e s. x \<in> set xs \<Longrightarrow> map_of m (key x) = Some e \<Longrightarrow> R e (snd (f x e s))"
    and "for_entries f key xs m s = (m', s')"
  shows "moved R (key ` set xs) m m'"
  using assms(1,3,4)
proof (induction xs arbitrary: m s)
  case Nil
  then show ?case using assms(2) by (simp add: moved_refl)
next
  case (Cons x xs)
  show ?case
  proof (cases "map_of m (key x)")
    case None
    have "moved R (key ` set xs) m m'" by (rule Cons.IH) (use Cons.prems None in auto)
    then show ?thesis by (rule moved_mono) auto
  next
    case (Some e)
    obtain s1 e1 where f: "f x e s = (s1, e1)" by fastforce
    have Re: "R e e1" using Cons.prems(2) [of x e s] Some f by simp
    have IH: "moved R (key ` set xs) (bt_insert (key x) e1 m) m'"
    proof (rule Cons.IH)
      show "for_entries f key xs (bt_insert (key x) e1 m) s1 = (m', s')" using Cons.prems(3) Some f by simp
      show "R e' (snd (f x' e' t))" if "x' \<in> set xs" "map_of (bt_insert (key x) e1 m) (key x') = Some e'" for x' e' t
      proof -
        have "key x' \<noteq> key x" using Cons.prems(1) imageI [OF that(1), of key] by auto
        then show ?thesis using Cons.prems(2) that by (simp add: map_of_bt_insert)
      qed
    qed (use Cons.prems(1) in simp)
    moreover have "key x \<notin> key ` set xs" using Cons.prems(1) by auto
    ultimately have at: "map_of m' (key x) = Some e1" by (simp add: moved_def map_of_bt_insert)
    have "rel_option R (map_of m k) (map_of m' k) \<and> (k \<notin> key ` set (x # xs) \<longrightarrow> map_of m' k = map_of m k)" for k
    proof (cases "k = key x")
      case True
      then show ?thesis using at Some Re by simp
    next
      case False
      then have "map_of (bt_insert (key x) e1 m) k = map_of m k" by (simp add: map_of_bt_insert)
      moreover have "rel_option R (map_of (bt_insert (key x) e1 m) k) (map_of m' k)"
        "k \<notin> key ` set xs \<longrightarrow> map_of m' k = map_of (bt_insert (key x) e1 m) k"
        using IH unfolding moved_def by blast+
      ultimately show ?thesis by simp
    qed
    then show ?thesis unfolding moved_def by blast
  qed
qed

lemma for_entries_inv:
  assumes "J m s"
    and "\<And>x e m s. x \<in> set xs \<Longrightarrow> map_of m (key x) = Some e \<Longrightarrow> J m s \<Longrightarrow>
      J (bt_insert (key x) (snd (f x e s)) m) (fst (f x e s))"
    and "for_entries f key xs m s = (m', s')"
  shows "J m' s'"
  using assms
proof (induction xs arbitrary: m s)
  case (Cons x xs)
  show ?case
  proof (cases "map_of m (key x)")
    case None
    then show ?thesis using Cons by simp
  next
    case (Some e)
    obtain s1 e1 where f: "f x e s = (s1, e1)" by fastforce
    then have "J (bt_insert (key x) e1 m) s1" using Cons.prems(1) Cons.prems(2) [of x m e s] Some by simp
    then show ?thesis using Cons.IH Cons.prems(2,3) Some f by simp
  qed
qed simp

section \<open>What becomes of an entry\<close>

text \<open>What was queued: no pass over the queue changes it.\<close>

definition identity_of :: "queue_entry \<Rightarrow> _" where
  "identity_of e = (qe_repo e, qe_base e, qe_number e, qe_pr_head_sha e, qe_queue_ref e, qe_enqueued_at e,
     qe_enqueued_by e, qe_enqueued_by_bot e, qe_approvers e, qe_refusal_code e, qe_conflict_paths e,
     qe_audited_score_id e)"

definition advances :: "queue_entry \<Rightarrow> queue_entry \<Rightarrow> bool" where
  "advances e e' \<longleftrightarrow> e' = e \<or>
     qe_state e = Building \<and> identity_of e' = identity_of e \<and> (entry_ok e \<longrightarrow> entry_ok e')"

definition advances_unlanded :: "queue_entry \<Rightarrow> queue_entry \<Rightarrow> bool" where
  "advances_unlanded e e' \<longleftrightarrow> advances e e' \<and> (qe_state e' = Landed \<longrightarrow> e' = e)"

lemma advances_refl [simp, intro]: "advances e e" "advances_unlanded e e" "reflp advances" "reflp advances_unlanded"
  by (auto simp: advances_def advances_unlanded_def reflp_def)

lemma advances_trans: "transp advances" "transp advances_unlanded"
  by (auto simp: advances_def advances_unlanded_def transp_def)

lemma finish_entry [simp]:
  "snd (finish F owner repo e to reason io) = e\<lparr>qe_state := to, qe_reason := Some reason\<rparr>"
  by (simp add: finish_def Let_def split: prod.splits)

lemma finish_pair: "\<exists>io'. finish F owner repo e to reason io = (io', e\<lparr>qe_state := to, qe_reason := Some reason\<rparr>)"
  using finish_entry by (metis prod.collapse)

lemma conclude_simps [simp]:
  "conclude c tried = [] \<longleftrightarrow> tried = []"
  "tried \<noteq> [] \<Longrightarrow> last (conclude c tried) = (last tried)\<lparr>at_conclusion := Some c\<rparr>"
  by (auto simp: conclude_def)

lemma reds_conclude:
  assumes "tried \<noteq> []" "at_conclusion (last tried) = None"
  shows "length (filter is_red (conclude c tried)) = length (filter is_red tried) + (if c = ''failure'' then 1 else 0)"
proof -
  obtain old a where "tried = old @ [a]" using assms(1) by (metis rev_exhaust)
  then show ?thesis using assms(2) by (simp add: conclude_def is_red_def)
qed

lemma reds_supersede: "length (filter is_red (supersede tried)) = length (filter is_red tried)"
proof -
  have kept: "filter is_red (filter (\<lambda>a. at_conclusion a \<noteq> Some SUPERSEDED) tried) = filter is_red tried"
    unfolding filter_filter by (rule filter_cong) (auto simp: is_red_def SUPERSEDED_def)
  then show ?thesis
    using reds_conclude [of "filter (\<lambda>a. at_conclusion a \<noteq> Some SUPERSEDED) tried" SUPERSEDED]
    by (auto simp: supersede_def Let_def SUPERSEDED_def)
qed

lemma finish_advances:
  assumes "qe_state e0 = Building" "identity_of e = identity_of e0"
    and "entry_ok e0 \<Longrightarrow> red_count e \<le> MAX_ATTEMPTS" "to \<noteq> Building"
  shows "advances e0 (e\<lparr>qe_state := to, qe_reason := Some reason\<rparr>)"
  using assms by (auto simp: advances_def entry_ok_def identity_of_def red_count_def)

lemma built_advances:
  assumes "qe_state e0 = Building" "identity_of e = identity_of e0" "qe_state e = Building"
    and "entry_ok e0 \<Longrightarrow> red_count e < MAX_ATTEMPTS"
  shows "advances e0 (built parent q at e)" "advances e0 ((built parent q at e)\<lparr>qe_after := n\<rparr>)"
  using assms by (auto simp: advances_def entry_ok_def identity_of_def red_count_def built_def is_red_def)

definition passes_gate :: "'w forge \<Rightarrow> 'w \<Rightarrow> string \<Rightarrow> string \<Rightarrow> queue_entry \<Rightarrow> string list \<Rightarrow> bool" where
  "passes_gate F w owner repo e contexts \<longleftrightarrow> (\<exists>pr blockers. fg_get_pull F w owner repo (qe_number e) = Some pr \<and>
     is_open_pull pr \<and> pr_head_sha pr = qe_pr_head_sha e \<and> fg_queue_gate F w pr = (True, blockers, contexts))"

lemma still_queued_cases:
  obtains (keep) "still_queued F owner repo e io = (io, e, None)"
  | (pass) contexts where "still_queued F owner repo e io = (io, e, Some contexts)"
      "passes_gate F (io_world io) owner repo e contexts"
  | (drop) io' to reason where "to \<noteq> Building" "to \<noteq> Landed"
      "still_queued F owner repo e io = (io', e\<lparr>qe_state := to, qe_reason := Some reason\<rparr>, None)"
proof (cases "fg_get_pull F (io_world io) owner repo (qe_number e)")
  case None
  then show ?thesis using keep by (simp add: still_queued_def)
next
  case (Some pr)
  obtain pass blockers required where g: "fg_queue_gate F (io_world io) pr = (pass, blockers, required)" by (cases "fg_queue_gate F (io_world io) pr")
  obtain io1 where h: "finish F owner repo e Dequeued (HeadMoved (pr_head_sha pr)) io =
      (io1, e\<lparr>qe_state := Dequeued, qe_reason := Some (HeadMoved (pr_head_sha pr))\<rparr>)" using finish_pair by blast
  obtain io2 where f: "finish F owner repo e Failed (GateNotPassed blockers) io =
      (io2, e\<lparr>qe_state := Failed, qe_reason := Some (GateNotPassed blockers)\<rparr>)" using finish_pair by blast
  consider "\<not> is_open_pull pr" | "is_open_pull pr" "pr_head_sha pr \<noteq> qe_pr_head_sha e"
    | "is_open_pull pr" "pr_head_sha pr = qe_pr_head_sha e" "\<not> pass"
    | "is_open_pull pr" "pr_head_sha pr = qe_pr_head_sha e" "pass" by blast
  then show ?thesis
  proof cases
    case 1
    then show ?thesis using Some by (intro drop [of Dequeued]) (simp_all add: still_queued_def Let_def)
  next
    case 2
    then show ?thesis using Some h by (intro drop [of Dequeued]) (simp_all add: still_queued_def)
  next
    case 3
    then show ?thesis using Some f g by (intro drop [of Failed]) (simp_all add: still_queued_def)
  next
    case 4
    then show ?thesis using Some g by (intro pass [of required]) (simp_all add: still_queued_def passes_gate_def)
  qed
qed

lemma check_queued_cases:
  obtains (keep) "check_queued F owner repo k e (required, io) = ((required, io), e)"
  | (pass) contexts where "check_queued F owner repo k e (required, io) = ((required(k \<mapsto> contexts), io), e)"
      "passes_gate F (io_world io) owner repo e contexts"
  | (drop) io' to reason where "to \<noteq> Building" "to \<noteq> Landed"
      "check_queued F owner repo k e (required, io) = ((required, io'), e\<lparr>qe_state := to, qe_reason := Some reason\<rparr>)"
  by (cases rule: still_queued_cases [of F owner repo e io]) (auto simp: check_queued_def)

lemma check_queued_advances: "qe_state e = Building \<Longrightarrow> advances_unlanded e (snd (check_queued F owner repo k e s))"
proof (cases s)
  case (Pair required io)
  assume "qe_state e = Building"
  then have "advances e (e\<lparr>qe_state := to, qe_reason := Some reason\<rparr>)" if "to \<noteq> Building" for to reason
    using finish_advances [of e e to] that by (simp add: entry_ok_def)
  then show ?thesis
    unfolding Pair by (cases rule: check_queued_cases [of F owner repo k e required io]) (auto simp: advances_unlanded_def)
qed

lemma restack_entry_advances: "advances_unlanded e (snd (restack_entry F owner repo e s))"
proof (cases "qe_state e = Building")
  case True
  let ?e = "e\<lparr>qe_attempts := supersede (qe_attempts e)\<rparr>"
  have id: "identity_of ?e = identity_of e" "qe_state ?e = Building" using True by (simp_all add: identity_of_def)
  have red: "red_count ?e = red_count e" by (simp add: red_count_def reds_supersede)
  have fin: "advances e (?e\<lparr>qe_state := Dequeued, qe_reason := Some r\<rparr>)" for r
    using finish_advances [OF True id(1), of Dequeued] red by (simp add: entry_ok_def)
  have blt: "advances e ((built parent q at ?e)\<lparr>qe_after := n\<rparr>)" for parent q at n
    using built_advances(2) [OF True id] red True by (simp add: entry_ok_def)
  have aft: "advances e (e\<lparr>qe_after := n\<rparr>)" for n
    using True by (auto simp: advances_def entry_ok_def identity_of_def red_count_def)
  have nl: "qe_state (built parent q at ?e) = Building" for parent q at using True by (simp add: built_def)
  obtain parent after io where s: "s = (parent, after, io)" by (cases s)
  obtain io1 res where b: "build_on F owner repo ?e parent None io = (io1, res)" by fastforce
  show ?thesis
  proof (cases res)
    case (Inl f)
    obtain io2 where "finish F owner repo ?e Dequeued (ReplayRefused f) io1 =
        (io2, ?e\<lparr>qe_state := Dequeued, qe_reason := Some (ReplayRefused f)\<rparr>)"
      using finish_pair by blast
    with Inl show ?thesis using b fin aft True
      by (auto simp: restack_entry_def s Let_def advances_unlanded_def)
  next
    case (Inr e1)
    then obtain q at where "e1 = built parent q at ?e" using b build_on_built by blast
    then show ?thesis using b Inr blt aft True nl
      by (auto simp: restack_entry_def s Let_def advances_unlanded_def)
  qed
qed (auto simp: restack_entry_def split: prod.splits)

lemma retry_build_entry:
  "retry_build F owner repo e io = (io', Inr e') \<Longrightarrow> \<exists>q at. e' = built (qe_base_sha e) q at e"
  by (auto simp: retry_build_def dest: build_on_built split: sum.splits prod.splits)

lemma retry_or_fail_advances:
  assumes "qe_state e = Building"
  shows "advances_unlanded e (snd (retry_or_fail F owner repo e io))"
proof -
  let ?e = "e\<lparr>qe_attempts := conclude ''failure'' (qe_attempts e)\<rparr>"
  have id: "identity_of ?e = identity_of e" "qe_state ?e = Building" using assms by (simp_all add: identity_of_def)
  have red: "red_count ?e \<le> MAX_ATTEMPTS" if "entry_ok e"
    using that assms reds_conclude [of "qe_attempts e"] by (simp add: entry_ok_def red_count_def)
  have fin: "advances_unlanded e (?e\<lparr>qe_state := to, qe_reason := r\<rparr>)" if "to \<noteq> Building" "to \<noteq> Landed" for to r
    using assms id(1) red that by (auto simp: advances_unlanded_def advances_def entry_ok_def identity_of_def red_count_def)
  obtain io1 res where b: "retry_build F owner repo ?e io = (io1, res)" by fastforce
  show ?thesis
  proof (cases "red_count ?e < MAX_ATTEMPTS \<and> qe_queue_sha ?e \<noteq> qe_pr_head_sha ?e")
    case False
    then show ?thesis using fin by (auto simp: retry_or_fail_def Let_def red_count_def)
  next
    case True
    show ?thesis
    proof (cases res)
      case (Inl f)
      then show ?thesis using True b fin by (simp add: retry_or_fail_def Let_def red_count_def)
    next
      case (Inr e1)
      then obtain q at where e1: "e1 = built (qe_base_sha ?e) q at ?e" using b retry_build_entry by blast
      then have "advances e e1" using built_advances(1) [OF assms id] True by simp
      moreover have "qe_state e1 = Building" using e1 assms by (simp add: built_def)
      ultimately show ?thesis using True b Inr by (simp add: retry_or_fail_def Let_def red_count_def advances_unlanded_def)
    qed
  qed
qed

lemma landed_conclusion_not_failure: "landed_conclusion covered own n \<noteq> ''failure''"
  by (simp add: landed_conclusion_def)

lemma landed_advances:
  assumes "qe_state e = Building"
  shows "advances e (snd (landed F owner repo tip topn own e io))"
    "qe_queue_sha (snd (landed F owner repo tip topn own e io)) = qe_queue_sha e"
  using assms reds_conclude [of "qe_attempts e"] landed_conclusion_not_failure
  by (auto simp: landed_def Let_def advances_def entry_ok_def identity_of_def red_count_def)

lemma record_landing_advances:
  assumes "qe_state e = Building"
  shows "advances e (snd (record_landing F owner repo landing topn kv e io))"
    "qe_queue_sha (snd (record_landing F owner repo landing topn kv e io)) = qe_queue_sha e"
  using assms landed_advances [OF assms] finish_advances [OF assms refl]
  by (auto simp: record_landing_def entry_ok_def split: option.splits)

lemma refuse_member_advances:
  "qe_state e = Building \<Longrightarrow> advances_unlanded e (snd (refuse_member F owner repo problem e io))"
  using finish_advances [of e e] by (auto simp: refuse_member_def entry_ok_def advances_unlanded_def split: member_problem.splits)

section \<open>The passes over a stack\<close>

definition building_at :: "queue_entries \<Rightarrow> queue_key \<Rightarrow> bool" where
  "building_at m k = (case map_of m k of None \<Rightarrow> False | Some e \<Rightarrow> qe_state e = Building)"

lemma building_at_iff: "building_at m k \<longleftrightarrow> (\<exists>e. map_of m k = Some e \<and> qe_state e = Building)"
  by (simp add: building_at_def split: option.splits)

lemma live_building: "set (live_keys keys required m) \<subseteq> {k \<in> set keys. building_at m k \<and> required k \<noteq> None}"
  by (auto simp: live_keys_def building_at_iff split: option.splits)

lemma distinct_live: "distinct keys \<Longrightarrow> distinct (live_keys keys required m)"
  by (simp add: live_keys_def)

lemma restack_moved:
  assumes "distinct stack" "restack F owner repo base stack m io = (m', io')"
  shows "moved advances_unlanded (set stack) m m'"
proof -
  obtain w r where b: "base_tip F owner repo base (io_world io) = (w, r)" by fastforce
  show ?thesis
  proof (cases r)
    case (Inl f)
    then show ?thesis using assms b by (simp add: restack_def moved_refl)
  next
    case (Inr tip)
    obtain s where "for_entries (\<lambda>_. restack_entry F owner repo) id stack m (tip, None, io\<lparr>io_world := w\<rparr>) = (m', s)"
      using assms(2) b Inr by (auto simp: restack_def split: prod.splits)
    from for_entries_moved [OF _ _ _ this, of advances_unlanded] assms(1) show ?thesis
      by (simp add: restack_entry_advances)
  qed
qed

lemma check_queued_moved:
  assumes "distinct keys" "\<forall>k \<in> set keys. building_at m k"
    and "for_entries (check_queued F owner repo) id keys m s = (m', s')"
  shows "moved advances_unlanded (set keys) m m'"
  using for_entries_moved [OF _ _ _ assms(3), of advances_unlanded] assms(1,2)
  by (force simp: building_at_iff intro: check_queued_advances)

definition gated :: "'w forge \<Rightarrow> string \<Rightarrow> string \<Rightarrow> (queue_key \<Rightarrow> string list option) \<Rightarrow> queue_entries \<Rightarrow> bool" where
  "gated F owner repo required m \<longleftrightarrow> (\<forall>k contexts e. required k = Some contexts \<longrightarrow> map_of m k = Some e \<longrightarrow>
     (\<exists>w. passes_gate F w owner repo e contexts))"

lemma passes_gate_identity:
  "identity_of e' = identity_of e \<Longrightarrow> passes_gate F w owner repo e' c = passes_gate F w owner repo e c"
  by (simp add: passes_gate_def identity_of_def)

lemma advances_identity: "advances e e' \<Longrightarrow> identity_of e' = identity_of e"
  by (auto simp: advances_def)

lemma gated_moved: "gated F owner repo required m \<Longrightarrow> moved advances ks m m' \<Longrightarrow> gated F owner repo required m'"
  unfolding gated_def by (metis advances_identity moved_Some passes_gate_identity)

lemma check_queued_gated:
  assumes "for_entries (check_queued F owner repo) id keys m (\<lambda>_. None, io) = (m', required, io')"
  shows "gated F owner repo required m'"
proof -
  have "(case (required, io') of (req, _) \<Rightarrow> gated F owner repo req m')"
  proof (rule for_entries_inv [where J = "\<lambda>m s. case s of (req, _) \<Rightarrow> gated F owner repo req m", OF _ _ assms])
    show "case (\<lambda>_. None, io) of (req, _) \<Rightarrow> gated F owner repo req m" by (simp add: gated_def)
    fix k e m and s :: "(queue_key \<Rightarrow> string list option) \<times> 'a io"
    assume e: "map_of m (id k) = Some e" and J: "case s of (req, _) \<Rightarrow> gated F owner repo req m"
    obtain req io where s: "s = (req, io)" by (cases s)
    then show "case fst (check_queued F owner repo k e s) of (req, _) \<Rightarrow>
        gated F owner repo req (bt_insert (id k) (snd (check_queued F owner repo k e s)) m)"
      using e J
      by (cases rule: check_queued_cases [of F owner repo k e req io])
        (auto simp: gated_def map_of_bt_insert passes_gate_def split: if_splits)
  qed
  then show ?thesis by simp
qed

section \<open>What lands\<close>

text \<open>
  An entry landed on a green gate: it was a member of a batch the forge landed while the commit of the
  batch's top was green on contexts that include every one its own merge gate asked for.
\<close>

definition lands_green :: "'w forge \<Rightarrow> 'w lander \<Rightarrow> string \<Rightarrow> string \<Rightarrow> queue_entry \<Rightarrow> bool" where
  "lands_green F L owner repo e \<longleftrightarrow> (\<exists>w w' landing members expected_base contexts required v.
     land_queued_batch F L owner repo members expected_base w = (w', Inr landing) \<and>
     (\<exists>m \<in> set members. ql_number m = qe_number e \<and> ql_pr_head m = qe_pr_head_sha e \<and> ql_queue_sha m = qe_queue_sha e) \<and>
     gate_result F w owner repo (ql_queue_sha (last members)) contexts = Some True \<and>
     set required \<subseteq> set contexts \<and> passes_gate F v owner repo e required)"

definition green_or_kept :: "'w forge \<Rightarrow> 'w lander \<Rightarrow> string \<Rightarrow> string \<Rightarrow> queue_entry \<Rightarrow> queue_entry \<Rightarrow> bool" where
  "green_or_kept F L owner repo e e' \<longleftrightarrow>
     advances e e' \<and> (qe_state e' = Landed \<longrightarrow> e' = e \<or> lands_green F L owner repo e')"

lemma green_or_kept_refl: "reflp (green_or_kept F L owner repo)"
  by (simp add: green_or_kept_def reflp_def)

lemma green_or_kept_trans: "transp (green_or_kept F L owner repo)"
  using advances_trans(1) by (auto simp: green_or_kept_def transp_def)

lemma unlanded_green: "advances_unlanded e e' \<Longrightarrow> green_or_kept F L owner repo e e'"
  by (auto simp: green_or_kept_def advances_unlanded_def)

lemma rposition_Some: "rposition P xs = Some i \<Longrightarrow> i < length xs \<and> P (xs ! i)"
  by (induction xs arbitrary: i) (auto split: option.splits if_splits)

lemma length_covers [simp]: "length (cover_verdicts F w owner repo m required stack) = length stack"
  by (simp add: cover_verdicts_def covering_contexts_def)

lemma covers_nth:
  "i < length stack \<Longrightarrow> cover_verdicts F w owner repo m required stack ! i =
     gate_result F w owner repo (qe_queue_sha (entry_of m (stack ! i)))
       (covering_contexts (map (\<lambda>k. the (required k)) stack) ! i)"
  by (simp add: cover_verdicts_def covering_contexts_def)

lemma land_stack_moved:
  assumes "distinct stack" "\<forall>k \<in> set stack. building_at m k" "length own = length stack"
    and "land_stack F L owner repo stack own m io = (m', io')"
    and green: "\<And>w' landing e e'. land_queued_batch F L owner repo (map (\<lambda>k. landing_member (entry_of m k)) stack)
        (qe_base_sha (entry_of m (hd stack))) (io_world io) = (w', Inr landing) \<Longrightarrow>
      (\<exists>k \<in> set stack. map_of m k = Some e) \<Longrightarrow> advances e e' \<Longrightarrow> qe_queue_sha e' = qe_queue_sha e \<Longrightarrow>
      lands_green F L owner repo e'"
  shows "moved (green_or_kept F L owner repo) (set stack) m m'"
proof -
  let ?members = "map (\<lambda>k. landing_member (entry_of m k)) stack"
  let ?base = "qe_base_sha (entry_of m (hd stack))"
  obtain w r where b: "land_queued_batch F L owner repo ?members ?base (io_world io) = (w, r)" by fastforce
  note land = assms(4) [unfolded land_stack_def Let_def b]
  have same: "moved (green_or_kept F L owner repo) (set stack) m m" by (rule moved_refl [OF green_or_kept_refl])
  show ?thesis
  proof (cases r)
    case (Inr landing)
    let ?f = "record_landing F owner repo landing (ql_number (last ?members))"
    have run: "for_entries ?f fst (zip stack own) m (io\<lparr>io_world := w\<rparr>) = (m', io')" using land Inr by simp
    have "moved (green_or_kept F L owner repo) (fst ` set (zip stack own)) m m'"
    proof (rule for_entries_moved [OF _ green_or_kept_refl _ run])
      show "distinct (map fst (zip stack own))" using assms(1,3) by simp
      fix kv e s assume kv: "kv \<in> set (zip stack own)" "map_of m (fst kv) = Some e"
      then have k: "fst kv \<in> set stack" by (metis prod.collapse set_zip_leftD)
      then have "qe_state e = Building" using assms(2) kv(2) by (auto simp: building_at_iff)
      from record_landing_advances [OF this] green [OF b [unfolded Inr]] k kv(2)
      show "green_or_kept F L owner repo e (snd (?f kv e s))" unfolding green_or_kept_def by blast
    qed
    then show ?thesis using assms(3) by (simp flip: set_map)
  next
    case (Inl refusal)
    show ?thesis
    proof (cases refusal)
      case (Member number problem)
      show ?thesis
      proof (cases "find (\<lambda>k. number_of k = number) stack")
        case None
        then show ?thesis using land Inl Member same by simp
      next
        case (Some key)
        then have key: "key \<in> set stack" by (auto simp: find_Some_iff)
        then have building: "building_at m key" using assms(2) by blast
        have run: "for_entries (\<lambda>_. refuse_member F owner repo problem) id [key] m (io\<lparr>io_world := w\<rparr>) = (m', io')"
          using land Inl Member Some by simp
        have "moved advances_unlanded (id ` set [key]) m m'"
          by (rule for_entries_moved [OF _ _ _ run])
            (use building in \<open>auto simp: building_at_iff intro: refuse_member_advances\<close>)
        then show ?thesis by (rule moved_mono) (use key in \<open>auto intro: unlanded_green\<close>)
      qed
    qed (use land Inl same in auto)
  qed
qed

lemma decide_stack_moved:
  assumes "distinct stack" "\<forall>k \<in> set stack. building_at m k \<and> required k \<noteq> None" "gated F owner repo required m"
    and "decide_stack F L owner repo required stack m io = Some (m', io')"
  shows "moved (green_or_kept F L owner repo) (set stack) m m'"
proof -
  let ?own = "map (\<lambda>k. gate_result F (io_world io) owner repo (qe_queue_sha (entry_of m k)) (the (required k))) stack"
  let ?covers = "cover_verdicts F (io_world io) owner repo m required stack"
  show ?thesis
  proof (cases "rposition (\<lambda>c. c = Some True) ?covers")
    case None
    then have ne: "stack \<noteq> []" and run: "for_entries (\<lambda>_. retry_or_fail F owner repo) id [hd stack] m io = (m', io')"
      using assms(4) by (auto simp: decide_stack_def Let_def split: if_splits)
    have hd: "building_at m (hd stack)" using assms(2) ne by simp
    have "moved advances_unlanded (id ` set [hd stack]) m m'"
      by (rule for_entries_moved [OF _ _ _ run])
        (use hd in \<open>auto simp: building_at_iff intro: retry_or_fail_advances\<close>)
    then show ?thesis by (rule moved_mono) (use ne in \<open>auto intro: unlanded_green\<close>)
  next
    case (Some i)
    then have i: "i < length stack" "?covers ! i = Some True" by (auto dest: rposition_Some)
    let ?stack = "take (Suc i) stack"
    let ?contexts = "covering_contexts (map (\<lambda>k. the (required k)) stack) ! i"
    have run: "land_stack F L owner repo ?stack (take (Suc i) ?own) m io = (m', io')"
      using assms(4) Some by (simp add: decide_stack_def Let_def)
    have last: "last ?stack = stack ! i" using i(1) by (simp add: take_Suc_conv_app_nth)
    have "moved (green_or_kept F L owner repo) (set ?stack) m m'"
    proof (rule land_stack_moved [OF _ _ _ run])
      fix w' landing e e'
      assume land: "land_queued_batch F L owner repo (map (\<lambda>k. landing_member (entry_of m k)) ?stack)
          (qe_base_sha (entry_of m (hd ?stack))) (io_world io) = (w', Inr landing)"
        and "\<exists>k \<in> set ?stack. map_of m k = Some e" and adv: "advances e e'" and q: "qe_queue_sha e' = qe_queue_sha e"
      then obtain k where k: "k \<in> set ?stack" "map_of m k = Some e" by blast
      then have "k \<in> set stack" by (meson in_set_takeD)
      then obtain c where c: "required k = Some c" using assms(2) by blast
      obtain v where "passes_gate F v owner repo e c" using assms(3) c k(2) unfolding gated_def by blast
      then have pass: "passes_gate F v owner repo e' c" by (simp add: passes_gate_identity [OF advances_identity [OF adv]])
      have "c \<in> set (take (Suc i) (map (\<lambda>k. the (required k)) stack))" using k(1) c by (force simp: take_map)
      then have sub: "set c \<subseteq> set ?contexts" using i(1) by (auto simp: covering_set)
      have ne: "?stack \<noteq> []" using k(1) by auto
      have green: "gate_result F (io_world io) owner repo (ql_queue_sha (last (map (\<lambda>k. landing_member (entry_of m k)) ?stack)))
          ?contexts = Some True"
        using i last ne by (simp add: covers_nth last_map landing_member_def)
      have "landing_member e \<in> set (map (\<lambda>k. landing_member (entry_of m k)) ?stack)"
        using k by (force simp: entry_of_def)
      moreover have "ql_number (landing_member e) = qe_number e'" "ql_pr_head (landing_member e) = qe_pr_head_sha e'"
        "ql_queue_sha (landing_member e) = qe_queue_sha e'"
        using advances_identity [OF adv] q by (simp_all add: landing_member_def identity_of_def)
      ultimately show "lands_green F L owner repo e'"
        using land green sub pass unfolding lands_green_def by blast
    qed (use assms(1,2) in \<open>auto dest: in_set_takeD\<close>)
    then show ?thesis by (rule moved_mono) (auto dest: in_set_takeD)
  qed
qed

lemma moved_building:
  "moved advances ks m m' \<Longrightarrow> k \<notin> ks \<Longrightarrow> building_at m' k \<longleftrightarrow> building_at m k"
  by (auto simp: moved_def building_at_iff)

lemma advance_stack_moved:
  assumes "distinct keys" "\<forall>k \<in> set keys. building_at m k"
    and "advance_stack F L owner repo base keys m io = (m', io')"
  shows "moved (green_or_kept F L owner repo) (set keys) m m'"
proof -
  let ?R = "green_or_kept F L owner repo"
  obtain m1 required io1 where p1: "for_entries (check_queued F owner repo) id keys m (\<lambda>_. None, io) = (m1, required, io1)"
    by (metis prod_cases3)
  obtain m2 io2 where p2: "restack F owner repo base (live_keys keys required m1) m1 io1 = (m2, io2)" by fastforce
  let ?stack = "live_keys keys required m2"
  define io3 where "io3 = audit_all F owner repo m2 required ?stack io2"
  have subset: "set (live_keys keys required n) \<subseteq> set keys" for n using live_building by blast
  have u1: "moved advances_unlanded (set keys) m m1" by (rule check_queued_moved [OF assms(1,2) p1])
  have u2: "moved advances_unlanded (set keys) m1 m2"
    by (rule moved_mono [OF restack_moved [OF distinct_live [OF assms(1)] p2] _ subset])
  have adv: "moved advances (set keys) n n'" if "moved advances_unlanded (set keys) n n'" for n n'
    using moved_mono [OF that] by (auto simp: advances_unlanded_def)
  have gr: "moved ?R (set keys) n n'" if "moved advances_unlanded (set keys) n n'" for n n'
    by (rule moved_mono [OF that unlanded_green order_refl])
  have g2: "gated F owner repo required m2" by (intro gated_moved [OF _ adv [OF u2]] check_queued_gated [OF p1])
  have 12: "moved ?R (set keys) m m2" by (rule moved_trans [OF green_or_kept_trans gr [OF u1] gr [OF u2]])
  have run: "(case decide_stack F L owner repo required ?stack m2 io3 of
           None \<Rightarrow> (m2, io3)
         | Some (m3, io4) \<Rightarrow>
             let (m4, io5) = restack F owner repo base (live_keys keys required m3) m3 io4
             in (m4, audit_all F owner repo m4 (\<lambda>_. None) (live_keys keys required m4) io5)) = (m', io')"
    using assms(3) unfolding io3_def by (simp add: advance_stack_def p1 p2 Let_def)
  show ?thesis
  proof (cases "decide_stack F L owner repo required ?stack m2 io3")
    case None
    then show ?thesis using run 12 by simp
  next
    case (Some r)
    obtain m3 io4 where r: "r = (m3, io4)" by (cases r)
    obtain m4 io5 where p4: "restack F owner repo base (live_keys keys required m3) m3 io4 = (m4, io5)" by fastforce
    have "m' = m4" using run Some r p4 by simp
    have "moved ?R (set ?stack) m2 m3"
      by (rule decide_stack_moved [OF distinct_live [OF assms(1)] _ g2 Some [unfolded r]]) (use live_building in blast)
    then have 23: "moved ?R (set keys) m2 m3" by (rule moved_mono) (use subset in auto)
    have 34: "moved ?R (set keys) m3 m4"
      by (rule gr [OF moved_mono [OF restack_moved [OF distinct_live [OF assms(1)] p4] _ subset]])
    show ?thesis
      unfolding \<open>m' = m4\<close> by (intro moved_trans [OF green_or_kept_trans 12] moved_trans [OF green_or_kept_trans 23] 34)
  qed
qed

section \<open>Every stack in turn\<close>

definition group_of :: "queue_key \<Rightarrow> queue_entry \<Rightarrow> string \<times> string \<times> string" where
  "group_of k e = (fst k, fst (snd k), qe_base e)"

definition stack_step :: "(queue_key \<Rightarrow> queue_entry \<Rightarrow> bool) \<Rightarrow> (string \<times> string \<times> string, queue_key list) btree
    \<Rightarrow> queue_key \<times> queue_entry \<Rightarrow> (string \<times> string \<times> string, queue_key list) btree" where
  "stack_step c m x = (if c (fst x) (snd x) then stack_push (group_of (fst x) (snd x)) (fst x) m else m)"

lemma stacks_foldl: "stacks idx = foldl (stack_step (considered idx)) [] (qi_entries idx)"
proof -
  have "(\<lambda>m (k, e). if considered idx k e then stack_push (fst k, fst (snd k), qe_base e) k m else m) =
      stack_step (considered idx)"
    by (intro ext) (auto simp: stack_step_def group_of_def split: prod.splits)
  then show ?thesis by (simp add: stacks_def)
qed

lemma stack_members:
  "bt_wf (foldl (stack_step c) [] xs) \<and>
   (case map_of (foldl (stack_step c) [] xs) g of None \<Rightarrow> [] | Some ks \<Rightarrow> ks) =
     map fst (filter (\<lambda>x. c (fst x) (snd x) \<and> group_of (fst x) (snd x) = g) xs)"
  by (induction xs rule: rev_induct) (auto simp: stack_step_def stack_push_def map_of_bt_insert intro: bt_wf_insert)

lemma stacks_wf: "bt_wf (stacks idx)"
  unfolding stacks_foldl using stack_members by blast

lemma fst_image_iff: "k \<in> fst ` {x \<in> S. P (fst x) (snd x)} \<longleftrightarrow> (\<exists>e. (k, e) \<in> S \<and> P k e)"
  by force

lemma stacks_keys:
  assumes "bt_wf (qi_entries idx)" "(g, ks) \<in> set (stacks idx)"
  shows "ks = map fst (filter (\<lambda>x. considered idx (fst x) (snd x) \<and> group_of (fst x) (snd x) = g) (qi_entries idx))"
    and "distinct ks"
    and "k \<in> set ks \<longleftrightarrow> (\<exists>e. map_of (qi_entries idx) k = Some e \<and> considered idx k e \<and> group_of k e = g)"
proof -
  have "map_of (stacks idx) g = Some ks" using assms(2) stacks_wf by (simp add: bt_mem_iff)
  then show ks: "ks = map fst (filter (\<lambda>x. considered idx (fst x) (snd x) \<and> group_of (fst x) (snd x) = g) (qi_entries idx))"
    using stack_members [of "considered idx" "qi_entries idx" g] by (simp add: stacks_foldl)
  have d: "distinct (map fst (qi_entries idx))" using assms(1) by (rule bt_wf_distinct)
  then show "distinct ks" unfolding ks by (rule distinct_map_filter)
  show "k \<in> set ks \<longleftrightarrow> (\<exists>e. map_of (qi_entries idx) k = Some e \<and> considered idx k e \<and> group_of k e = g)"
    unfolding ks using fst_image_iff [of k "set (qi_entries idx)" "\<lambda>k e. considered idx k e \<and> group_of k e = g"]
    by (simp add: bt_mem_iff [OF assms(1)])
qed

text \<open>What one pass makes of the table: an entry at a time, and only of the considered ones.\<close>

definition passed :: "'w forge \<Rightarrow> 'w lander \<Rightarrow> queue_key set \<Rightarrow> queue_entries \<Rightarrow> queue_entries \<Rightarrow> bool" where
  "passed F L ks m m' \<longleftrightarrow> (\<forall>k. rel_option (green_or_kept F L (fst k) (fst (snd k))) (map_of m k) (map_of m' k) \<and>
     (k \<notin> ks \<longrightarrow> map_of m' k = map_of m k))"

lemma advance_all_passed:
  assumes "\<forall>(g, ks) \<in> set sts. distinct ks \<and>
      (\<forall>k \<in> set ks. building_at m k \<and> fst k = fst g \<and> fst (snd k) = fst (snd g))"
    and "pairwise (\<lambda>s t. disjnt (set (snd s)) (set (snd t))) (set sts)" "distinct sts"
    and "foldl (advance_one F L) (m, io) sts = (m', io')"
  shows "passed F L (\<Union>s \<in> set sts. set (snd s)) m m'"
  using assms
proof (induction sts arbitrary: m io)
  case Nil
  then show ?case by (auto simp: passed_def green_or_kept_def intro!: option.rel_refl)
next
  case (Cons st sts)
  obtain owner repo base ks where st: "st = ((owner, repo, base), ks)" by (metis prod_cases4 surj_pair)
  obtain m1 io1 where a: "advance_one F L (m, io) st = (m1, io1)" by fastforce
  let ?keys = "sort_key (\<lambda>k. stack_order (entry_of m k)) ks"
  have ks: "distinct ks" "\<forall>k \<in> set ks. building_at m k \<and> fst k = owner \<and> fst (snd k) = repo"
    using Cons.prems(1) st by auto
  have mv: "moved (green_or_kept F L owner repo) (set ks) m m1"
    using advance_stack_moved [of ?keys m F L owner repo base io m1 io1] a ks by (simp add: advance_one_def st)
  have apart: "set (snd t) \<inter> set ks = {}" if "t \<in> set sts" for t
    using Cons.prems(2,3) that st by (auto simp: pairwise_def disjnt_def)
  have IH: "passed F L (\<Union>s \<in> set sts. set (snd s)) m1 m'"
  proof (rule Cons.IH)
    show "foldl (advance_one F L) (m1, io1) sts = (m', io')" using Cons.prems(4) a by simp
    have "building_at m1 k" if "t \<in> set sts" "k \<in> set (snd t)" "building_at m k" for t k
      using mv apart [OF that(1)] that(2,3) by (auto simp: moved_def building_at_iff)
    then show "\<forall>(g, ks) \<in> set sts. distinct ks \<and>
        (\<forall>k \<in> set ks. building_at m1 k \<and> fst k = fst g \<and> fst (snd k) = fst (snd g))"
      using Cons.prems(1) by fastforce
  qed (use Cons.prems(2,3) in \<open>auto simp: pairwise_insert\<close>)
  have head: "rel_option (green_or_kept F L (fst k) (fst (snd k))) (map_of m k) (map_of m1 k)" for k
  proof (cases "k \<in> set ks")
    case True
    then show ?thesis using mv ks(2) by (auto simp: moved_def)
  next
    case False
    then have "map_of m1 k = map_of m k" using mv by (simp add: moved_def)
    then show ?thesis using green_or_kept_refl by (metis option.rel_reflp reflpD)
  qed
  show ?case
    unfolding passed_def
  proof (intro allI conjI impI)
    fix k
    show "rel_option (green_or_kept F L (fst k) (fst (snd k))) (map_of m k) (map_of m' k)"
      using head [of k] IH green_or_kept_trans unfolding passed_def by (metis option.rel_transp transpD)
    show "map_of m' k = map_of m k" if "k \<notin> (\<Union>s \<in> set (st # sts). set (snd s))"
      using that IH mv st by (simp add: passed_def moved_def)
  qed
qed

lemma tick_passed:
  assumes "bt_wf (qi_entries (fst (ensure_loaded F idx (io_world io))))" "tick F L idx io = (idx', io', n)"
  shows "let idx1 = fst (ensure_loaded F idx (io_world io)) in
    passed F L {k. \<exists>e. map_of (qi_entries idx1) k = Some e \<and> considered idx1 k e} (qi_entries idx1) (qi_entries idx')"
proof -
  obtain idx1 w where l: "ensure_loaded F idx (io_world io) = (idx1, w)" by fastforce
  have wf: "bt_wf (qi_entries idx1)" using assms(1) l by simp
  obtain m' io1 where f: "foldl (advance_one F L) (qi_entries idx1, io\<lparr>io_world := w\<rparr>) (stacks idx1) = (m', io1)" by fastforce
  then have idx': "qi_entries idx' = m'" using assms(2) l by (auto simp: tick_def Let_def)
  have "passed F L (\<Union>s \<in> set (stacks idx1). set (snd s)) (qi_entries idx1) m'"
  proof (rule advance_all_passed [OF _ _ _ f])
    show "\<forall>(g, ks) \<in> set (stacks idx1). distinct ks \<and> (\<forall>k \<in> set ks. building_at (qi_entries idx1) k \<and>
        fst k = fst g \<and> fst (snd k) = fst (snd g))"
    proof (clarify, intro conjI ballI)
      fix owner repo base ks assume s: "((owner, repo, base), ks) \<in> set (stacks idx1)"
      show "distinct ks" by (rule stacks_keys(2) [OF wf s])
      fix k assume "k \<in> set ks"
      then obtain e where "map_of (qi_entries idx1) k = Some e" "considered idx1 k e" "group_of k e = (owner, repo, base)"
        using stacks_keys(3) [OF wf s] by blast
      then show "building_at (qi_entries idx1) k" "fst k = fst (owner, repo, base)" "fst (snd k) = fst (snd (owner, repo, base))"
        by (auto simp: building_at_iff considered_def group_of_def)
    qed
    show "pairwise (\<lambda>s t. disjnt (set (snd s)) (set (snd t))) (set (stacks idx1))"
    proof (rule pairwiseI)
      fix s t assume st: "s \<in> set (stacks idx1)" "t \<in> set (stacks idx1)" "s \<noteq> t"
      have "fst s \<noteq> fst t"
        using st stacks_wf by (metis bt_mem_iff option.inject prod.collapse)
      then show "disjnt (set (snd s)) (set (snd t))"
        using stacks_keys(3) [OF wf, of "fst s" "snd s"] stacks_keys(3) [OF wf, of "fst t" "snd t"] st(1,2)
        by (fastforce simp: disjnt_def)
    qed
    show "distinct (stacks idx1)" using bt_wf_distinct [OF stacks_wf] by (simp add: distinct_map)
  qed
  moreover have "(\<Union>s \<in> set (stacks idx1). set (snd s)) \<subseteq> {k. \<exists>e. map_of (qi_entries idx1) k = Some e \<and> considered idx1 k e}"
    using stacks_keys(3) [OF wf] by fastforce
  ultimately show ?thesis unfolding passed_def l idx' by auto
qed

text \<open>
  An entry that a pass landed was a member of a batch the forge landed, whose top commit was then green on
  contexts that include every one the entry's own merge gate asked for, its pull request being open at
  the queued head.
\<close>

lemma tick_green_or_kept:
  assumes "bt_wf (qi_entries idx)" "tick F L idx io = (idx', io', n)"
    and "map_of (qi_entries idx') k = Some e" "qe_state e = Landed"
    and "map_of (qi_entries (fst (ensure_loaded F idx (io_world io)))) k \<noteq> Some e"
  shows "lands_green F L (fst k) (fst (snd k)) e"
proof -
  let ?m = "qi_entries (fst (ensure_loaded F idx (io_world io)))"
  have "rel_option (green_or_kept F L (fst k) (fst (snd k))) (map_of ?m k) (map_of (qi_entries idx') k)"
    using tick_passed [OF ensure_loaded_wf [OF assms(1)] assms(2)] by (simp add: passed_def Let_def)
  then show ?thesis using assms(3-5) by (auto simp: option_rel_Some2 green_or_kept_def)
qed

text \<open>
  C11. A pass neither adds nor removes an entry. One that is not queued, or whose repository's metadata
  could not be read, is not touched at all; of a queued one it keeps the pull request, head, base and
  ref, who queued it and who approved it, and a sound entry stays sound: no more than two red gates,
  and while it is queued an open attempt for the commit it shows.
\<close>

theorem tick_keeps_what_was_queued:
  assumes "bt_wf (qi_entries idx)" "tick F L idx io = (idx', io', n)"
  shows "let loaded = fst (ensure_loaded F idx (io_world io)) in
    case (map_of (qi_entries loaded) k, map_of (qi_entries idx') k) of
      (None, None) \<Rightarrow> True
    | (Some e, Some e') \<Rightarrow> identity_of e' = identity_of e \<and> (entry_ok e \<longrightarrow> entry_ok e') \<and>
        (\<not> considered loaded k e \<longrightarrow> e' = e)
    | _ \<Rightarrow> False"
proof -
  let ?loaded = "fst (ensure_loaded F idx (io_world io))"
  have p: "passed F L {k. \<exists>e. map_of (qi_entries ?loaded) k = Some e \<and> considered ?loaded k e}
      (qi_entries ?loaded) (qi_entries idx')"
    using tick_passed [OF ensure_loaded_wf [OF assms(1)] assms(2)] by (simp add: Let_def)
  then have "rel_option (green_or_kept F L (fst k) (fst (snd k))) (map_of (qi_entries ?loaded) k) (map_of (qi_entries idx') k)"
    by (simp add: passed_def)
  moreover have "map_of (qi_entries idx') k = map_of (qi_entries ?loaded) k"
    if "map_of (qi_entries ?loaded) k = Some e" "\<not> considered ?loaded k e" for e
    using p that by (simp add: passed_def)
  ultimately show ?thesis
    by (cases "map_of (qi_entries ?loaded) k"; cases "map_of (qi_entries idx') k")
      (auto simp: green_or_kept_def advances_def Let_def)
qed

section \<open>A stack is a chain\<close>

fun chain :: "string \<Rightarrow> nat option \<Rightarrow> queue_entry list \<Rightarrow> bool" where
  "chain parent after [] = True"
| "chain parent after (e # es) =
     (qe_base_sha e = parent \<and> qe_after e = after \<and> chain (qe_queue_sha e) (Some (qe_number e)) es)"

lemma restack_entry_chain:
  assumes "restack_entry F owner repo e (parent, after, io) = ((parent', after', io'), e')"
  shows "if qe_state e' = Building
    then qe_base_sha e' = parent \<and> qe_after e' = after \<and> parent' = qe_queue_sha e' \<and> after' = Some (qe_number e')
    else parent' = parent \<and> after' = after"
proof -
  let ?e = "e\<lparr>qe_attempts := supersede (qe_attempts e)\<rparr>"
  consider "qe_state e \<noteq> Building" | "qe_state e = Building" "qe_base_sha e = parent" "is_sha (qe_queue_sha e)"
    | "qe_state e = Building" "qe_base_sha e \<noteq> parent \<or> \<not> is_sha (qe_queue_sha e)" by blast
  then show ?thesis
  proof cases
    case 1
    then show ?thesis using assms by (auto simp: restack_entry_def)
  next
    case 2
    then show ?thesis using assms by (auto simp: restack_entry_def Let_def split: if_splits)
  next
    case 3
    obtain io1 res where b: "build_on F owner repo ?e parent None io = (io1, res)" by fastforce
    show ?thesis
    proof (cases res)
      case (Inl f)
      obtain io2 where "finish F owner repo ?e Dequeued (ReplayRefused f) io1 =
          (io2, ?e\<lparr>qe_state := Dequeued, qe_reason := Some (ReplayRefused f)\<rparr>)"
        using finish_pair by blast
      then show ?thesis using assms 3 b Inl by (auto simp: restack_entry_def Let_def)
    next
      case (Inr e1)
      then obtain q at where "e1 = built parent q at ?e" using b build_on_built by blast
      then show ?thesis using assms 3 b Inr by (auto simp: restack_entry_def Let_def built_def)
    qed
  qed
qed

lemma restack_loop_chain:
  assumes "distinct stack"
    and "for_entries (\<lambda>_. restack_entry F owner repo) id stack m (parent, after, io) = (m', s')"
  shows "chain parent after (map (entry_of m') (filter (building_at m') stack))"
  using assms
proof (induction stack arbitrary: m parent after io)
  case (Cons k stack)
  show ?case
  proof (cases "map_of m k")
    case None
    have run: "for_entries (\<lambda>_. restack_entry F owner repo) id stack m (parent, after, io) = (m', s')"
      using Cons.prems(2) None by (simp add: id_def)
    have "moved (\<lambda>_ _. True) (id ` set stack) m m'" by (rule for_entries_moved [OF _ _ _ run]) (use Cons.prems(1) in \<open>auto simp: reflp_def\<close>)
    from moved_None [OF this, of k] have "\<not> building_at m' k" using None by (simp add: building_at_def)
    then show ?thesis using Cons.IH [OF _ run] Cons.prems(1) by simp
  next
    case (Some e)
    obtain parent' after' io' e' where r: "restack_entry F owner repo e (parent, after, io) = ((parent', after', io'), e')"
      by (metis prod_cases4 surj_pair)
    have run: "for_entries (\<lambda>_. restack_entry F owner repo) id stack (bt_insert k e' m) (parent', after', io') = (m', s')"
      using Cons.prems(2) Some r by (simp add: id_def)
    have "moved (\<lambda>_ _. True) (id ` set stack) (bt_insert k e' m) m'"
      by (rule for_entries_moved [OF _ _ _ run]) (use Cons.prems(1) in \<open>auto simp: reflp_def\<close>)
    then have k: "map_of m' k = Some e'" using Cons.prems(1) by (simp add: moved_def map_of_bt_insert)
    have IH: "chain parent' after' (map (entry_of m') (filter (building_at m') stack))"
      using Cons.IH [OF _ run] Cons.prems(1) by simp
    have "building_at m' k \<longleftrightarrow> qe_state e' = Building" "entry_of m' k = e'"
      using k by (simp_all add: building_at_def entry_of_def)
    then show ?thesis using restack_entry_chain [OF r] IH by (auto split: if_splits)
  qed
qed simp

text \<open>
  C30. After a restack the entries of the stack that are still queued are a chain: the lowest sits on
  the base's tip, each next one on the queue commit of the one below it, and each says so.
\<close>

theorem restack_makes_a_chain:
  assumes "distinct stack" "base_tip F owner repo base (io_world io) = (w, Inr tip)"
    and "restack F owner repo base stack m io = (m', io')"
  shows "chain tip None (map (entry_of m') (filter (building_at m') stack))"
proof -
  obtain s where "for_entries (\<lambda>_. restack_entry F owner repo) id stack m (tip, None, io\<lparr>io_world := w\<rparr>) = (m', s)"
    using assms(2,3) by (auto simp: restack_def split: prod.splits)
  then show ?thesis by (rule restack_loop_chain [OF assms(1)])
qed

section \<open>Examples\<close>

definition ex_queue :: queue_index where
  "ex_queue = index_default\<lparr>qi_loaded := True, qi_entries :=
     [((''o'', ''r'', 1), ex_entry 1),
      ((''o'', ''r'', 2), (ex_entry 2)\<lparr>qe_base_sha := ex_oid 1, qe_after := Some 1\<rparr>)]\<rparr>"

definition ex_tick :: "queue_index \<times> (string \<times> string) list io \<times> nat" where
  "ex_tick = tick ex_forge ex_lander ex_queue ex_io"

lemma ex_queue_wf: "bt_wf (qi_entries ex_queue)"
  by (simp add: ex_queue_def bt_wf_def)

lemma ex_queue_loaded: "ensure_loaded ex_forge ex_queue w = (ex_queue, w)"
  by (simp add: ensure_loaded_def ex_queue_def)

lemma ex_tick_landed:
  "case map_of (qi_entries (fst ex_tick)) (''o'', ''r'', 1) of
     None \<Rightarrow> False | Some e \<Rightarrow> qe_state e = Landed \<and> qe_landed_with e = Some 2"
  by code_simp

theorem tick_keeps_what_was_queued_witness:
  "\<exists>e. map_of (qi_entries (fst ex_tick)) (''o'', ''r'', 1) = Some e \<and> identity_of e = identity_of (ex_entry 1) \<and> entry_ok e"
proof -
  obtain idx' io' n where t: "tick ex_forge ex_lander ex_queue ex_io = (idx', io', n)" by (metis prod_cases3)
  have m: "map_of (qi_entries ex_queue) (''o'', ''r'', 1) = Some (ex_entry 1)" by (simp add: ex_queue_def)
  have ok: "entry_ok (ex_entry 1)" by code_simp
  from tick_keeps_what_was_queued [OF ex_queue_wf t, of "(''o'', ''r'', 1)"] show ?thesis
    unfolding ex_tick_def t ex_queue_loaded fst_conv Let_def m using ok by (auto split: option.splits)
qed

theorem restack_makes_a_chain_witness:
  "let m' = fst (restack ex_forge ''o'' ''r'' ''main'' [(''o'', ''r'', 1), (''o'', ''r'', 2)] (qi_entries ex_queue) ex_io)
   in chain (ex_oid 0) None (map (entry_of m') (filter (building_at m') [(''o'', ''r'', 1), (''o'', ''r'', 2)]))"
proof -
  let ?stack = "[(''o'', ''r'', 1 :: nat), (''o'', ''r'', 2)]"
  have d: "distinct ?stack" by simp
  have b: "base_tip ex_forge ''o'' ''r'' ''main'' (io_world ex_io) = (ex_refs, Inr (ex_oid 0))" by code_simp
  obtain m' io' where r: "restack ex_forge ''o'' ''r'' ''main'' ?stack (qi_entries ex_queue) ex_io = (m', io')" by fastforce
  from restack_makes_a_chain [OF d b r] show ?thesis unfolding r fst_conv Let_def .
qed

end
