(* ===== verification/QueueRetries.thy ===== *)
theory QueueRetries
  imports QueueTick
begin

text \<open>
  How long red gates can keep an entry of the merge queue busy
  (\<^verbatim>\<open>crates/jeryu-api/src/web/merge_queue.rs\<close>). \<open>entry_life\<close> is everything the passes do to one entry,
  in any order and any number: checking it, restacking it, refusing or recording its landing, and
  retrying it after a red gate, which is what its index counts.
\<close>

inductive entry_life :: "'w forge \<Rightarrow> queue_entry \<Rightarrow> nat \<Rightarrow> queue_entry \<Rightarrow> bool" for F e where
  queued: "entry_life F e 0 e"
| checked: "entry_life F e n x \<Longrightarrow> qe_state x = Building \<Longrightarrow> entry_life F e n (snd (check_queued F owner repo k x s))"
| restacked: "entry_life F e n x \<Longrightarrow> entry_life F e n (snd (restack_entry F owner repo x s))"
| refused: "entry_life F e n x \<Longrightarrow> qe_state x = Building \<Longrightarrow> entry_life F e n (snd (refuse_member F owner repo problem x io))"
| landed: "entry_life F e n x \<Longrightarrow> qe_state x = Building \<Longrightarrow>
    entry_life F e n (snd (record_landing F owner repo landing topn kv x io))"
| red: "entry_life F e n x \<Longrightarrow> qe_state x = Building \<Longrightarrow> entry_life F e (Suc n) (snd (retry_or_fail F owner repo x io))"

section \<open>What each step adds to the red gates\<close>

lemma red_count_upd [simp]:
  "red_count (e\<lparr>qe_state := to\<rparr>) = red_count e" "red_count (e\<lparr>qe_reason := r\<rparr>) = red_count e"
  "red_count (e\<lparr>qe_after := a\<rparr>) = red_count e" "red_count (e\<lparr>qe_landed_sha := l\<rparr>) = red_count e"
  "red_count (e\<lparr>qe_landed_with := w\<rparr>) = red_count e" "red_count (built parent q at e) = red_count e"
  by (simp_all add: red_count_def built_def is_red_def)

lemma check_queued_red: "red_count (snd (check_queued F owner repo k e s)) = red_count e"
proof (cases s)
  case (Pair required io)
  then show ?thesis by (cases rule: check_queued_cases [of F owner repo k e required io]) simp_all
qed

lemma restack_entry_red: "red_count (snd (restack_entry F owner repo e s)) = red_count e"
proof -
  let ?e = "e\<lparr>qe_attempts := supersede (qe_attempts e)\<rparr>"
  have sup: "red_count ?e = red_count e" by (simp add: red_count_def reds_supersede)
  obtain parent after io where s: "s = (parent, after, io)" by (cases s)
  obtain io1 res where b: "build_on F owner repo ?e parent None io = (io1, res)" by fastforce
  show ?thesis
  proof (cases res)
    case (Inl f)
    obtain io2 where "finish F owner repo ?e Dequeued (ReplayRefused f) io1 =
        (io2, ?e\<lparr>qe_state := Dequeued, qe_reason := Some (ReplayRefused f)\<rparr>)"
      using finish_pair by blast
    with Inl show ?thesis using b sup by (simp add: restack_entry_def s Let_def)
  next
    case (Inr e1)
    then obtain q at where "e1 = built parent q at ?e" using b build_on_built by blast
    then show ?thesis using b Inr sup by (simp add: restack_entry_def s Let_def)
  qed
qed

lemma refuse_member_red: "red_count (snd (refuse_member F owner repo problem e io)) = red_count e"
  by (simp add: refuse_member_def split: member_problem.split)

lemma record_landing_red:
  assumes "entry_ok e" "qe_state e = Building"
  shows "red_count (snd (record_landing F owner repo landing topn kv e io)) = red_count e"
proof -
  have "red_count (e\<lparr>qe_attempts := conclude (landed_conclusion c own n) (qe_attempts e)\<rparr>) = red_count e" for c own n
    using assms reds_conclude [of "qe_attempts e"] landed_conclusion_not_failure [of c own n]
    by (simp add: red_count_def entry_ok_def)
  then show ?thesis
    by (simp add: record_landing_def landed_def Let_def red_count_def split: option.split)
qed

lemma retry_or_fail_red:
  assumes "entry_ok e" "qe_state e = Building"
  shows "red_count (snd (retry_or_fail F owner repo e io)) = Suc (red_count e)"
proof -
  let ?e = "e\<lparr>qe_attempts := conclude ''failure'' (qe_attempts e)\<rparr>"
  have one: "red_count ?e = Suc (red_count e)"
    using assms reds_conclude [of "qe_attempts e" "''failure''"] by (simp add: red_count_def entry_ok_def)
  obtain io1 res where b: "retry_build F owner repo ?e io = (io1, res)" by fastforce
  show ?thesis
  proof (cases res)
    case (Inl f)
    then show ?thesis using b one by (simp add: retry_or_fail_def Let_def)
  next
    case (Inr e1)
    then obtain q at where "e1 = built (qe_base_sha ?e) q at ?e" using b retry_build_entry by blast
    then show ?thesis using b Inr one by (simp add: retry_or_fail_def Let_def)
  qed
qed

lemma advances_ok: "advances e e' \<Longrightarrow> entry_ok e \<Longrightarrow> entry_ok e'" "advances_unlanded e e' \<Longrightarrow> entry_ok e \<Longrightarrow> entry_ok e'"
  by (auto simp: advances_def advances_unlanded_def)

lemma entry_life_red:
  assumes "entry_life F e n x" "entry_ok e"
  shows "entry_ok x \<and> red_count x = red_count e + n"
  using assms
proof induction
  case (checked n x owner repo k s)
  then show ?case using check_queued_red check_queued_advances advances_ok(2) by metis
next
  case (restacked n x owner repo s)
  then show ?case using restack_entry_red restack_entry_advances advances_ok(2) by metis
next
  case (refused n x owner repo problem io)
  then show ?case using refuse_member_red refuse_member_advances advances_ok(2) by metis
next
  case (landed n x owner repo landing topn kv io)
  then show ?case using record_landing_red record_landing_advances(1) advances_ok(1) by metis
next
  case (red n x owner repo io)
  then show ?case using retry_or_fail_red retry_or_fail_advances advances_ok(2) by (metis add_Suc_right)
qed simp

section \<open>Retries end\<close>

text \<open>
  C12. An entry that joined the queue soundly sees at most two red gates, however often it is checked,
  moved onto another parent or refused in between: the second one takes it out of the queue, so no entry
  is rebuilt for ever. The red attempts it records are exactly the red gates it saw, those before
  included.
\<close>

theorem retries_end:
  assumes "entry_ok e" "entry_life F e n x"
  shows "red_count x = red_count e + n \<and> n \<le> MAX_ATTEMPTS - red_count e \<and>
    (qe_state x = Building \<longrightarrow> n < MAX_ATTEMPTS - red_count e)"
  using entry_life_red [OF assms(2,1)] by (auto simp: entry_ok_def)

definition ex_red_entry :: queue_entry where
  "ex_red_entry = (ex_entry 1)\<lparr>qe_queue_sha := ex_oid 2,
     qe_attempts := [\<lparr>at_queue_sha = ex_oid 2, at_base_sha = ex_oid 0, at_conclusion = None, at_at = ''t''\<rparr>]\<rparr>"

definition ex_retry :: "queue_entry \<Rightarrow> queue_entry" where
  "ex_retry e = snd (retry_or_fail ex_forge ''o'' ''r'' e ex_io)"

theorem retries_end_witness:
  "qe_state ex_red_entry = Building \<and> qe_state (ex_retry ex_red_entry) = Building \<and>
   qe_state (ex_retry (ex_retry ex_red_entry)) \<noteq> Building"
proof -
  have ok: "entry_ok ex_red_entry" and b: "qe_state ex_red_entry = Building" and r: "red_count ex_red_entry = 0"
    and b1: "qe_state (ex_retry ex_red_entry) = Building"
    by code_simp+
  have one: "entry_life ex_forge ex_red_entry 1 (ex_retry ex_red_entry)"
    using entry_life.red [OF entry_life.queued b] by (simp add: ex_retry_def)
  have "entry_life ex_forge ex_red_entry 2 (ex_retry (ex_retry ex_red_entry))"
    using entry_life.red [OF one b1] by (simp add: ex_retry_def [of "ex_retry ex_red_entry"] numeral_2_eq_2)
  with retries_end [OF ok] r b b1 show ?thesis by (fastforce simp: MAX_ATTEMPTS_def)
qed

end
