(* ===== verification/RunnerEpochs.thy ===== *)
theory RunnerEpochs
  imports Tables
begin

text \<open>
  The lifetimes of work-cell runners (\<^verbatim>\<open>crates/jeryu-api/src/web/runner_epochs.rs\<close>): which runner
  may claim under which epoch. The wall clock is a \<open>time\<close> and an \<^verbatim>\<open>Instant\<close> a reading of the
  monotonic clock in nanoseconds, both given with each request; whether a runner holds a live cell is
  asked of the ledger and is an argument.
\<close>

section \<open>The registry\<close>

definition MAX_ADMITTED_RUNNERS :: nat where
  "MAX_ADMITTED_RUNNERS = 256"

definition EVICTION_GRACE :: int where
  "EVICTION_GRACE = secs 600"

definition MAX_RUNNER_ID_LEN :: nat where
  "MAX_RUNNER_ID_LEN = 128"

definition HOST_RUNNER_ID :: string where
  "HOST_RUNNER_ID = ''forge-host''"

definition valid_runner_id :: "string \<Rightarrow> bool" where
  "valid_runner_id i \<longleftrightarrow> i \<noteq> [] \<and> i \<noteq> HOST_RUNNER_ID \<and> length i \<le> MAX_RUNNER_ID_LEN \<and>
     list_all (\<lambda>s. s \<noteq> [] \<and> s \<noteq> ''.'' \<and> s \<noteq> ''..'') (split_on (CHR ''/'') i) \<and>
     list_all (\<lambda>c. is_ascii_alphanumeric c \<or> c \<in> set ''-_./'') i"

record issued =
  is_epoch :: nat
  is_replaced_epoch :: "nat option"
  is_evicted :: "(string \<times> nat) option"

record lifetime =
  lt_epoch :: nat
  lt_admitted_at :: int

record runner_registry =
  rr_issued :: "(string, lifetime) btree"
  rr_host_epoch :: nat
  rr_next_epoch :: nat

definition clock_epoch :: "time \<Rightarrow> nat" where
  "clock_epoch wall = max 1 (if wall < 0 then 0 else min u64_max (nat (wall div 1000000)))"

definition registry_default :: "time \<Rightarrow> runner_registry" where
  "registry_default wall =
     (let host_epoch = clock_epoch wall
      in \<lparr>rr_issued = [], rr_host_epoch = host_epoch, rr_next_epoch = sat_add u64_max host_epoch 1\<rparr>)"

definition idle_lifetimes :: "(string \<Rightarrow> bool) \<Rightarrow> int \<Rightarrow> (string, lifetime) btree \<Rightarrow> (string \<times> lifetime) list" where
  "idle_lifetimes holds_cells now table =
     filter (\<lambda>(i, l). EVICTION_GRACE \<le> max 0 (now - lt_admitted_at l) \<and> \<not> holds_cells i) table"

definition admit :: "string \<Rightarrow> time \<Rightarrow> int \<Rightarrow> nat option \<Rightarrow> (string \<times> nat) option \<Rightarrow> (string, lifetime) btree
    \<Rightarrow> runner_registry \<Rightarrow> runner_registry \<times> issued option" where
  "admit i wall now replaced evicted table r =
     (let epoch = max (rr_next_epoch r) (clock_epoch wall)
      in (r\<lparr>rr_next_epoch := sat_add u64_max epoch 1,
            rr_issued := bt_insert i \<lparr>lt_epoch = epoch, lt_admitted_at = now\<rparr> table\<rparr>,
          Some \<lparr>is_epoch = epoch, is_replaced_epoch = replaced, is_evicted = evicted\<rparr>))"

definition issue_at :: "string \<Rightarrow> (string \<Rightarrow> bool) \<Rightarrow> time \<Rightarrow> int \<Rightarrow> runner_registry \<Rightarrow> runner_registry \<times> issued option" where
  "issue_at i holds_cells wall now r =
     (let replaced = map_option lt_epoch (map_of (rr_issued r) i)
      in if replaced = None \<and> MAX_ADMITTED_RUNNERS \<le> length (rr_issued r) then
           (case min_by_key (lt_epoch \<circ> snd) (idle_lifetimes holds_cells now (rr_issued r)) of
              None \<Rightarrow> (r, None)
            | Some idle \<Rightarrow>
                admit i wall now replaced (Some (fst idle, lt_epoch (snd idle))) (bt_remove (fst idle) (rr_issued r)) r)
         else admit i wall now replaced None (rr_issued r) r)"

definition retire :: "string \<Rightarrow> runner_registry \<Rightarrow> runner_registry \<times> bool" where
  "retire i r = (r\<lparr>rr_issued := bt_remove i (rr_issued r)\<rparr>, map_of (rr_issued r) i \<noteq> None)"

definition admitted :: "runner_registry \<Rightarrow> (string \<times> nat) list" where
  "admitted r = map (\<lambda>(i, l). (i, lt_epoch l)) (rr_issued r)"

section \<open>Requests\<close>

datatype runner_request =
    Issue string "string \<Rightarrow> bool" time int
  | Retire string

fun runner_step :: "runner_registry \<Rightarrow> runner_request \<Rightarrow> runner_registry" where
  "runner_step r (Issue i holds_cells wall now) = fst (issue_at i holds_cells wall now r)"
| "runner_step r (Retire i) = fst (retire i r)"

definition registry_ok :: "runner_registry \<Rightarrow> bool" where
  "registry_ok r \<longleftrightarrow> bt_wf (rr_issued r) \<and> length (rr_issued r) \<le> MAX_ADMITTED_RUNNERS \<and>
     rr_next_epoch r \<le> u64_max \<and> (\<forall>l \<in> snd ` set (rr_issued r). 0 < lt_epoch l \<and> lt_epoch l \<le> rr_next_epoch r)"

lemma clock_epoch_bounds [simp]: "1 \<le> clock_epoch wall" "clock_epoch wall \<le> u64_max"
  by (auto simp: clock_epoch_def u64_max_def)

lemma admitted_iff: "bt_wf (rr_issued r) \<Longrightarrow> (i, e) \<in> set (admitted r) \<longleftrightarrow> (\<exists>l. map_of (rr_issued r) i = Some l \<and> lt_epoch l = e)"
  by (force simp: admitted_def simp flip: bt_mem_iff)

lemma bt_set_subset: "set (bt_insert k v m) \<subseteq> insert (k, v) (set m)" "set (bt_remove k m) \<subseteq> set m"
  by (auto simp: bt_remove_def dest: set_mp [OF set_bt_insert_subset])

lemma issue_at_cases:
  obtains (full) "map_of (rr_issued r) i = None" "MAX_ADMITTED_RUNNERS \<le> length (rr_issued r)"
      "idle_lifetimes holds_cells now (rr_issued r) = []" "issue_at i holds_cells wall now r = (r, None)"
  | (evict) old where "map_of (rr_issued r) i = None" "MAX_ADMITTED_RUNNERS \<le> length (rr_issued r)"
      "min_by_key (lt_epoch \<circ> snd) (idle_lifetimes holds_cells now (rr_issued r)) = Some old"
      "issue_at i holds_cells wall now r =
        admit i wall now None (Some (fst old, lt_epoch (snd old))) (bt_remove (fst old) (rr_issued r)) r"
  | (room) "map_of (rr_issued r) i \<noteq> None \<or> length (rr_issued r) < MAX_ADMITTED_RUNNERS"
      "issue_at i holds_cells wall now r =
        admit i wall now (map_option lt_epoch (map_of (rr_issued r) i)) None (rr_issued r) r"
proof (cases "map_of (rr_issued r) i = None \<and> MAX_ADMITTED_RUNNERS \<le> length (rr_issued r)")
  case True
  then show ?thesis
    using full evict
    by (cases "min_by_key (lt_epoch \<circ> snd) (idle_lifetimes holds_cells now (rr_issued r))")
      (auto simp: issue_at_def Let_def)
next
  case False
  then show ?thesis using room by (auto simp: issue_at_def Let_def)
qed

lemma admit_ok:
  assumes "registry_ok r" "bt_wf table" "set table \<subseteq> set (rr_issued r)"
    and "length (bt_insert i \<lparr>lt_epoch = max (rr_next_epoch r) (clock_epoch wall), lt_admitted_at = now\<rparr> table) \<le> MAX_ADMITTED_RUNNERS"
  shows "registry_ok (fst (admit i wall now replaced evicted table r))"
proof -
  let ?e = "max (rr_next_epoch r) (clock_epoch wall)"
  have e: "rr_next_epoch r \<le> ?e" "?e \<le> u64_max" "1 \<le> ?e"
    using assms(1) clock_epoch_bounds [of wall] unfolding registry_ok_def by simp_all
  then have later: "?e \<le> sat_add u64_max ?e 1" unfolding sat_add_def by linarith
  have "0 < lt_epoch l \<and> lt_epoch l \<le> sat_add u64_max ?e 1"
    if "l \<in> snd ` set (bt_insert i \<lparr>lt_epoch = ?e, lt_admitted_at = now\<rparr> table)" for l
  proof -
    from that obtain k where "(k, l) \<in> set (bt_insert i \<lparr>lt_epoch = ?e, lt_admitted_at = now\<rparr> table)" by force
    then have "l = \<lparr>lt_epoch = ?e, lt_admitted_at = now\<rparr> \<or> l \<in> snd ` set (rr_issued r)"
      using bt_set_subset(1) assms(3) by (metis (no_types, lifting) imageI insertE prod.inject snd_conv subsetD)
    then show ?thesis using e later assms(1) by (auto simp: registry_ok_def intro: order_trans)
  qed
  then show ?thesis using assms(2,4) by (simp add: registry_ok_def admit_def Let_def bt_wf_insert)
qed

lemma runner_step_ok: "registry_ok r \<Longrightarrow> registry_ok (runner_step r q)"
proof (cases q)
  case (Retire i)
  assume "registry_ok r"
  then show ?thesis
    using Retire bt_set_subset(2) [of i "rr_issued r"]
    by (auto simp: registry_ok_def retire_def intro: order_trans [OF length_bt_remove_le])
next
  case (Issue i holds wall now)
  assume ok: "registry_ok r"
  note wf = ok [unfolded registry_ok_def, THEN conjunct1]
  note cap = ok [unfolded registry_ok_def, THEN conjunct2, THEN conjunct1]
  show ?thesis
  proof (cases rule: issue_at_cases [of r i holds now wall])
    case full
    then show ?thesis using ok Issue by simp
  next
    case (evict old)
    from min_by_key_Some [OF evict(3)] have "old \<in> set (rr_issued r)" by (auto simp: idle_lifetimes_def)
    then have "map_of (rr_issued r) (fst old) \<noteq> None" using bt_mem_iff [OF wf] by (metis option.discI prod.collapse)
    from bt.put_after_del_bounded [OF wf cap this] show ?thesis
      unfolding Issue runner_step.simps evict(4) by (intro admit_ok [OF ok bt_wf_remove [OF wf] bt_set_subset(2)])
  next
    case room
    then have "length (bt_insert i l (rr_issued r)) \<le> MAX_ADMITTED_RUNNERS" for l
      using bt.put_in_place_bounded [OF wf cap] bt.put_with_room_bounded [OF wf] by blast
    then show ?thesis using Issue room(2) wf by (simp add: admit_ok [OF ok])
  qed
qed

lemma runner_step_rises: "registry_ok r \<Longrightarrow> rr_next_epoch r \<le> rr_next_epoch (runner_step r q)"
proof (cases q)
  case (Issue i holds wall now)
  assume "registry_ok r"
  then show ?thesis
    using Issue by (cases rule: issue_at_cases [of r i holds now wall])
      (auto simp: admit_def Let_def sat_add_def registry_ok_def)
qed (simp add: retire_def)

interpretation epochs: rising_machine runner_step registry_ok rr_next_epoch
  by unfold_locales (simp_all add: runner_step_ok runner_step_rises)

text \<open>A step admits no lifetime it did not hold before, but one with an epoch not given out yet.\<close>

lemma runner_step_new:
  assumes "registry_ok r" "(i, e) \<in> set (admitted (runner_step r q))"
  shows "(i, e) \<in> set (admitted r) \<or> rr_next_epoch r \<le> e"
proof -
  have wf: "bt_wf (rr_issued r)" "bt_wf (rr_issued (runner_step r q))"
    using assms(1) runner_step_ok [of r q] by (auto simp: registry_ok_def)
  obtain l where l: "map_of (rr_issued (runner_step r q)) i = Some l" "lt_epoch l = e"
    using assms(2) admitted_iff [OF wf(2)] by blast
  show ?thesis
  proof (cases q)
    case (Retire j)
    then have "map_of (rr_issued r) i = Some l" using l(1) by (auto simp: retire_def map_of_bt_remove split: if_splits)
    then show ?thesis using l(2) admitted_iff [OF wf(1)] by blast
  next
    case (Issue j holds wall now)
    have adm: "(i, e) \<in> set (admitted r) \<or> rr_next_epoch r \<le> e"
      if "map_of (bt_insert j \<lparr>lt_epoch = max (rr_next_epoch r) (clock_epoch wall), lt_admitted_at = now\<rparr> table) i = Some l"
        "\<And>k v. map_of table k = Some v \<Longrightarrow> map_of (rr_issued r) k = Some v" for table
      using that l(2) admitted_iff [OF wf(1)] by (auto simp: map_of_bt_insert split: if_splits)
    show ?thesis
    proof (cases rule: issue_at_cases [of r j holds now wall])
      case full
      then show ?thesis using Issue l admitted_iff [OF wf(1)] by simp
    next
      case (evict old)
      then show ?thesis using Issue l(1)
        by (intro adm [of "bt_remove (fst old) (rr_issued r)"])
          (auto simp: admit_def Let_def map_of_bt_remove split: if_splits)
    next
      case room
      then show ?thesis using Issue l(1) by (intro adm [of "rr_issued r"]) (auto simp: admit_def Let_def)
    qed
  qed
qed


text \<open>What a request is given, and whom it may push out.\<close>

lemma issue_evicts_only_the_idle:
  assumes "issue_at i holds_cells wall now r = (r', Some x)" "is_evicted x = Some (j, e)"
  shows "MAX_ADMITTED_RUNNERS \<le> length (rr_issued r) \<and> \<not> holds_cells j \<and>
    (\<exists>l. (j, l) \<in> set (rr_issued r) \<and> lt_epoch l = e \<and> EVICTION_GRACE \<le> now - lt_admitted_at l)"
proof (cases rule: issue_at_cases [of r i holds_cells now wall])
  case (evict old)
  have old: "old = (j, snd old)" "lt_epoch (snd old) = e"
    using assms evict(4) by (auto simp: admit_def Let_def)
  from min_by_key_Some [OF evict(3)] have "(j, snd old) \<in> set (idle_lifetimes holds_cells now (rr_issued r))"
    using old(1) by simp
  then have "(j, snd old) \<in> set (rr_issued r)" "\<not> holds_cells j" "EVICTION_GRACE \<le> max 0 (now - lt_admitted_at (snd old))"
    by (simp_all add: idle_lifetimes_def)
  moreover from this(3) have "EVICTION_GRACE \<le> now - lt_admitted_at (snd old)"
    by (simp add: EVICTION_GRACE_def secs_def)
  ultimately show ?thesis using evict(2) old(2) by blast
qed (use assms in \<open>auto simp: admit_def Let_def\<close>)


end
