(* ===== verification/RateLimits.thy ===== *)
theory RateLimits
  imports Tables "HOL-Library.AList"
begin

text \<open>
  The request limits in front of the API
  (\<^verbatim>\<open>crates/jeryu-api/src/web/auth/request_limits.rs\<close>, and their uses in
  \<^verbatim>\<open>crates/jeryu-api/src/web/auth.rs\<close>): counting windows per key, the budget a reply carries, the
  two counters of a failed credential and the two of the waitlist. The map of buckets is shared by all
  of them. The clock's reading is an argument, as is the text of an environment override.
\<close>

section \<open>Windows\<close>

definition LIMIT_WINDOW_SECS :: int where
  "LIMIT_WINDOW_SECS = 60"

definition DEFAULT_READS_PER_WINDOW :: nat where
  "DEFAULT_READS_PER_WINDOW = 600"

definition DEFAULT_BAD_TOKENS_PER_WINDOW :: nat where
  "DEFAULT_BAD_TOKENS_PER_WINDOW = 20"

definition DEFAULT_BAD_TOKEN_IPS_PER_WINDOW :: nat where
  "DEFAULT_BAD_TOKEN_IPS_PER_WINDOW = 200"

definition SWEEP_AT_KEYS :: nat where
  "SWEEP_AT_KEYS = 4096"

definition env_limit :: "string option \<Rightarrow> nat \<Rightarrow> nat" where
  "env_limit raw unset =
     (case raw of
        None \<Rightarrow> unset
      | Some r \<Rightarrow> (case parse_uint u32_max (trim r) of None \<Rightarrow> unset | Some n \<Rightarrow> n))"

record rate_limit_bucket =
  rb_attempts :: nat
  rb_reset_at :: time

type_synonym limits = "(string, rate_limit_bucket) btree"

definition sweep :: "limits \<Rightarrow> time \<Rightarrow> limits" where
  "sweep limits now =
     (if SWEEP_AT_KEYS \<le> length limits then bt_retain (\<lambda>_ b. now < rb_reset_at b) limits else limits)"

text \<open>The bucket of a key as an entry or a fresh one, started again once its window has elapsed.\<close>

definition current_bucket :: "limits \<Rightarrow> string \<Rightarrow> time \<Rightarrow> int \<Rightarrow> rate_limit_bucket" where
  "current_bucket limits key now window_secs =
     (let fresh = \<lparr>rb_attempts = 0, rb_reset_at = now + secs window_secs\<rparr>;
          bucket = (case map_of limits key of None \<Rightarrow> fresh | Some b \<Rightarrow> b)
      in if rb_reset_at bucket \<le> now then fresh else bucket)"

definition count_attempt :: "rate_limit_bucket \<Rightarrow> rate_limit_bucket" where
  "count_attempt b = b\<lparr>rb_attempts := sat_add u32_max (rb_attempts b) 1\<rparr>"

definition hit_for :: "limits \<Rightarrow> string \<Rightarrow> time \<Rightarrow> nat \<Rightarrow> int \<Rightarrow> limits \<times> bool" where
  "hit_for limits key now mx window_secs =
     (if mx = 0 then (limits, False)
      else let limits = sweep limits now;
               bucket = count_attempt (current_bucket limits key now window_secs)
           in (bt_insert key bucket limits, mx < rb_attempts bucket))"

definition open_bucket :: "limits \<Rightarrow> string \<Rightarrow> time \<Rightarrow> rate_limit_bucket" where
  "open_bucket limits key now = current_bucket limits key now LIMIT_WINDOW_SECS"

definition hit :: "limits \<Rightarrow> string \<Rightarrow> time \<Rightarrow> nat \<Rightarrow> limits \<times> bool" where
  "hit limits key now mx =
     (if mx = 0 then (limits, False)
      else let limits = sweep limits now;
               bucket = count_attempt (open_bucket limits key now)
           in (bt_insert key bucket limits, mx < rb_attempts bucket))"

section \<open>Budgets\<close>

record budget =
  bg_limit :: nat
  bg_remaining :: nat
  bg_reset_epoch :: int
  bg_retry_after_secs :: int

definition clamp :: "int \<Rightarrow> int \<Rightarrow> int \<Rightarrow> int" where
  "clamp lo hi x = (if x < lo then lo else if hi < x then hi else x)"

definition budget_new :: "nat \<Rightarrow> nat \<Rightarrow> time \<Rightarrow> time \<Rightarrow> budget" where
  "budget_new limit attempts reset_at now =
     \<lparr>bg_limit = limit, bg_remaining = limit - attempts, bg_reset_epoch = reset_at div 1000000000,
      bg_retry_after_secs = clamp 1 LIMIT_WINDOW_SECS (trunc_div (num_milliseconds (reset_at - now) + 999) 1000)\<rparr>"

definition budget_full :: "nat \<Rightarrow> time \<Rightarrow> budget" where
  "budget_full limit now = budget_new limit 0 (now + secs LIMIT_WINDOW_SECS) now"

definition hit_with_budget :: "limits \<Rightarrow> string \<Rightarrow> time \<Rightarrow> nat \<Rightarrow> limits \<times> bool \<times> budget" where
  "hit_with_budget limits key now mx =
     (if mx = 0 then (limits, False, budget_full mx now)
      else let limits = sweep limits now;
               bucket = count_attempt (open_bucket limits key now)
           in (bt_insert key bucket limits, mx < rb_attempts bucket,
               budget_new mx (rb_attempts bucket) (rb_reset_at bucket) now))"

type_synonym headers = "(string \<times> string) list"

definition stamp :: "headers \<Rightarrow> budget \<Rightarrow> headers" where
  "stamp headers b =
     (if bg_limit b = 0 then headers
      else AList.update ''x-ratelimit-reset'' (show_int (bg_reset_epoch b))
             (AList.update ''x-ratelimit-remaining'' (show_nat (bg_remaining b))
               (AList.update ''x-ratelimit-limit'' (show_nat (bg_limit b)) headers)))"

text \<open>The sentences of the refusals, by the limit that refuses.\<close>

datatype limit_message = CredentialKeepsFailing | AddressKeepsFailing | TooManyReads | TooManyAttempts

record refusal =
  rf_status :: nat
  rf_code :: string
  rf_message :: limit_message
  rf_headers :: headers

definition refused :: "limit_message \<Rightarrow> budget \<Rightarrow> refusal" where
  "refused message b =
     (let retry_after = (if bg_limit b = 0 then LIMIT_WINDOW_SECS else bg_retry_after_secs b)
      in \<lparr>rf_status = 429, rf_code = ''rate_limited'', rf_message = message,
          rf_headers = stamp [(''retry-after'', show_int retry_after)] b\<rparr>)"

definition too_many :: "limit_message \<Rightarrow> time \<Rightarrow> refusal" where
  "too_many message now = refused message (budget_full 0 now)"

section \<open>What is counted\<close>

definition count_failed_credential :: "nat \<Rightarrow> nat \<Rightarrow> string \<Rightarrow> string \<Rightarrow> time \<Rightarrow> limits \<Rightarrow> limits \<times> refusal option" where
  "count_failed_credential bad_tokens bad_addresses ip credential now limits =
     (let (limits, credential_over, credential_budget) =
            hit_with_budget limits (''bad-credential:'' @ ip @ '':'' @ credential) now bad_tokens;
          (limits, address_over, address_budget) =
            hit_with_budget limits (''bad-credential-address:'' @ ip) now bad_addresses
      in (limits,
          if credential_over then Some (refused CredentialKeepsFailing credential_budget)
          else if address_over then Some (refused AddressKeepsFailing address_budget)
          else None))"

definition AUTH_LIMIT_MAX :: nat where
  "AUTH_LIMIT_MAX = 10"

definition auth_rate_limit_exceeded :: "string \<Rightarrow> string \<Rightarrow> string \<Rightarrow> time \<Rightarrow> limits \<Rightarrow> limits \<times> bool" where
  "auth_rate_limit_exceeded ip action login now limits =
     hit limits (action @ '':'' @ ip @ '':'' @ to_ascii_lowercase (trim login)) now AUTH_LIMIT_MAX"

definition WAITLIST_IP_MAX :: nat where
  "WAITLIST_IP_MAX = 5"

definition WAITLIST_IP_WINDOW_SECS :: int where
  "WAITLIST_IP_WINDOW_SECS = 60 * 60"

definition WAITLIST_ROUTE_MAX :: nat where
  "WAITLIST_ROUTE_MAX = 30"

definition WAITLIST_ROUTE_WINDOW_SECS :: int where
  "WAITLIST_ROUTE_WINDOW_SECS = 60"

definition waitlist_route_window_is_closed :: "limits \<Rightarrow> time \<Rightarrow> bool" where
  "waitlist_route_window_is_closed limits now =
     (case map_of limits ''waitlist:route'' of
        Some b \<Rightarrow> now < rb_reset_at b \<and> WAITLIST_ROUTE_MAX \<le> rb_attempts b
      | None \<Rightarrow> False)"

definition waitlist_rate_limit_exceeded :: "string \<Rightarrow> time \<Rightarrow> limits \<Rightarrow> limits \<times> bool" where
  "waitlist_rate_limit_exceeded ip now limits =
     (if waitlist_route_window_is_closed limits now then (limits, True)
      else case hit_for limits (''waitlist:'' @ ip) now WAITLIST_IP_MAX WAITLIST_IP_WINDOW_SECS of
             (limits, True) \<Rightarrow> (limits, True)
           | (limits, False) \<Rightarrow>
               hit_for limits ''waitlist:route'' now WAITLIST_ROUTE_MAX WAITLIST_ROUTE_WINDOW_SECS)"

text \<open>An address is its text; \<open>parse_ip\<close> reads one.\<close>

definition client_ip_with :: "(string \<Rightarrow> string option) \<Rightarrow> string option \<Rightarrow> string option \<Rightarrow> string list \<Rightarrow> string" where
  "client_ip_with parse_ip peer forwarded_for trusted =
     (let peer_ip = (case peer of None \<Rightarrow> ''0.0.0.0'' | Some p \<Rightarrow> p)
      in if peer_ip \<notin> set trusted then peer_ip
         else case forwarded_for of
                None \<Rightarrow> peer_ip
              | Some v \<Rightarrow> (case parse_ip (trim (hd (split_on (CHR '','') v))) of None \<Rightarrow> peer_ip | Some ip \<Rightarrow> ip))"

definition parse_trusted_proxies :: "(string \<Rightarrow> string option) \<Rightarrow> string \<Rightarrow> string list" where
  "parse_trusted_proxies parse_ip raw =
     List.map_filter parse_ip (filter (\<lambda>p. p \<noteq> []) (map trim (split_on (CHR '','') raw)))"

section \<open>Counting in a window\<close>

lemma hit_is_hit_for: "hit limits key now mx = hit_for limits key now mx LIMIT_WINDOW_SECS"
  by (simp add: hit_def hit_for_def open_bucket_def)

lemma hit_with_budget_is_hit:
  "fst (hit_with_budget limits key now mx) = fst (hit limits key now mx)"
  "fst (snd (hit_with_budget limits key now mx)) = snd (hit limits key now mx)"
  by (simp_all add: hit_with_budget_def hit_def Let_def)

record hit_call =
  hc_key :: string
  hc_now :: time
  hc_max :: nat
  hc_window :: int

definition hit_step :: "limits \<Rightarrow> hit_call \<Rightarrow> limits" where
  "hit_step limits h = fst (hit_for limits (hc_key h) (hc_now h) (hc_max h) (hc_window h))"

lemma sweep_wf: "bt_wf limits \<Longrightarrow> bt_wf (sweep limits now)"
  by (simp add: sweep_def bt_wf_retain)

lemma sweep_keeps_open:
  "bt_wf limits \<Longrightarrow> map_of limits k = Some b \<Longrightarrow> now < rb_reset_at b \<Longrightarrow> map_of (sweep limits now) k = Some b"
  by (simp add: sweep_def map_of_bt_retain)

lemma sweep_Some: "bt_wf limits \<Longrightarrow> map_of (sweep limits now) k = Some b \<Longrightarrow> map_of limits k = Some b"
  by (auto simp: sweep_def map_of_bt_retain split: if_splits option.splits)

interpretation windows: guarded_machine hit_step bt_wf
  by unfold_locales (simp add: hit_step_def hit_for_def Let_def sweep_wf bt_wf_insert)

lemma hit_step_open:
  assumes "bt_wf limits" "map_of limits k = Some b" "hc_now h < rb_reset_at b"
  shows "map_of (hit_step limits h) k =
    Some (if hc_key h = k \<and> 0 < hc_max h then count_attempt b else b)"
  using sweep_keeps_open [OF assms] assms(2,3)
  by (simp add: hit_step_def hit_for_def Let_def map_of_bt_insert current_bucket_def)

definition counted :: "string \<Rightarrow> hit_call list \<Rightarrow> nat" where
  "counted k hs = length (filter (\<lambda>h. hc_key h = k \<and> 0 < hc_max h) hs)"

lemma hit_run_open:
  assumes "bt_wf limits" "map_of limits k = Some b" "\<forall>h \<in> set hs. hc_now h < rb_reset_at b"
    and "rb_attempts b \<le> u32_max"
  shows "map_of (foldl hit_step limits hs) k = Some (b\<lparr>rb_attempts := sat_add u32_max (rb_attempts b) (counted k hs)\<rparr>)"
  using assms
proof (induction hs arbitrary: limits b)
  case Nil
  then show ?case by (simp add: counted_def sat_add_def min_def)
next
  case (Cons h hs)
  have "bt_wf (hit_step limits h)" using Cons.prems(1) by (rule windows.step_inv)
  moreover have "hc_now h < rb_reset_at b" using Cons.prems(3) by simp
  note step = hit_step_open [OF Cons.prems(1,2) this]
  ultimately show ?case
    using Cons.IH [OF _ step] Cons.prems(3,4)
    by (cases "hc_key h = k \<and> 0 < hc_max h") (auto simp: counted_def count_attempt_def sat_add_def)
qed

text \<open>
  C32. From the request that opens a key's window until the window elapses, whatever else is counted in
  the same map meanwhile and however often it is swept, the requests counted against the key are
  refused exactly from the one after its limit on, and none before.
\<close>

theorem window_admits_exactly_its_limit:
  assumes "bt_wf limits" "\<forall>b. map_of limits k = Some b \<longrightarrow> rb_reset_at b \<le> t0"
    and "0 < mx" "mx < u32_max" "0 < window"
    and "\<forall>h \<in> set hs. hc_now h < t0 + secs window" "t < t0 + secs window"
    and "opened = fst (hit_for limits k t0 mx window)"
  shows "snd (hit_for (foldl hit_step opened hs) k t mx window) \<longleftrightarrow> mx < 2 + counted k hs"
proof -
  let ?b = "\<lparr>rb_attempts = 1, rb_reset_at = t0 + secs window\<rparr>"
  have "current_bucket (sweep limits t0) k t0 window = \<lparr>rb_attempts = 0, rb_reset_at = t0 + secs window\<rparr>"
    using assms(1,2) sweep_Some by (fastforce simp: current_bucket_def Let_def split: option.splits)
  then have "map_of opened k = Some ?b" "bt_wf opened"
    using assms(1,3,8) by (simp_all add: hit_for_def Let_def map_of_bt_insert count_attempt_def sat_add_def u32_max_def sweep_wf bt_wf_insert)
  moreover from this have run: "map_of (foldl hit_step opened hs) k =
      Some (?b\<lparr>rb_attempts := sat_add u32_max 1 (counted k hs)\<rparr>)"
    using hit_run_open [of opened k ?b hs] assms(6) by (simp add: u32_max_def)
  moreover have "bt_wf (foldl hit_step opened hs)" using \<open>bt_wf opened\<close> by (rule windows.run_inv)
  ultimately have "map_of (sweep (foldl hit_step opened hs) t) k = Some (?b\<lparr>rb_attempts := sat_add u32_max 1 (counted k hs)\<rparr>)"
    using assms(7) by (intro sweep_keeps_open) simp_all
  then show ?thesis
    using assms(3,4,7) by (auto simp: hit_for_def Let_def current_bucket_def count_attempt_def sat_add_def)
qed

text \<open>
  The wait a refusal names is from one second to a whole window, and is never a second too long;
  it ends less than a millisecond before the window does, and not before it when the rest of the window
  is a whole number of milliseconds.
\<close>

lemma retry_after_waits_the_window_out:
  assumes "now < reset_at" "reset_at \<le> now + secs LIMIT_WINDOW_SECS"
  shows "let wait = bg_retry_after_secs (budget_new limit attempts reset_at now) in
    1 \<le> wait \<and> wait \<le> LIMIT_WINDOW_SECS \<and> secs (wait - 1) < reset_at - now \<and>
    reset_at < now + secs wait + 1000000 \<and>
    (1000000 dvd reset_at - now \<longrightarrow> reset_at \<le> now + secs wait)"
proof -
  define d where "d = reset_at - now"
  define ms where "ms = d div 1000000"
  define wait where "wait = clamp 1 60 ((ms + 999) div 1000)"
  have d: "0 < d" "d \<le> 60000000000" using assms by (simp_all add: d_def secs_def LIMIT_WINDOW_SECS_def)
  have ms: "1000000 * ms \<le> d" "d < 1000000 * ms + 1000000" "0 \<le> ms" "ms \<le> 60000"
    using d unfolding ms_def by auto
  have up: "ms \<le> 1000 * ((ms + 999) div 1000)" "1000 * ((ms + 999) div 1000) \<le> ms + 999" by auto
  have w: "1 \<le> wait" "wait \<le> 60" "ms \<le> 1000 * wait" "wait = 1 \<or> 1000 * wait \<le> ms + 999"
    using up ms(3,4) by (auto simp: wait_def clamp_def)
  have "bg_retry_after_secs (budget_new limit attempts reset_at now) = wait"
    using d(1) ms(3) by (simp add: budget_new_def LIMIT_WINDOW_SECS_def num_milliseconds_def trunc_div_def wait_def ms_def d_def)
  moreover have "1000000 * (1000 * (wait - 1)) < d" using w(4) ms(1) d(1) by (elim disjE) simp_all
  moreover have "d < 1000000 * (1000 * wait) + 1000000" using w(3) ms(2) by linarith
  moreover have "d \<le> 1000000 * (1000 * wait)" if "1000000 dvd d"
  proof -
    have "d = 1000000 * ms" using that by (simp add: ms_def)
    then show ?thesis using w(3) by simp
  qed
  ultimately show ?thesis using w(1,2) unfolding d_def Let_def secs_def LIMIT_WINDOW_SECS_def by auto
qed

text \<open>The fraction below a millisecond is dropped before the rounding up, so the wait can be short.\<close>

lemma retry_after_can_be_short:
  "let now = 0; reset_at = secs 1 + 500 in
   now + secs (bg_retry_after_secs (budget_new 5 6 reset_at now)) < reset_at"
  by code_simp

lemma closed_route_window_inserts_nothing:
  "waitlist_route_window_is_closed limits now \<Longrightarrow> waitlist_rate_limit_exceeded ip now limits = (limits, True)"
  by (simp add: waitlist_rate_limit_exceeded_def)

theorem window_admits_exactly_its_limit_witness:
  "let opened = fst (hit_for [] ''k'' 0 2 60);
       other = \<lparr>hc_key = ''j'', hc_now = 1, hc_max = 5, hc_window = 60\<rparr>;
       mine = \<lparr>hc_key = ''k'', hc_now = 2, hc_max = 2, hc_window = 60\<rparr>
   in snd (hit_for (foldl hit_step opened [mine, other]) ''k'' 3 2 60)"
proof -
  let ?hs = "[\<lparr>hc_key = ''k'', hc_now = 2, hc_max = 2, hc_window = 60\<rparr>, \<lparr>hc_key = ''j'', hc_now = 1, hc_max = 5, hc_window = 60\<rparr>]"
  from window_admits_exactly_its_limit [of "[]" "''k''" 0 2 60 ?hs 3, OF _ _ _ _ _ _ _ refl]
  have "snd (hit_for (foldl hit_step (fst (hit_for [] ''k'' 0 2 60)) ?hs) ''k'' 3 2 60)"
    by (simp add: u32_max_def secs_def counted_def)
  then show ?thesis by (simp add: Let_def)
qed

lemma retry_after_waits_the_window_out_witness:
  "bg_retry_after_secs (budget_new 5 6 (secs 3) 0) \<le> LIMIT_WINDOW_SECS \<and> secs 3 \<le> secs (bg_retry_after_secs (budget_new 5 6 (secs 3) 0))"
  using retry_after_waits_the_window_out [of 0 "secs 3" 5 6] by (simp add: Let_def secs_def LIMIT_WINDOW_SECS_def)

end
