(* ===== verification/PktLines.thy ===== *)
theory PktLines
  imports Queries
begin

text \<open>
  What the forge writes back to a pushing git client
  (\<^verbatim>\<open>crates/jeryu-api/src/git_transport.rs\<close>): packet lines, whether the client reads a side band,
  notices appended to git's own answer, and the answer to a push the branch policy refused. A response
  is what the transport's \<^verbatim>\<open>GitHttpResponse\<close> carries. \<open>read_pkts\<close>, at the end, is the client:
  it reads a body the way git documents packet lines.
\<close>

section \<open>Characters of a text\<close>

function chars :: "string \<Rightarrow> string list" where
  "chars [] = []"
| "chars (c # cs) = (c # takeWhile is_continuation cs) # chars (dropWhile is_continuation cs)"
  by pat_completeness auto
termination
  by (relation "measure length") (auto simp: le_imp_less_Suc length_dropWhile_le)

text \<open>The characters of a line that are no control characters, at most 4000 of them.\<close>

definition clip_line :: "string \<Rightarrow> string" where
  "clip_line line = concat (take 4000 (filter (\<lambda>ch. \<not> has_control ch) (chars line)))"

function split_whitespace_from :: "string \<Rightarrow> string \<Rightarrow> string list" where
  "split_whitespace_from acc [] = (if acc = [] then [] else [acc])"
| "split_whitespace_from acc (c # cs) =
     (case find (starts_with (c # cs)) white_space of
        Some w \<Rightarrow> (if acc = [] then [] else [acc]) @ split_whitespace_from [] (drop (length w - 1) cs)
      | None \<Rightarrow> split_whitespace_from (acc @ [c]) cs)"
  by pat_completeness auto
termination
  by (relation "measure (length \<circ> snd)") auto

section \<open>Packet lines\<close>

definition ZERO_OID :: string where
  "ZERO_OID = replicate 40 (CHR ''0'')"

definition FLUSH_PKT :: string where
  "FLUSH_PKT = ''0000''"

definition SIDEBAND_PROGRESS :: char where
  "SIDEBAND_PROGRESS = byte 2"

text \<open>\<^verbatim>\<open>{:04x}\<close>: lower-case hexadecimal, padded with zeros to four digits.\<close>

definition lower_hex_digit :: "nat \<Rightarrow> char" where
  "lower_hex_digit n = byte (if n < 10 then 48 + n else 87 + n)"

fun show_hex :: "nat \<Rightarrow> string" where
  "show_hex n = (if n < 16 then [lower_hex_digit n] else show_hex (n div 16) @ [lower_hex_digit (n mod 16)])"

declare show_hex.simps [simp del]

definition hex4 :: "nat \<Rightarrow> string" where
  "hex4 n = replicate (4 - length (show_hex n)) (CHR ''0'') @ show_hex n"

definition pkt_line :: "string \<Rightarrow> string" where
  "pkt_line payload = hex4 (length payload + 4) @ payload"

record push_command =
  pc_ref_name :: string
  pc_old_oid :: string
  pc_new_oid :: string

definition pushed_branches :: "push_command list \<Rightarrow> string list" where
  "pushed_branches commands =
     List.map_filter (\<lambda>c. strip_prefix ''refs/heads/'' (pc_ref_name c))
       (filter (\<lambda>c. pc_new_oid c \<noteq> ZERO_OID) commands)"

text \<open>\<^verbatim>\<open>usize::from_str_radix(s, 16)\<close>; four digits cannot overflow.\<close>

definition usize_from_hex :: "string \<Rightarrow> nat option" where
  "usize_from_hex s =
     (let ds = (case s of c # cs \<Rightarrow> if c = CHR ''+'' then cs else s | [] \<Rightarrow> [])
      in if ds \<noteq> [] \<and> list_all is_ascii_hexdigit ds
         then Some (foldl (\<lambda>acc c. 16 * acc + hex_value c) 0 ds) else None)"

function wants_sideband :: "string \<Rightarrow> bool" where
  "wants_sideband rest =
     (if length rest < 4 then False
      else case usize_from_hex (take 4 rest) of
             None \<Rightarrow> False
           | Some len \<Rightarrow>
               let tail = drop 4 rest in
               if len < 4 then False
               else if length tail < len - 4 then False
               else let payload = take (len - 4) tail in
                    if byte 0 \<in> set payload
                    then ''side-band-64k'' \<in> set (split_whitespace_from []
                           (from_utf8_lossy (tl (dropWhile (\<lambda>b. b \<noteq> byte 0) payload))))
                    else wants_sideband (drop (len - 4) tail))"
  by pat_completeness auto
termination
  by (relation "measure length") auto

record git_response =
  gr_status :: nat
  gr_content_type :: string
  gr_extra_headers :: "(string \<times> string) list"
  gr_body :: string

definition strip_suffix :: "string \<Rightarrow> string \<Rightarrow> string option" where
  "strip_suffix p s = (if suffix p s then Some (take (length s - length p) s) else None)"

definition progress_payload :: "string \<Rightarrow> string" where
  "progress_payload line = SIDEBAND_PROGRESS # clip_line line @ [byte 10]"

definition append_sideband :: "git_response \<Rightarrow> string list \<Rightarrow> git_response" where
  "append_sideband response lns =
     (if lns = [] then response
      else case strip_suffix FLUSH_PKT (gr_body response) of
             None \<Rightarrow> response
           | Some body \<Rightarrow>
               response\<lparr>gr_body := body @ concat (map (pkt_line \<circ> progress_payload) lns) @ FLUSH_PKT\<rparr>)"

section \<open>A refused push\<close>

fun boundary_below :: "string \<Rightarrow> nat \<Rightarrow> nat" where
  "boundary_below s 0 = 0"
| "boundary_below s (Suc n) = (if char_boundary s (Suc n) then Suc n else boundary_below s n)"

definition ng_reason :: "string \<Rightarrow> string \<Rightarrow> push_command \<Rightarrow> string" where
  "ng_reason message blocked_ref c =
     (if pc_ref_name c = blocked_ref then message
      else ''batch not updated because '' @ blocked_ref @ '' was refused; retry this ref separately'')"

definition ng_prefix :: "push_command \<Rightarrow> string" where
  "ng_prefix c = ''ng '' @ pc_ref_name c @ '' ''"

text \<open>The reason, cut at a character so that the packet keeps within the protocol's bound.\<close>

definition ng_text :: "string \<Rightarrow> string \<Rightarrow> push_command \<Rightarrow> string" where
  "ng_text message blocked_ref c =
     (let reason = ng_reason message blocked_ref c;
          budget = 65516 - (length (ng_prefix c) + 1)
      in take (boundary_below reason (min (length reason) budget)) reason)"

definition ng_payload :: "string \<Rightarrow> string \<Rightarrow> push_command \<Rightarrow> string" where
  "ng_payload message blocked_ref c = ng_prefix c @ ng_text message blocked_ref c @ [byte 10]"

definition unpack_payload :: string where
  "unpack_payload = ''unpack branch policy refused before unpacking'' @ [byte 10]"

definition refusal_report :: "push_command list \<Rightarrow> string \<Rightarrow> string \<Rightarrow> string" where
  "refusal_report commands blocked_ref message =
     pkt_line unpack_payload @ concat (map (pkt_line \<circ> ng_payload message blocked_ref) commands) @ FLUSH_PKT"

text \<open>The first line is the message itself; a line per command follows while at most 64 are there.\<close>

fun progress_lines :: "string \<Rightarrow> string \<Rightarrow> push_command list \<Rightarrow> string list \<Rightarrow> string list" where
  "progress_lines message blocked_ref [] acc = acc"
| "progress_lines message blocked_ref (c # cs) acc =
     progress_lines message blocked_ref cs
       (if length acc \<le> 64 then acc @ [pc_ref_name c @ '': '' @ ng_text message blocked_ref c] else acc)"

function chunks :: "nat \<Rightarrow> string \<Rightarrow> string list" where
  "chunks n s = (if s = [] \<or> n = 0 then [] else take n s # chunks n (drop n s))"
  by pat_completeness auto
termination
  by (relation "measure (length \<circ> snd)") auto

declare chunks.simps [simp del]

definition receive_pack_refusal :: "push_command list \<Rightarrow> string \<Rightarrow> string \<Rightarrow> bool \<Rightarrow> git_response" where
  "receive_pack_refusal commands blocked_ref message sideband =
     (let message = clip_line message;
          report = refusal_report commands blocked_ref message
      in \<lparr>gr_status = 200, gr_content_type = ''application/x-git-receive-pack-result'', gr_extra_headers = [],
          gr_body =
            (if sideband then
               concat (map (pkt_line \<circ> progress_payload) (progress_lines message blocked_ref commands [message])) @
               concat (map (\<lambda>chunk. pkt_line (byte 1 # chunk)) (chunks 60000 report)) @ FLUSH_PKT
             else report)\<rparr>)"

section \<open>Reading packets back\<close>

text \<open>The payloads of a body that is packets up to a flush and nothing after it.\<close>

function read_pkts :: "string \<Rightarrow> string list option" where
  "read_pkts body =
     (if length body < 4 then None
      else case usize_from_hex (take 4 body) of
             None \<Rightarrow> None
           | Some len \<Rightarrow>
               if len = 0 then (if length body = 4 then Some [] else None)
               else if len < 4 \<or> length body < len then None
               else map_option (\<lambda>ps. take (len - 4) (drop 4 body) # ps) (read_pkts (drop len body)))"
  by pat_completeness auto
termination
  by (relation "measure length") auto

declare read_pkts.simps [simp del]

lemma lower_hex_digit_props:
  assumes "n < 16"
  shows "is_ascii_hexdigit (lower_hex_digit n)" "hex_value (lower_hex_digit n) = n" "lower_hex_digit n \<noteq> CHR ''+''"
proof -
  have "list_all (\<lambda>n. is_ascii_hexdigit (lower_hex_digit n) \<and> hex_value (lower_hex_digit n) = n \<and>
      lower_hex_digit n \<noteq> CHR ''+'') [0..<16]"
    by code_simp
  with assms show "is_ascii_hexdigit (lower_hex_digit n)" "hex_value (lower_hex_digit n) = n" "lower_hex_digit n \<noteq> CHR ''+''"
    by (simp_all add: list_all_iff)
qed

lemma zero_digit: "is_ascii_hexdigit (CHR ''0'')" "hex_value (CHR ''0'') = 0"
  by code_simp+

definition hex_number :: "string \<Rightarrow> nat" where
  "hex_number ds = foldl (\<lambda>acc c. 16 * acc + hex_value c) 0 ds"

lemma show_hex_digits: "list_all (\<lambda>c. is_ascii_hexdigit c \<and> c \<noteq> CHR ''+'') (show_hex n) \<and> hex_number (show_hex n) = n"
proof (induction n rule: show_hex.induct)
  case (1 n)
  show ?case
  proof (cases "n < 16")
    case True
    then show ?thesis using lower_hex_digit_props [OF True] by (simp add: show_hex.simps hex_number_def)
  next
    case False
    have "n mod 16 < 16" by simp
    from lower_hex_digit_props [OF this] show ?thesis
      using 1 [OF False] False by (subst (1 2) show_hex.simps) (simp add: hex_number_def)
  qed
qed

lemma length_show_hex: "n < 16 ^ k \<Longrightarrow> 0 < k \<Longrightarrow> length (show_hex n) \<le> k"
proof (induction k arbitrary: n)
  case (Suc k)
  show ?case
  proof (cases "n < 16")
    case False
    then have "0 < k" using Suc.prems(1) by (cases k) auto
    moreover have "n div 16 < 16 ^ k" using Suc.prems(1) by (simp add: less_mult_imp_div_less mult.commute)
    ultimately show ?thesis using Suc.IH [of "n div 16"] False by (simp add: show_hex.simps [of n])
  qed (simp add: show_hex.simps [of n])
qed simp

lemma hex4_facts:
  assumes "n < 65536"
  shows "length (hex4 n) = 4" "usize_from_hex (hex4 n) = Some n"
proof -
  have "length (show_hex n) \<le> 4" using length_show_hex [of n 4] assms by simp
  then show len: "length (hex4 n) = 4" by (simp add: hex4_def)
  have zeros: "hex_number (replicate k (CHR ''0'') @ ds) = hex_number ds" for k ds
    by (induction k) (simp_all add: hex_number_def zero_digit)
  have digits: "is_ascii_hexdigit c \<and> c \<noteq> CHR ''+''" if "c \<in> set (hex4 n)" for c
  proof (cases "c \<in> set (show_hex n)")
    case True
    then show ?thesis using show_hex_digits [of n] by (simp only: list_all_iff) blast
  next
    case False
    then have "c = CHR ''0''" using that unfolding hex4_def by (simp split: if_splits)
    then show ?thesis using zero_digit(1) by simp
  qed
  obtain c cs where hex: "hex4 n = c # cs" using len by (cases "hex4 n") auto
  have "c \<noteq> CHR ''+''" "list_all is_ascii_hexdigit (hex4 n)" using digits hex by (simp_all add: list_all_iff)
  moreover have "hex_number (hex4 n) = n" using show_hex_digits [of n] by (simp add: hex4_def zeros)
  ultimately show "usize_from_hex (hex4 n) = Some n"
    unfolding usize_from_hex_def hex_number_def hex Let_def list.case by simp
qed

lemma flush_value: "usize_from_hex FLUSH_PKT = Some 0" "length FLUSH_PKT = 4"
  by code_simp+

lemma read_pkt_line:
  assumes "length p + 4 < 65536"
  shows "read_pkts (pkt_line p @ rest) = map_option (Cons p) (read_pkts rest)"
proof -
  note h = hex4_facts [OF assms]
  then show ?thesis by (subst read_pkts.simps) (simp add: pkt_line_def)
qed

lemma read_flush [simp]: "read_pkts FLUSH_PKT = Some []"
  by (subst read_pkts.simps) (simp add: flush_value)

lemma read_pkt_lines:
  "\<forall>p \<in> set ps. length p + 4 < 65536 \<Longrightarrow>
   read_pkts (concat (map pkt_line ps) @ rest) = map_option ((@) ps) (read_pkts rest)"
proof (induction ps)
  case (Cons p ps)
  then show ?case by (simp add: read_pkt_line) (cases "read_pkts rest"; simp)
qed (cases "read_pkts rest"; simp)

text \<open>A body that reads as packets can be continued before its flush.\<close>

lemma read_pkts_extend:
  "read_pkts (pre @ FLUSH_PKT) = Some ps \<Longrightarrow> read_pkts (pre @ tail) = map_option ((@) ps) (read_pkts tail)"
proof (induction "pre @ FLUSH_PKT" arbitrary: pre ps rule: read_pkts.induct)
  case 1
  let ?body = "pre @ FLUSH_PKT"
  obtain len where len: "usize_from_hex (take 4 ?body) = Some len"
    using "1.prems" by (subst (asm) read_pkts.simps) (auto split: if_splits option.splits)
  show ?case
  proof (cases "len = 0")
    case True
    then have "pre = []" "ps = []" using "1.prems" len
      by (subst (asm) read_pkts.simps; auto split: if_splits simp: flush_value)+
    then show ?thesis by (cases "read_pkts tail") simp_all
  next
    case False
    then obtain qs where q: "4 \<le> len" "len \<le> length ?body" "read_pkts (drop len ?body) = Some qs"
        "ps = take (len - 4) (drop 4 ?body) # qs"
      using "1.prems" len by (subst (asm) read_pkts.simps) (auto split: if_splits)
    have "4 \<le> length (drop len ?body)" using q(3) by (subst (asm) read_pkts.simps) (auto split: if_splits)
    then have inside: "len \<le> length pre" using q(2) by (simp add: flush_value)
    then have "drop len ?body = drop len pre @ FLUSH_PKT" "take 4 ?body = take 4 (pre @ tail)"
      "take (len - 4) (drop 4 ?body) = take (len - 4) (drop 4 (pre @ tail))" "drop len (pre @ tail) = drop len pre @ tail"
      using q(1) by simp_all
    moreover from this have "read_pkts (drop len pre @ tail) = map_option ((@) qs) (read_pkts tail)"
      using "1.hyps" [OF _ len False _ _ q(3) [unfolded \<open>drop len ?body = drop len pre @ FLUSH_PKT\<close>]] q(1,2) inside by auto
    moreover have "read_pkts (pre @ tail) = map_option (Cons (take (len - 4) (drop 4 (pre @ tail)))) (read_pkts (drop len (pre @ tail)))"
      using len False q(1) inside \<open>take 4 ?body = take 4 (pre @ tail)\<close> by (subst read_pkts.simps) auto
    ultimately show ?thesis using q(4) by (cases "read_pkts tail") simp_all
  qed
qed

section \<open>What the client reads\<close>

lemma length_chars_control: "length (concat (take k xs)) \<le> k * m" if "\<forall>x \<in> set xs. length x \<le> m" for xs :: "string list"
  using that
proof (induction xs arbitrary: k)
  case (Cons x xs)
  then show ?case by (cases k) (auto intro: add_mono)
qed simp

text \<open>Text that UTF-8 allows: no character has more than three bytes after its first.\<close>

definition short_chars :: "string \<Rightarrow> bool" where
  "short_chars s \<longleftrightarrow> list_all (\<lambda>ch. length ch \<le> 4) (chars s)"

lemma clip_line_short: "short_chars line \<Longrightarrow> length (clip_line line) \<le> 16000"
  using length_chars_control [of "filter (\<lambda>ch. \<not> has_control ch) (chars line)" 4 4000]
  by (simp add: clip_line_def short_chars_def list_all_iff)

lemma strip_suffix_append [simp]: "strip_suffix p (s @ p) = Some s"
  by (simp add: strip_suffix_def suffix_def)

text \<open>
  C33. Notices leave git's own answer as it was: a client that reads the answer's packets reads the same
  ones, and after them one progress packet for each notice, before the flush that ends the answer.
\<close>

theorem notices_leave_the_report:
  assumes "gr_body response = pre @ FLUSH_PKT" "read_pkts (gr_body response) = Some ps"
    and "list_all short_chars lns"
  shows "read_pkts (gr_body (append_sideband response lns)) = Some (ps @ map progress_payload lns) \<and>
    gr_status (append_sideband response lns) = gr_status response \<and>
    gr_extra_headers (append_sideband response lns) = gr_extra_headers response"
proof (cases "lns = []")
  case True
  then show ?thesis using assms(2) by (simp add: append_sideband_def)
next
  case False
  have "\<forall>p \<in> set (map progress_payload lns). length p + 4 < 65536"
    using assms(3) clip_line_short by (force simp: progress_payload_def list_all_iff)
  from read_pkt_lines [OF this, of FLUSH_PKT]
  have "read_pkts (concat (map pkt_line (map progress_payload lns)) @ FLUSH_PKT) = Some (map progress_payload lns)" by simp
  moreover have "read_pkts (pre @ FLUSH_PKT) = Some ps" using assms(1,2) by simp
  ultimately show ?thesis
    using False assms(1) read_pkts_extend [of pre ps "concat (map pkt_line (map progress_payload lns)) @ FLUSH_PKT"]
    by (simp add: append_sideband_def comp_def)
qed

lemma boundary_below_le: "boundary_below s n \<le> n"
  by (induction n) auto

lemma length_ng_payload:
  assumes "length (pc_ref_name c) \<le> 65500"
  shows "length (ng_payload message blocked_ref c) \<le> 65516"
proof -
  let ?r = "ng_reason message blocked_ref c" and ?b = "65516 - (length (ng_prefix c) + 1)"
  have "length (ng_text message blocked_ref c) \<le> ?b"
    using boundary_below_le [of ?r "min (length ?r) ?b"] by (simp add: ng_text_def Let_def)
  then show ?thesis using assms by (simp add: ng_payload_def ng_prefix_def)
qed

text \<open>What a client reassembles from the packets of one band.\<close>

definition band :: "char \<Rightarrow> string list \<Rightarrow> string" where
  "band n ps = concat (map tl (filter (\<lambda>p. p \<noteq> [] \<and> hd p = n) ps))"

lemma concat_chunks [simp]: "0 < n \<Longrightarrow> concat (chunks n s) = s"
  by (induction n s rule: chunks.induct) (subst chunks.simps, simp)

lemma length_chunks: "c \<in> set (chunks n s) \<Longrightarrow> length c \<le> n"
proof (induction n s rule: chunks.induct)
  case (1 n s)
  then show ?case by (subst (asm) (2) chunks.simps) (auto split: if_splits)
qed

lemma band_report: "band (byte 1) (map progress_payload lns @ map (Cons (byte 1)) cs) = concat cs"
proof -
  have "filter (\<lambda>p. p \<noteq> [] \<and> hd p = byte 1) (map progress_payload lns) = []"
    by (simp add: filter_empty_conv progress_payload_def SIDEBAND_PROGRESS_def byte_def)
  then show ?thesis by (simp add: band_def filter_map comp_def)
qed


section \<open>Examples\<close>

theorem notices_leave_the_report_witness:
  "read_pkts (gr_body (append_sideband \<lparr>gr_status = 200, gr_content_type = ''x'', gr_extra_headers = [],
     gr_body = pkt_line ''ok'' @ FLUSH_PKT\<rparr> [''note''])) = Some [''ok'', progress_payload ''note'']"
proof -
  let ?r = "\<lparr>gr_status = 200, gr_content_type = ''x'', gr_extra_headers = [], gr_body = pkt_line ''ok'' @ FLUSH_PKT\<rparr>"
  have b: "gr_body ?r = pkt_line ''ok'' @ FLUSH_PKT" by simp
  have p: "read_pkts (gr_body ?r) = Some [''ok'']" by code_simp
  have s: "list_all short_chars [''note'']" by code_simp
  from notices_leave_the_report [OF b p s] show ?thesis by simp
qed


end
