(* ===== verification/PushPolicy.thy ===== *)
theory PushPolicy
  imports PktLines Forge
begin

text \<open>
  Which pushes the forge takes: \<^verbatim>\<open>crates/jeryu-api/src/git_transport/push_policy.rs\<close> and the
  rules on branches of merged pull requests it asks
  (\<^verbatim>\<open>crates/jeryu-api/src/web/pushed_after_merge.rs\<close>). The reading of receive-pack commands, the
  authentication of a request, the JSON of an override, the pull requests, the audit trail and git's
  listing of commits are arguments. An error is the reason it names; \<open>policy_code\<close> gives the status
  and code of its reply.
\<close>

section \<open>Branches of closed pull requests\<close>

definition LOOKBACK_DAYS :: int where
  "LOOKBACK_DAYS = 30"

definition MAX_COMMITS :: nat where
  "MAX_COMMITS = 10"

datatype branch_pull_state = BranchPullMerged | BranchPullClosed | BranchPullOther

record branch_pull =
  bp_number :: nat
  bp_title :: string
  bp_head_ref :: string
  bp_head_sha :: string
  bp_base_ref :: string
  bp_source_repository :: string
  bp_state :: branch_pull_state
  bp_merged :: bool
  bp_merged_at :: "time option"
  bp_updated_at :: time

record stranded_push =
  sp_repo :: string
  sp_branch :: string
  sp_number :: nat
  sp_title :: string
  sp_base_ref :: string
  sp_merged :: bool
  sp_closed_at :: "time option"
  sp_commits :: "string list"
  sp_commit_count :: nat

record merged_branch =
  mb_branch :: string
  mb_number :: nat
  mb_head_sha :: string

definition same_repo :: "branch_pull \<Rightarrow> string \<Rightarrow> bool" where
  "same_repo p full_name \<longleftrightarrow> trim (bp_source_repository p) = [] \<or> bp_source_repository p = full_name"

definition is_open_branch_pull :: "branch_pull \<Rightarrow> bool" where
  "is_open_branch_pull p \<longleftrightarrow> \<not> bp_merged p \<and> bp_state p \<notin> {BranchPullMerged, BranchPullClosed}"

definition closed_at :: "branch_pull \<Rightarrow> time" where
  "closed_at p = (case bp_merged_at p of None \<Rightarrow> bp_updated_at p | Some t \<Rightarrow> t)"

definition days :: "int \<Rightarrow> int" where
  "days n = secs (86400 * n)"

definition from_branch :: "branch_pull list \<Rightarrow> string \<Rightarrow> string \<Rightarrow> string \<Rightarrow> branch_pull list" where
  "from_branch pulls owner name branch =
     filter (\<lambda>p. bp_head_ref p = branch \<and> same_repo p (owner @ ''/'' @ name)) pulls"

definition merged_pull_request_branch_among :: "branch_pull list \<Rightarrow> string \<Rightarrow> string \<Rightarrow> string \<Rightarrow> string \<Rightarrow> time
    \<Rightarrow> merged_branch option" where
  "merged_pull_request_branch_among pulls owner name default_branch branch now =
     (let mine = from_branch pulls owner name branch in
      if default_branch = branch then None
      else if list_ex is_open_branch_pull mine then None
      else map_option (\<lambda>p. \<lparr>mb_branch = branch, mb_number = bp_number p, mb_head_sha = bp_head_sha p\<rparr>)
        (max_by_key closed_at (filter (\<lambda>p. (bp_merged p \<or> bp_state p = BranchPullMerged) \<and>
           now - days LOOKBACK_DAYS \<le> closed_at p) mine)))"

definition receive_refusal_message :: "merged_branch \<Rightarrow> string" where
  "receive_refusal_message b =
     ''this branch's pull request #'' @ show_nat (mb_number b) @
     '' was already merged; push to a new branch and open a new pull request''"

definition MAX_COUNTED_COMMITS :: string where
  "MAX_COUNTED_COMMITS = ''200''"

text \<open>\<open>run_git\<close> is git in the repository: nothing when the repository does not open or git fails.\<close>

definition commits_not_on_base :: "(string list \<Rightarrow> string option) \<Rightarrow> string \<Rightarrow> string \<Rightarrow> string list \<times> nat" where
  "commits_not_on_base run_git base_ref branch =
     (case run_git [''rev-list'', ''--max-count'', MAX_COUNTED_COMMITS, ''--abbrev-commit'', ''--end-of-options'',
             ''refs/heads/'' @ base_ref @ ''..refs/heads/'' @ branch] of
        None \<Rightarrow> ([], 0)
      | Some out \<Rightarrow>
          let named = filter (\<lambda>l. l \<noteq> []) (map trim (lines (from_utf8_lossy out)))
          in (take MAX_COMMITS named, length named))"

definition stranded_among :: "(string list \<Rightarrow> string option) \<Rightarrow> string \<Rightarrow> string \<Rightarrow> branch_pull list \<Rightarrow> string \<Rightarrow> time
    \<Rightarrow> stranded_push option" where
  "stranded_among run_git owner name pulls branch now =
     (let mine = from_branch pulls owner name branch in
      if list_ex is_open_branch_pull mine then None
      else case max_by_key closed_at (filter (\<lambda>p. now - days LOOKBACK_DAYS \<le> closed_at p) mine) of
             None \<Rightarrow> None
           | Some p \<Rightarrow>
               (case commits_not_on_base run_git (bp_base_ref p) branch of
                  (commits, n) \<Rightarrow>
                    if commits = [] then None
                    else Some \<lparr>sp_repo = owner @ ''/'' @ name, sp_branch = branch, sp_number = bp_number p,
                           sp_title = bp_title p, sp_base_ref = bp_base_ref p, sp_merged = bp_merged p,
                           sp_closed_at = Some (closed_at p), sp_commits = commits, sp_commit_count = n\<rparr>))"

definition remote_message :: "stranded_push \<Rightarrow> string list" where
  "remote_message s =
     (let named = join_with '', '' (sp_commits s);
          commits = (if length (sp_commits s) < sp_commit_count s
            then named @ '' and '' @ show_nat (sp_commit_count s - length (sp_commits s)) @ '' more'' else named);
          one = (sp_commit_count s = 1)
      in [sp_repo s @ '' #'' @ show_nat (sp_number s) @ '' from '' @ sp_branch s @ '' already '' @
            (if sp_merged s then ''merged'' else ''closed without merging'') @ ''.'',
          show_nat (sp_commit_count s) @ '' '' @ (if one then ''commit'' else ''commits'') @ '' on this branch '' @
            (if one then ''is'' else ''are'') @ '' not on '' @ sp_base_ref s @ '': '' @ commits,
          ''Nothing carries them: open a new pull request from '' @ sp_branch s @ '' so they can land.''])"

section \<open>Inspecting a push\<close>

definition MAX_PUSH_REFS :: nat where
  "MAX_PUSH_REFS = 64"

definition MAX_NOTICE_BRANCHES :: nat where
  "MAX_NOTICE_BRANCHES = 16"

datatype push_error =
    InvalidReceivePack
  | ReceivePackRefLimit
  | DuplicateReceivePackRef
  | OverrideForbidden
  | OverrideHeaderShape
  | OverrideUnreadable
  | OverrideReason
  | OverrideOfProbe
  | RepositoryUnreadable
  | PullsUnreadable
  | OverrideUnused
  | AuditFailed
  | AuditNotDurable
  | BranchRefused string merged_branch

text \<open>The status and code of a refusal; a refused branch is answered in git's own protocol.\<close>

fun policy_code :: "push_error \<Rightarrow> (nat \<times> string) option" where
  "policy_code InvalidReceivePack = Some (400, ''invalid_receive_pack'')"
| "policy_code ReceivePackRefLimit = Some (400, ''receive_pack_ref_limit'')"
| "policy_code DuplicateReceivePackRef = Some (400, ''duplicate_receive_pack_ref'')"
| "policy_code OverrideForbidden = Some (403, ''merged_branch_override_forbidden'')"
| "policy_code OverrideHeaderShape = Some (400, ''invalid_merged_branch_override'')"
| "policy_code OverrideUnreadable = Some (400, ''invalid_merged_branch_override'')"
| "policy_code OverrideReason = Some (400, ''invalid_merged_branch_override'')"
| "policy_code OverrideOfProbe = Some (400, ''merged_branch_override_mismatch'')"
| "policy_code RepositoryUnreadable = Some (500, ''push_policy_unavailable'')"
| "policy_code PullsUnreadable = Some (500, ''push_policy_unavailable'')"
| "policy_code OverrideUnused = Some (400, ''merged_branch_override_mismatch'')"
| "policy_code AuditFailed = Some (500, ''override_audit_failed'')"
| "policy_code AuditNotDurable = Some (500, ''override_audit_failed'')"
| "policy_code (BranchRefused _ _) = None"

definition refusal_answer :: "push_command list \<Rightarrow> bool \<Rightarrow> push_error \<Rightarrow> git_response option" where
  "refusal_answer commands sideband err =
     (case err of
        BranchRefused ref blocked \<Rightarrow> Some (receive_pack_refusal commands ref (receive_refusal_message blocked) sideband)
      | _ \<Rightarrow> None)"

definition push_commands :: "(string \<Rightarrow> push_command list option) \<Rightarrow> string \<Rightarrow> push_error + push_command list" where
  "push_commands receive_pack_commands body =
     (case receive_pack_commands body of
        None \<Rightarrow> Inl InvalidReceivePack
      | Some commands \<Rightarrow>
          if (commands = [] \<and> body \<noteq> ''0000'') \<or> MAX_PUSH_REFS < length commands then Inl ReceivePackRefLimit
          else if \<not> distinct (map pc_ref_name commands) then Inl DuplicateReceivePackRef
          else Inr commands)"

record override =
  ov_ref_name :: string
  ov_old_sha :: string
  ov_new_sha :: string
  ov_pull_request :: nat
  ov_reason :: string

record header_auth =
  ha_login :: string
  ha_admin :: bool
  ha_bearer :: bool
  ha_bot :: bool

definition is_override_admin :: "header_auth \<Rightarrow> bool" where
  "is_override_admin a \<longleftrightarrow> ha_bearer a \<and> \<not> ha_bot a \<and> ha_admin a"

definition admin_override :: "header_auth option \<Rightarrow> (string \<Rightarrow> override option) \<Rightarrow> string list
    \<Rightarrow> push_error + (string \<times> override) option" where
  "admin_override auth of_json vals =
     (if vals = [] then Inr None
      else case auth of
             None \<Rightarrow> Inl OverrideForbidden
           | Some actor \<Rightarrow>
               if \<not> is_override_admin actor then Inl OverrideForbidden
               else if length vals \<noteq> 1 \<or> 1024 < length (hd vals) then Inl OverrideHeaderShape
               else case of_json (hd vals) of
                      None \<Rightarrow> Inl OverrideUnreadable
                    | Some permit \<Rightarrow>
                        if trim (ov_reason permit) = [] \<or> 256 < length (ov_reason permit) \<or> has_control (ov_reason permit)
                        then Inl OverrideReason
                        else Inr (Some (ha_login actor, permit)))"

definition permits :: "(string \<times> override) option \<Rightarrow> push_command \<Rightarrow> merged_branch \<Rightarrow> bool" where
  "permits permit c blocked =
     (case permit of
        None \<Rightarrow> False
      | Some (_, p) \<Rightarrow> ov_ref_name p = pc_ref_name c \<and> ov_old_sha p = pc_old_oid c \<and> ov_new_sha p = pc_new_oid c \<and>
          ov_pull_request p = mb_number blocked)"

text \<open>The loop over the commands; \<open>used\<close> says whether the override was needed so far.\<close>

fun check_branches :: "(string \<Rightarrow> merged_branch option) \<Rightarrow> (string \<times> override) option \<Rightarrow> bool \<Rightarrow> push_command list
    \<Rightarrow> push_error + bool" where
  "check_branches merged permit used [] = Inr used"
| "check_branches merged permit used (c # cs) =
     (if pc_new_oid c = ZERO_OID then check_branches merged permit used cs
      else case strip_prefix ''refs/heads/'' (pc_ref_name c) of
             None \<Rightarrow> check_branches merged permit used cs
           | Some branch \<Rightarrow>
               (case merged branch of
                  None \<Rightarrow> check_branches merged permit used cs
                | Some blocked \<Rightarrow>
                    if pc_old_oid c = ZERO_OID \<and> pc_new_oid c = mb_head_sha blocked
                    then check_branches merged permit used cs
                    else if permits permit c blocked then check_branches merged permit True cs
                    else Inl (BranchRefused (pc_ref_name c) blocked)))"

record push_policy =
  pp_pulls :: "branch_pull list"
  pp_now :: time

record ('w, 'id) policy_core =
  pol_default_branch :: "'w \<Rightarrow> string \<Rightarrow> string \<Rightarrow> string option"
  pol_read_pulls :: "'w \<Rightarrow> branch_pull list option"
  pol_append_audit :: "'w \<Rightarrow> string \<Rightarrow> string \<Rightarrow> override \<Rightarrow> 'w \<times> 'id option"
  pol_list_audit :: "'w \<Rightarrow> string \<Rightarrow> 'id list option"

definition audit_subject :: "string \<Rightarrow> string \<Rightarrow> override \<Rightarrow> string" where
  "audit_subject owner repo p =
     owner @ ''/'' @ repo @ '':'' @ ov_ref_name p @ '':'' @ ov_old_sha p @ '':'' @ ov_new_sha p"

definition audit_override :: "('w, 'id) policy_core \<Rightarrow> string \<Rightarrow> string \<Rightarrow> string \<times> override \<Rightarrow> ('w, push_error, unit) op" where
  "audit_override C owner repo permit w =
     (let subject = audit_subject owner repo (snd permit) in
      case pol_append_audit C w (fst permit) subject (snd permit) of
        (w', None) \<Rightarrow> (w', Inl AuditFailed)
      | (w', Some row) \<Rightarrow>
          (w', case pol_list_audit C w' subject of
                 None \<Rightarrow> Inl AuditNotDurable
               | Some rows \<Rightarrow> if row \<in> set rows then Inr () else Inl AuditNotDurable))"

definition inspect :: "('w, 'id) policy_core \<Rightarrow> header_auth option \<Rightarrow> (string \<Rightarrow> override option) \<Rightarrow> string \<Rightarrow> string
    \<Rightarrow> push_command list \<Rightarrow> string list \<Rightarrow> time \<Rightarrow> ('w, push_error, push_policy) op" where
  "inspect C auth of_json owner repo commands vals now w =
     (case admin_override auth of_json vals of
        Inl err \<Rightarrow> (w, Inl err)
      | Inr permit \<Rightarrow>
          if commands = [] then
            (w, if permit \<noteq> None then Inl OverrideOfProbe else Inr \<lparr>pp_pulls = [], pp_now = now\<rparr>)
          else case pol_default_branch C w owner repo of
                 None \<Rightarrow> (w, Inl RepositoryUnreadable)
               | Some default_branch \<Rightarrow>
                   (case pol_read_pulls C w of
                      None \<Rightarrow> (w, Inl PullsUnreadable)
                    | Some pulls \<Rightarrow>
                        (case check_branches (\<lambda>branch. merged_pull_request_branch_among pulls owner repo default_branch branch now)
                                permit False commands of
                           Inl err \<Rightarrow> (w, Inl err)
                         | Inr used \<Rightarrow>
                             (case permit of
                                None \<Rightarrow> (w, Inr \<lparr>pp_pulls = pulls, pp_now = now\<rparr>)
                              | Some p \<Rightarrow>
                                  if \<not> used then (w, Inl OverrideUnused)
                                  else then_do (audit_override C owner repo p)
                                    (\<lambda>_. yield (Inr \<lparr>pp_pulls = pulls, pp_now = now\<rparr>)) w))))"

definition notice_lines :: "(string list \<Rightarrow> string option) \<Rightarrow> string \<Rightarrow> string \<Rightarrow> push_policy \<Rightarrow> string list \<Rightarrow> string list" where
  "notice_lines run_git owner repo policy branches =
     concat (map remote_message (List.map_filter
       (\<lambda>branch. stranded_among run_git owner repo (pp_pulls policy) branch (pp_now policy))
       (take MAX_NOTICE_BRANCHES branches))) @
     (if MAX_NOTICE_BRANCHES < length branches
      then [''Stranded-work notices cover at most 16 branches per push; check Needs you for additional branches.'']
      else [])"

section \<open>What a taken push may do\<close>

lemma merged_branch_Some:
  assumes "merged_pull_request_branch_among pulls owner name default_branch branch now = Some b"
  shows "branch \<noteq> default_branch" "\<forall>p \<in> set (from_branch pulls owner name branch). \<not> is_open_branch_pull p"
    "\<exists>p \<in> set (from_branch pulls owner name branch). (bp_merged p \<or> bp_state p = BranchPullMerged) \<and>
       now - days LOOKBACK_DAYS \<le> closed_at p \<and> mb_number b = bp_number p \<and> mb_head_sha b = bp_head_sha p"
proof -
  let ?mine = "from_branch pulls owner name branch"
  let ?recent = "filter (\<lambda>p. (bp_merged p \<or> bp_state p = BranchPullMerged) \<and> now - days LOOKBACK_DAYS \<le> closed_at p) ?mine"
  show "branch \<noteq> default_branch" using assms by (auto simp: merged_pull_request_branch_among_def)
  show "\<forall>p \<in> set ?mine. \<not> is_open_branch_pull p"
    using assms by (auto simp: merged_pull_request_branch_among_def Let_def list_ex_iff split: if_splits)
  obtain p where p: "max_by_key closed_at ?recent = Some p" "mb_number b = bp_number p" "mb_head_sha b = bp_head_sha p"
    using assms by (auto simp: merged_pull_request_branch_among_def Let_def split: if_splits)
  from max_by_key_Some [OF p(1)] p(2,3) show "\<exists>p \<in> set ?mine. (bp_merged p \<or> bp_state p = BranchPullMerged) \<and>
      now - days LOOKBACK_DAYS \<le> closed_at p \<and> mb_number b = bp_number p \<and> mb_head_sha b = bp_head_sha p"
    by auto
qed

text \<open>A command that moves the branch of a merged pull request, other than putting its head back.\<close>

definition touches_merged :: "(string \<Rightarrow> merged_branch option) \<Rightarrow> push_command \<Rightarrow> merged_branch \<Rightarrow> bool" where
  "touches_merged merged c blocked \<longleftrightarrow> pc_new_oid c \<noteq> ZERO_OID \<and>
     (\<exists>branch. strip_prefix ''refs/heads/'' (pc_ref_name c) = Some branch \<and> merged branch = Some blocked) \<and>
     \<not> (pc_old_oid c = ZERO_OID \<and> pc_new_oid c = mb_head_sha blocked)"

lemma touches_merged_unique:
  "touches_merged merged c b \<Longrightarrow> touches_merged merged c b' \<Longrightarrow> b' = b"
  unfolding touches_merged_def by (elim conjE exE) simp

lemma check_branches_touched:
  "touches_merged merged c b \<Longrightarrow> check_branches merged permit used (c # cs) =
     (if permits permit c b then check_branches merged permit True cs else Inl (BranchRefused (pc_ref_name c) b))"
  unfolding touches_merged_def by (elim conjE exE) (simp del: de_Morgan_conj)

lemma check_branches_untouched:
  assumes "\<nexists>b. touches_merged merged c b"
  shows "check_branches merged permit used (c # cs) = check_branches merged permit used cs"
proof (cases "strip_prefix ''refs/heads/'' (pc_ref_name c)")
  case (Some branch)
  then show ?thesis
    using assms by (cases "merged branch") (simp_all add: touches_merged_def del: de_Morgan_conj, blast)
qed simp

lemma check_branches_Inr:
  "check_branches merged permit used cs = Inr used' \<Longrightarrow>
     (\<forall>c \<in> set cs. \<forall>b. touches_merged merged c b \<longrightarrow> permits permit c b) \<and>
     (used' \<longrightarrow> used \<or> (\<exists>c \<in> set cs. \<exists>b. touches_merged merged c b))"
proof (induction cs arbitrary: used)
  case (Cons c cs)
  show ?case
  proof (cases "\<exists>b. touches_merged merged c b")
    case True
    then obtain b where b: "touches_merged merged c b" by blast
    then have "permits permit c b" "check_branches merged permit True cs = Inr used'"
      using Cons.prems by (simp_all only: check_branches_touched split: if_splits) simp_all
    then show ?thesis using Cons.IH [of True] b touches_merged_unique [OF b] by (metis set_ConsD list.set_intros(1))
  next
    case False
    then show ?thesis using Cons.IH [of used] Cons.prems check_branches_untouched [OF False]
      by (metis set_ConsD list.set_intros(2))
  qed
qed simp

lemma admin_override_Some:
  "admin_override auth of_json vals = Inr (Some (login, p)) \<Longrightarrow>
     (\<exists>a v. auth = Some a \<and> is_override_admin a \<and> ha_login a = login \<and> vals = [v] \<and> of_json v = Some p \<and>
        length v \<le> 1024 \<and> trim (ov_reason p) \<noteq> [] \<and> length (ov_reason p) \<le> 256 \<and> \<not> has_control (ov_reason p))"
  by (auto simp: admin_override_def length_Suc_conv split: if_splits option.splits)

lemma audit_override_Inr:
  "audit_override C owner repo permit w = (w', Inr ()) \<Longrightarrow>
     \<exists>row rows. pol_append_audit C w (fst permit) (audit_subject owner repo (snd permit)) (snd permit) = (w', Some row) \<and>
       pol_list_audit C w' (audit_subject owner repo (snd permit)) = Some rows \<and> row \<in> set rows"
  by (auto simp: audit_override_def Let_def split: prod.splits option.splits if_splits)

text \<open>
  The rule in terms of the pull requests: a push to \<open>branch\<close> reaches nothing when the branch is not the
  default one, no pull request from it is open, and one merged within the lookback. \<open>last_merged\<close> are
  those that merged last.
\<close>

definition recently_merged :: "branch_pull list \<Rightarrow> string \<Rightarrow> string \<Rightarrow> time \<Rightarrow> string \<Rightarrow> branch_pull list" where
  "recently_merged pulls owner repo now branch =
     filter (\<lambda>p. (bp_merged p \<or> bp_state p = BranchPullMerged) \<and> now - days 30 \<le> closed_at p)
       (from_branch pulls owner repo branch)"

definition reaches_nothing :: "branch_pull list \<Rightarrow> string \<Rightarrow> string \<Rightarrow> string \<Rightarrow> time \<Rightarrow> string \<Rightarrow> bool" where
  "reaches_nothing pulls owner repo default_branch now branch \<longleftrightarrow>
     branch \<noteq> default_branch \<and> \<not> list_ex is_open_branch_pull (from_branch pulls owner repo branch) \<and>
     recently_merged pulls owner repo now branch \<noteq> []"

definition last_merged :: "branch_pull list \<Rightarrow> string \<Rightarrow> string \<Rightarrow> time \<Rightarrow> string \<Rightarrow> branch_pull \<Rightarrow> bool" where
  "last_merged pulls owner repo now branch p \<longleftrightarrow> p \<in> set (recently_merged pulls owner repo now branch) \<and>
     (\<forall>q \<in> set (recently_merged pulls owner repo now branch). closed_at q \<le> closed_at p)"

lemma reaches_nothing_blocked:
  assumes "reaches_nothing pulls owner repo default_branch now branch"
  obtains b p where "merged_pull_request_branch_among pulls owner repo default_branch branch now = Some b"
    "last_merged pulls owner repo now branch p" "mb_number b = bp_number p" "mb_head_sha b = bp_head_sha p"
proof -
  let ?r = "recently_merged pulls owner repo now branch"
  have r: "?r \<noteq> []" using assms by (simp add: reaches_nothing_def)
  then obtain p where p: "max_by_key closed_at ?r = Some p" by (cases "max_by_key closed_at ?r") auto
  have "merged_pull_request_branch_among pulls owner repo default_branch branch now =
      Some \<lparr>mb_branch = branch, mb_number = bp_number p, mb_head_sha = bp_head_sha p\<rparr>"
    using assms p by (auto simp: merged_pull_request_branch_among_def reaches_nothing_def recently_merged_def LOOKBACK_DAYS_def Let_def)
  moreover have "last_merged pulls owner repo now branch p"
    using max_by_key_Some [OF p] by (simp add: last_merged_def)
  ultimately show ?thesis using that by simp
qed

text \<open>What a taken push may do to such a branch: put back the merged head, or what \<open>allowed\<close> allows.\<close>

definition spares_merged :: "branch_pull list \<Rightarrow> string \<Rightarrow> string \<Rightarrow> string \<Rightarrow> time
    \<Rightarrow> (push_command \<Rightarrow> branch_pull \<Rightarrow> bool) \<Rightarrow> push_command \<Rightarrow> bool" where
  "spares_merged pulls owner repo default_branch now allowed c \<longleftrightarrow>
     (\<forall>branch. strip_prefix ''refs/heads/'' (pc_ref_name c) = Some branch \<longrightarrow> pc_new_oid c \<noteq> ZERO_OID \<longrightarrow>
        reaches_nothing pulls owner repo default_branch now branch \<longrightarrow>
        (\<exists>p. last_merged pulls owner repo now branch p \<and>
           (pc_old_oid c = ZERO_OID \<and> pc_new_oid c = bp_head_sha p \<or> allowed c p)))"

definition names_update :: "override \<Rightarrow> push_command \<Rightarrow> branch_pull \<Rightarrow> bool" where
  "names_update ov c p \<longleftrightarrow> ov_ref_name ov = pc_ref_name c \<and> ov_old_sha ov = pc_old_oid c \<and>
     ov_new_sha ov = pc_new_oid c \<and> ov_pull_request ov = bp_number p"

lemma checked_spares:
  assumes "\<forall>b. touches_merged (\<lambda>branch. merged_pull_request_branch_among pulls owner repo default_branch branch now) c b \<longrightarrow>
      permits permit c b"
  shows "spares_merged pulls owner repo default_branch now
    (\<lambda>c p. \<exists>login ov. permit = Some (login, ov) \<and> names_update ov c p) c"
  unfolding spares_merged_def
proof (intro allI impI)
  fix branch
  assume c: "strip_prefix ''refs/heads/'' (pc_ref_name c) = Some branch" "pc_new_oid c \<noteq> ZERO_OID"
    and "reaches_nothing pulls owner repo default_branch now branch"
  then obtain b p where b: "merged_pull_request_branch_among pulls owner repo default_branch branch now = Some b"
    and p: "last_merged pulls owner repo now branch p" "mb_number b = bp_number p" "mb_head_sha b = bp_head_sha p"
    by (elim reaches_nothing_blocked)
  have "pc_old_oid c = ZERO_OID \<and> pc_new_oid c = bp_head_sha p \<or> permits permit c b"
    using assms c b p(3) unfolding touches_merged_def by metis
  moreover have "permits permit c b \<Longrightarrow> \<exists>login ov. permit = Some (login, ov) \<and> names_update ov c p"
    using p(2) by (auto simp: permits_def names_update_def split: option.splits)
  ultimately show "\<exists>p. last_merged pulls owner repo now branch p \<and>
      (pc_old_oid c = ZERO_OID \<and> pc_new_oid c = bp_head_sha p \<or>
       (\<exists>login ov. permit = Some (login, ov) \<and> names_update ov c p))"
    using p(1) by blast
qed

text \<open>An update the rule refuses, and that the override names.\<close>

definition needs_override :: "branch_pull list \<Rightarrow> string \<Rightarrow> string \<Rightarrow> string \<Rightarrow> time \<Rightarrow> override \<Rightarrow> push_command \<Rightarrow> bool" where
  "needs_override pulls owner repo default_branch now ov c \<longleftrightarrow>
     (\<exists>branch p. strip_prefix ''refs/heads/'' (pc_ref_name c) = Some branch \<and>
        reaches_nothing pulls owner repo default_branch now branch \<and> last_merged pulls owner repo now branch p \<and>
        pc_new_oid c \<noteq> ZERO_OID \<and> \<not> (pc_old_oid c = ZERO_OID \<and> pc_new_oid c = bp_head_sha p) \<and> names_update ov c p)"

lemma blocked_reaches_nothing:
  assumes "merged_pull_request_branch_among pulls owner repo default_branch branch now = Some b"
  shows "reaches_nothing pulls owner repo default_branch now branch \<and>
    (\<exists>p. last_merged pulls owner repo now branch p \<and> mb_number b = bp_number p \<and> mb_head_sha b = bp_head_sha p)"
proof -
  have r: "reaches_nothing pulls owner repo default_branch now branch"
    using assms unfolding merged_pull_request_branch_among_def reaches_nothing_def recently_merged_def
    by (auto simp: Let_def LOOKBACK_DAYS_def split: if_splits dest: max_by_key_Some)
  from reaches_nothing_blocked [OF r] assms show ?thesis using r by (metis option.inject)
qed

lemma touched_needs_override:
  assumes "touches_merged (\<lambda>branch. merged_pull_request_branch_among pulls owner repo default_branch branch now) c b"
    "permits (Some (login, ov)) c b"
  shows "needs_override pulls owner repo default_branch now ov c"
proof -
  obtain branch where br: "strip_prefix ''refs/heads/'' (pc_ref_name c) = Some branch"
    "merged_pull_request_branch_among pulls owner repo default_branch branch now = Some b"
    "pc_new_oid c \<noteq> ZERO_OID" "\<not> (pc_old_oid c = ZERO_OID \<and> pc_new_oid c = mb_head_sha b)"
    using assms(1) unfolding touches_merged_def by blast
  with blocked_reaches_nothing [OF br(2)] assms(2) show ?thesis
    unfolding needs_override_def names_update_def permits_def by (simp del: de_Morgan_conj) metis
qed

lemma inspect_cases:
  assumes "inspect C auth of_json owner repo commands vals now w = (w', Inr policy)" "commands \<noteq> []"
  obtains permit default_branch pulls used where "admin_override auth of_json vals = Inr permit"
    "pol_default_branch C w owner repo = Some default_branch" "pol_read_pulls C w = Some pulls"
    "check_branches (\<lambda>branch. merged_pull_request_branch_among pulls owner repo default_branch branch now)
       permit False commands = Inr used"
    "permit = None \<Longrightarrow> w' = w"
    "\<And>p. permit = Some p \<Longrightarrow> used \<and> audit_override C owner repo p w = (w', Inr ())"
proof -
  obtain permit where ov: "admin_override auth of_json vals = Inr permit"
    using assms(1) by (cases "admin_override auth of_json vals") (auto simp: inspect_def)
  obtain d where d: "pol_default_branch C w owner repo = Some d"
    using assms ov by (cases "pol_default_branch C w owner repo") (auto simp: inspect_def)
  obtain pulls where p: "pol_read_pulls C w = Some pulls"
    using assms ov d by (cases "pol_read_pulls C w") (auto simp: inspect_def)
  obtain used where c: "check_branches (\<lambda>branch. merged_pull_request_branch_among pulls owner repo d branch now)
      permit False commands = Inr used"
    using assms ov d p
    by (cases "check_branches (\<lambda>branch. merged_pull_request_branch_among pulls owner repo d branch now) permit False commands")
       (auto simp: inspect_def)
  note run = assms(1) [unfolded inspect_def ov sum.case d p option.case c]
  have "permit = None \<Longrightarrow> w' = w" using run assms(2) by simp
  moreover have "permit = Some q \<Longrightarrow> used \<and> audit_override C owner repo q w = (w', Inr ())" for q
    using run assms(2) by (auto simp: then_do_Inr_iff split: if_splits)
  ultimately show ?thesis using that [OF ov d p c] by blast
qed


text \<open>
  A merged pull request, a push that moves its branch on, and an administrator whose override names that
  move. The world is the number of audit records, and a record's id is its place.
\<close>

definition ex_merged_pull :: branch_pull where
  "ex_merged_pull = \<lparr>bp_number = 7, bp_title = ''fix'', bp_head_ref = ''f'', bp_head_sha = ''a'', bp_base_ref = ''main'',
     bp_source_repository = [], bp_state = BranchPullMerged, bp_merged = True, bp_merged_at = Some 0, bp_updated_at = 0\<rparr>"

definition ex_override :: override where
  "ex_override = \<lparr>ov_ref_name = ''refs/heads/f'', ov_old_sha = ''a'', ov_new_sha = ''b'', ov_pull_request = 7, ov_reason = ''late fix''\<rparr>"

definition ex_policy_core :: "(nat, nat) policy_core" where
  "ex_policy_core = \<lparr>pol_default_branch = (\<lambda>_ _ _. Some ''main''), pol_read_pulls = (\<lambda>_. Some [ex_merged_pull]),
     pol_append_audit = (\<lambda>w _ _ _. (w + 1, Some w)), pol_list_audit = (\<lambda>w _. Some [0..<w])\<rparr>"

definition ex_push_command :: push_command where
  "ex_push_command = \<lparr>pc_ref_name = ''refs/heads/f'', pc_old_oid = ''a'', pc_new_oid = ''b''\<rparr>"

definition ex_push :: "string list \<Rightarrow> nat \<times> (push_error + push_policy)" where
  "ex_push vals = inspect ex_policy_core (Some \<lparr>ha_login = ''ada'', ha_admin = True, ha_bearer = True, ha_bot = False\<rparr>)
     (\<lambda>_. Some ex_override) ''o'' ''r'' [ex_push_command] vals 5 0"


end
