(* ===== verification/Idempotency.thy ===== *)
theory Idempotency
  imports Tables
begin

text \<open>
  Replay of writes that carry an \<^verbatim>\<open>Idempotency-Key\<close>
  (\<^verbatim>\<open>crates/jeryu-api/src/web/idempotency.rs\<close>). The SQLite table is a table by scope; a statement that
  fails leaves it as it was and is named by \<open>fails\<close>. The middleware is split where it hands the request
  on: \<open>replay_begin\<close> up to there, \<open>replay_end\<close> from the handler's answer, so that requests interleave. JSON,
  header parsing and SHA-256 are the record \<open>http_lib\<close>; a header map is the list of its pairs.
\<close>

section \<open>The store\<close>

definition MAX_KEY_BYTES :: nat where
  "MAX_KEY_BYTES = 255"

definition MAX_REQUEST_BYTES :: nat where
  "MAX_REQUEST_BYTES = 16 * 1024 * 1024"

definition MAX_KEPT_RESPONSE_BYTES :: nat where
  "MAX_KEPT_RESPONSE_BYTES = 1024 * 1024"

definition RETENTION_MS :: int where
  "RETENTION_MS = 24 * 60 * 60 * 1000"

definition MAX_ENTRIES :: nat where
  "MAX_ENTRIES = 4096"

type_synonym header_map = "(string \<times> string) list"

record http_lib =
  lib_to_json :: "(string \<times> string) list \<Rightarrow> string option"
  lib_of_json :: "string \<Rightarrow> (string \<times> string) list option"
  lib_text :: "string \<Rightarrow> string option"
  lib_header :: "string \<times> string \<Rightarrow> (string \<times> string) option"
  lib_sha256 :: "string \<Rightarrow> string"
  lib_hex :: "string \<Rightarrow> string"

record kept_answer =
  ka_status :: nat
  ka_headers :: header_map
  ka_body :: string

record key_row =
  kr_fingerprint :: string
  kr_at_ms :: int
  kr_status :: "int option"
  kr_headers :: "string option"
  kr_body :: "string option"

type_synonym key_table = "(string, key_row) btree"

datatype reservation = Reserved | Replay kept_answer | InFlight | Reused | Unavailable string

datatype statement = DeleteExpired | SelectKey | DeleteUnreadable | CountKeys | DeleteOldest | InsertKey | UpdateAnswer | DeleteReservation

type_synonym failures = "statement \<Rightarrow> string option"

definition open_store :: "key_table \<Rightarrow> key_table" where
  "open_store rows = bt_retain (\<lambda>_ r. kr_status r \<noteq> None) rows"

text \<open>A value that is not text is left out.\<close>

definition rendered_headers :: "http_lib \<Rightarrow> header_map \<Rightarrow> string" where
  "rendered_headers L headers =
     (case lib_to_json L (List.map_filter (\<lambda>(n, v). map_option (Pair n) (lib_text L v)) headers) of
        None \<Rightarrow> ''[]'' | Some t \<Rightarrow> t)"

definition without_set_cookie :: "header_map \<Rightarrow> header_map" where
  "without_set_cookie headers = filter (\<lambda>h. fst h \<noteq> ''set-cookie'') headers"

definition kept_reply :: "http_lib \<Rightarrow> int \<Rightarrow> string option \<Rightarrow> string option \<Rightarrow> kept_answer option" where
  "kept_reply L status headers body =
     (if status < 100 \<or> 1000 \<le> status then None
      else case lib_of_json L (case headers of None \<Rightarrow> ''[]'' | Some t \<Rightarrow> t) of
             None \<Rightarrow> None
           | Some pairs \<Rightarrow>
               Some \<lparr>ka_status = nat status, ka_headers = List.map_filter (lib_header L) pairs,
                     ka_body = (case body of None \<Rightarrow> [] | Some b \<Rightarrow> b)\<rparr>)"

text \<open>The oldest finished answers; those of one moment in the order of the table.\<close>

definition oldest_finished :: "nat \<Rightarrow> key_table \<Rightarrow> string list" where
  "oldest_finished n rows =
     map fst (take n (sort_key (\<lambda>e. kr_at_ms (snd e)) (filter (\<lambda>e. kr_status (snd e) \<noteq> None) rows)))"

definition forget_oldest :: "failures \<Rightarrow> key_table \<Rightarrow> string + key_table" where
  "forget_oldest fails rows =
     (case fails CountKeys of
        Some err \<Rightarrow> Inl err
      | None \<Rightarrow>
          if MAX_ENTRIES \<le> length rows then
            (case fails DeleteOldest of
               Some err \<Rightarrow> Inl err
             | None \<Rightarrow>
                 let gone = oldest_finished (length rows - MAX_ENTRIES + 1) rows
                 in Inr (bt_retain (\<lambda>k _. k \<notin> set gone) rows))
          else Inr rows)"

definition found_row :: "http_lib \<Rightarrow> failures \<Rightarrow> string \<Rightarrow> string \<Rightarrow> key_row \<Rightarrow> key_table \<Rightarrow> key_table \<times> (string + reservation)" where
  "found_row L fails scope fingerprint row rows =
     (if kr_fingerprint row \<noteq> fingerprint then (rows, Inr Reused)
      else case kr_status row of
             None \<Rightarrow> (rows, Inr InFlight)
           | Some status \<Rightarrow>
               (case kept_reply L status (kr_headers row) (kr_body row) of
                  Some reply \<Rightarrow> (rows, Inr (Replay reply))
                | None \<Rightarrow>
                    (case fails DeleteUnreadable of
                       Some err \<Rightarrow> (rows, Inl err)
                     | None \<Rightarrow> (bt_remove scope rows, Inr Reserved))))"

definition insert_key :: "failures \<Rightarrow> string \<Rightarrow> string \<Rightarrow> int \<Rightarrow> key_table \<Rightarrow> key_table \<times> (string + reservation)" where
  "insert_key fails scope fingerprint now_ms rows =
     (case fails InsertKey of
        Some err \<Rightarrow> (rows, Inl err)
      | None \<Rightarrow>
          (bt_insert scope \<lparr>kr_fingerprint = fingerprint, kr_at_ms = now_ms, kr_status = None, kr_headers = None,
             kr_body = None\<rparr> rows, Inr Reserved))"

definition try_reserve :: "http_lib \<Rightarrow> failures \<Rightarrow> string \<Rightarrow> string \<Rightarrow> int \<Rightarrow> key_table \<Rightarrow> key_table \<times> (string + reservation)" where
  "try_reserve L fails scope fingerprint now_ms rows =
     (case fails DeleteExpired of
        Some err \<Rightarrow> (rows, Inl err)
      | None \<Rightarrow>
          let rows = bt_retain (\<lambda>_ r. \<not> kr_at_ms r \<le> now_ms - RETENTION_MS) rows
          in case fails SelectKey of
               Some err \<Rightarrow> (rows, Inl err)
             | None \<Rightarrow>
                 (case map_of rows scope of
                    Some row \<Rightarrow> found_row L fails scope fingerprint row rows
                  | None \<Rightarrow>
                      (case forget_oldest fails rows of
                         Inl err \<Rightarrow> (rows, Inl err)
                       | Inr rows \<Rightarrow> insert_key fails scope fingerprint now_ms rows)))"

definition reserve :: "http_lib \<Rightarrow> failures \<Rightarrow> string \<Rightarrow> string \<Rightarrow> int \<Rightarrow> key_table \<Rightarrow> key_table \<times> reservation" where
  "reserve L fails scope fingerprint now_ms rows =
     (case try_reserve L fails scope fingerprint now_ms rows of
        (rows, Inr r) \<Rightarrow> (rows, r)
      | (rows, Inl reason) \<Rightarrow> (rows, Unavailable reason))"

definition keep_answer :: "http_lib \<Rightarrow> failures \<Rightarrow> string \<Rightarrow> kept_answer \<Rightarrow> int \<Rightarrow> key_table \<Rightarrow> key_table" where
  "keep_answer L fails scope reply now_ms rows =
     (if fails UpdateAnswer \<noteq> None then rows
      else bt_update scope (\<lambda>r. if kr_status r = None
             then r\<lparr>kr_at_ms := now_ms, kr_status := Some (int (ka_status reply)),
                    kr_headers := Some (rendered_headers L (ka_headers reply)), kr_body := Some (ka_body reply)\<rparr>
             else r) rows)"

definition release_key :: "failures \<Rightarrow> string \<Rightarrow> key_table \<Rightarrow> key_table" where
  "release_key fails scope rows =
     (if fails DeleteReservation \<noteq> None then rows
      else bt_retain (\<lambda>k r. \<not> (k = scope \<and> kr_status r = None)) rows)"

section \<open>The middleware\<close>

record http_request =
  hq_method :: string
  hq_path :: string
  hq_uri :: string
  hq_headers :: header_map
  hq_body :: "string option"

record http_response =
  hs_status :: nat
  hs_headers :: header_map
  hs_body :: "string option"

definition header_get :: "string \<Rightarrow> header_map \<Rightarrow> string option" where
  "header_get n headers = map_option snd (find (\<lambda>h. fst h = n) headers)"

definition header_get_all :: "string \<Rightarrow> header_map \<Rightarrow> string list" where
  "header_get_all n headers = map snd (filter (\<lambda>h. fst h = n) headers)"

definition header_insert :: "string \<Rightarrow> string \<Rightarrow> header_map \<Rightarrow> header_map" where
  "header_insert n v headers = filter (\<lambda>h. fst h \<noteq> n) headers @ [(n, v)]"

definition moves_a_lease :: "string \<Rightarrow> bool" where
  "moves_a_lease path \<longleftrightarrow> path = ''/api/v1/gate-claims'' \<or> path = ''/api/v1/gate-claims/release''"

definition applies :: "string \<Rightarrow> string \<Rightarrow> bool" where
  "applies m path \<longleftrightarrow> m = ''POST'' \<and> \<not> moves_a_lease path \<and>
     list_ex (starts_with path) [''/api/v1/'', ''/repos/'', ''/api/v3/repos/'']"

definition secret_paths :: "string list" where
  "secret_paths = [''/api/v1/bots'', ''/api/v1/bot/token'', ''/api/v1/bot/token/refresh'', ''/api/v1/auth/tokens'',
     ''/api/v1/auth/login'', ''/api/v1/auth/signup'', ''/api/v1/auth/password'']"

definition returns_a_secret :: "string \<Rightarrow> bool" where
  "returns_a_secret path =
     (if path \<in> set secret_paths then True
      else case strip_prefix ''/api/v1/admin/users/'' path of
             Some rest \<Rightarrow> tl (split_on (CHR ''/'') rest) = [''reset-password'']
           | None \<Rightarrow>
               (case strip_prefix ''/api/v1/bots/'' path of
                  None \<Rightarrow> False
                | Some rest \<Rightarrow> tl (split_on (CHR ''/'') rest) \<in> {[''keys''], [''tokens'']}))"

definition key_is_valid :: "string \<Rightarrow> bool" where
  "key_is_valid key \<longleftrightarrow> key \<noteq> [] \<and> length key \<le> MAX_KEY_BYTES \<and> list_all is_ascii_graphic key"

definition is_buffered :: "http_lib \<Rightarrow> header_map \<Rightarrow> bool" where
  "is_buffered L headers =
     (let streaming = (case Option.bind (header_get ''content-type'' headers) (lib_text L) of
            None \<Rightarrow> False | Some v \<Rightarrow> starts_with v ''text/event-stream'');
          len = Option.bind (Option.bind (header_get ''content-length'' headers) (lib_text L)) (parse_uint usize_max)
      in \<not> streaming \<and> (case len of None \<Rightarrow> True | Some n \<Rightarrow> n \<le> MAX_KEPT_RESPONSE_BYTES))"

definition scope_input :: "header_map \<Rightarrow> string \<Rightarrow> string" where
  "scope_input headers key =
     concat (map (\<lambda>n. concat (map (\<lambda>v. v @ [byte 0]) (header_get_all n headers)) @ [byte 1])
       [''authorization'', ''cookie'']) @ key"

definition scope_of :: "http_lib \<Rightarrow> header_map \<Rightarrow> string \<Rightarrow> string" where
  "scope_of L headers key = lib_hex L (lib_sha256 L (scope_input headers key))"

definition fingerprint_of :: "http_lib \<Rightarrow> string \<Rightarrow> string \<Rightarrow> string \<Rightarrow> string" where
  "fingerprint_of L m uri body = lib_sha256 L (m @ [byte 0] @ uri @ [byte 0] @ body)"

definition withheld_body :: string where
  \<open>withheld_body = ''{"code":"idempotent_secret_withheld","message":"this request already ran with this Idempotency-Key; its answer held a secret that is shown once and is not kept"}''\<close>

definition secret_withheld_reply :: kept_answer where
  "secret_withheld_reply = \<lparr>ka_status = 409, ka_headers = [(''content-type'', ''application/json'')], ka_body = withheld_body\<rparr>"

definition replayed :: "kept_answer \<Rightarrow> http_response" where
  "replayed reply = \<lparr>hs_status = ka_status reply, hs_headers = header_insert ''idempotent-replayed'' ''true'' (ka_headers reply),
     hs_body = Some (ka_body reply)\<rparr>"

text \<open>What the middleware does before the handler: hand the request on, answer, or run it under a reservation.\<close>

datatype admission =
    PassOn
  | InvalidKey
  | PayloadTooLarge
  | AnswerAgain http_response
  | KeyInFlight
  | KeyReused
  | StoreFailed string
  | RunOnce string bool

definition replay_begin :: "http_lib \<Rightarrow> failures \<Rightarrow> int \<Rightarrow> http_request \<Rightarrow> key_table \<Rightarrow> key_table \<times> admission" where
  "replay_begin L fails now_ms req rows =
     (case header_get ''idempotency-key'' (hq_headers req) of
        None \<Rightarrow> (rows, PassOn)
      | Some key \<Rightarrow>
          if \<not> applies (hq_method req) (hq_path req) then (rows, PassOn)
          else if \<not> key_is_valid key then (rows, InvalidKey)
          else case hq_body req of
                 None \<Rightarrow> (rows, PayloadTooLarge)
               | Some body \<Rightarrow>
                   if MAX_REQUEST_BYTES < length body then (rows, PayloadTooLarge)
                   else let scope = scope_of L (hq_headers req) key;
                            fingerprint = fingerprint_of L (hq_method req) (hq_uri req) body
                        in case reserve L fails scope fingerprint now_ms rows of
                             (rows, Reserved) \<Rightarrow> (rows, RunOnce scope (returns_a_secret (hq_path req)))
                           | (rows, Replay reply) \<Rightarrow> (rows, AnswerAgain (replayed reply))
                           | (rows, InFlight) \<Rightarrow> (rows, KeyInFlight)
                           | (rows, Reused) \<Rightarrow> (rows, KeyReused)
                           | (rows, Unavailable reason) \<Rightarrow> (rows, StoreFailed reason))"

definition kept_of :: "bool \<Rightarrow> http_response \<Rightarrow> string \<Rightarrow> kept_answer" where
  "kept_of secret_route response bytes =
     (if (secret_route \<or> header_get ''set-cookie'' (hs_headers response) \<noteq> None) \<and>
         200 \<le> hs_status response \<and> hs_status response < 300
      then secret_withheld_reply
      else \<lparr>ka_status = hs_status response, ka_headers = without_set_cookie (hs_headers response), ka_body = bytes\<rparr>)"

text \<open>The answer of the caller: the handler's, or an error when its body could not be read.\<close>

definition replay_end :: "http_lib \<Rightarrow> failures \<Rightarrow> int \<Rightarrow> string \<Rightarrow> bool \<Rightarrow> http_response \<Rightarrow> key_table
    \<Rightarrow> key_table \<times> http_response option" where
  "replay_end L fails now_ms scope secret_route response rows =
     (if (500 \<le> hs_status response \<and> hs_status response < 600) \<or> \<not> is_buffered L (hs_headers response)
      then (release_key fails scope rows, Some response)
      else case hs_body response of
             None \<Rightarrow> (release_key fails scope rows, None)
           | Some bytes \<Rightarrow>
               if MAX_KEPT_RESPONSE_BYTES < length bytes then (release_key fails scope rows, None)
               else (release_key fails scope
                       (keep_answer L fails scope (kept_of secret_route response bytes) now_ms rows), Some response))"

section \<open>Requests interleaved\<close>

record running =
  rn_scope :: string
  rn_secret :: bool
  rn_since :: int

text \<open>
  What can happen to the store and the requests running under a reservation: another request arrives, a
  running one is answered, one goes away without an answer, or the process starts again. Any statement
  may fail. A request that runs for a day has lost its reservation, so arrivals are taken while none has.
\<close>

inductive idem_reach :: "http_lib \<Rightarrow> key_table \<Rightarrow> running list \<Rightarrow> bool" for L where
  fresh: "idem_reach L [] []"
| arrives: "idem_reach L rows rs \<Longrightarrow> \<forall>r \<in> set rs. now - RETENTION_MS < rn_since r \<Longrightarrow>
    replay_begin L fails now req rows = (rows', adm) \<Longrightarrow>
    idem_reach L rows' (case adm of RunOnce scope secret \<Rightarrow> \<lparr>rn_scope = scope, rn_secret = secret, rn_since = now\<rparr> # rs | _ \<Rightarrow> rs)"
| answered: "idem_reach L rows rs \<Longrightarrow> r \<in> set rs \<Longrightarrow> 100 \<le> hs_status response \<and> hs_status response < 1000 \<Longrightarrow>
    replay_end L fails now (rn_scope r) (rn_secret r) response rows = (rows', answer) \<Longrightarrow>
    idem_reach L rows' (remove1 r rs)"
| vanishes: "idem_reach L rows rs \<Longrightarrow> r \<in> set rs \<Longrightarrow> idem_reach L (release_key fails (rn_scope r) rows) (remove1 r rs)"
| restarts: "idem_reach L rows rs \<Longrightarrow> idem_reach L (open_store rows) []"

text \<open>What is relied on of serde: what it writes it reads back.\<close>

definition json_ok :: "http_lib \<Rightarrow> bool" where
  "json_ok L \<longleftrightarrow> lib_of_json L ''[]'' = Some [] \<and>
     (\<forall>pairs t. lib_to_json L pairs = Some t \<longrightarrow> lib_of_json L t = Some pairs)"

definition row_readable :: "http_lib \<Rightarrow> key_row \<Rightarrow> bool" where
  "row_readable L r \<longleftrightarrow> (\<forall>s. kr_status r = Some s \<longrightarrow> kept_reply L s (kr_headers r) (kr_body r) \<noteq> None)"

definition rows_ok :: "http_lib \<Rightarrow> key_table \<Rightarrow> bool" where
  "rows_ok L rows \<longleftrightarrow> bt_wf rows \<and> (\<forall>k r. map_of rows k = Some r \<longrightarrow> row_readable L r)"

definition holds :: "key_table \<Rightarrow> running \<Rightarrow> bool" where
  "holds rows j \<longleftrightarrow> (\<exists>r. map_of rows (rn_scope j) = Some r \<and> kr_status r = None \<and> kr_at_ms r = rn_since j)"

definition idem_inv :: "http_lib \<Rightarrow> key_table \<Rightarrow> running list \<Rightarrow> bool" where
  "idem_inv L rows rs \<longleftrightarrow> rows_ok L rows \<and> distinct (map rn_scope rs) \<and> (\<forall>j \<in> set rs. holds rows j)"

lemma rendered_readable: "json_ok L \<Longrightarrow> lib_of_json L (rendered_headers L headers) \<noteq> None"
  by (auto simp: json_ok_def rendered_headers_def split: option.splits)

lemma rows_ok_retain: "rows_ok L rows \<Longrightarrow> rows_ok L (bt_retain P rows)"
  by (auto simp: rows_ok_def map_of_bt_retain bt_wf_retain split: option.splits if_splits)

lemma rows_ok_insert: "rows_ok L rows \<Longrightarrow> kr_status r = None \<Longrightarrow> rows_ok L (bt_insert k r rows)"
  by (auto simp: rows_ok_def map_of_bt_insert bt_wf_insert row_readable_def)

lemma holds_retain:
  "bt_wf rows \<Longrightarrow> holds rows j \<Longrightarrow> (\<And>r. kr_status r = None \<Longrightarrow> kr_at_ms r = rn_since j \<Longrightarrow> P (rn_scope j) r) \<Longrightarrow>
     holds (bt_retain P rows) j"
  by (auto simp: holds_def map_of_bt_retain)

text \<open>Making room forgets finished answers only.\<close>

lemma oldest_are_finished:
  assumes "bt_wf rows" "k \<in> set (oldest_finished n rows)" "map_of rows k = Some r"
  shows "kr_status r \<noteq> None"
proof -
  obtain r' where "(k, r') \<in> set rows" "kr_status r' \<noteq> None"
    using assms(2) by (auto simp: oldest_finished_def dest!: in_set_takeD)
  then show ?thesis using assms(1,3) by (simp add: bt_mem_iff)
qed

lemma forget_oldest_keeps:
  assumes "rows_ok L rows" "forget_oldest fails rows = Inr rows'"
  shows "rows_ok L rows' \<and> (\<forall>j. holds rows j \<longrightarrow> holds rows' j) \<and> (map_of rows k = None \<longrightarrow> map_of rows' k = None)"
proof -
  have wf: "bt_wf rows" using assms(1) by (simp add: rows_ok_def)
  show ?thesis
  proof (cases "rows' = rows")
    case True
    then show ?thesis using assms(1) by simp
  next
    case False
    then obtain n where r: "rows' = bt_retain (\<lambda>k _. k \<notin> set (oldest_finished n rows)) rows"
      using assms(2) by (auto simp: forget_oldest_def Let_def split: option.splits if_splits)
    have "holds rows' j" if "holds rows j" for j
      using that oldest_are_finished [OF wf] by (fastforce simp: r holds_def map_of_bt_retain [OF wf])
    then show ?thesis using assms(1) wf by (auto simp: r rows_ok_retain map_of_bt_retain)
  qed
qed

definition unexpired :: "int \<Rightarrow> key_table \<Rightarrow> key_table" where
  "unexpired now rows = bt_retain (\<lambda>_ r. \<not> kr_at_ms r \<le> now - RETENTION_MS) rows"

definition open_row :: "string \<Rightarrow> int \<Rightarrow> key_row" where
  "open_row fp now = \<lparr>kr_fingerprint = fp, kr_at_ms = now, kr_status = None, kr_headers = None, kr_body = None\<rparr>"

lemma reserve_cases:
  assumes "rows_ok L rows" "reserve L fails scope fp now rows = (rows', r)"
  obtains (same) "rows' = rows \<or> rows' = unexpired now rows" "r \<noteq> Reserved"
  | (full) "forget_oldest fails (unexpired now rows) = Inr rows'" "r \<noteq> Reserved"
  | (fresh) rows2 where "map_of (unexpired now rows) scope = None" "forget_oldest fails (unexpired now rows) = Inr rows2"
      "rows' = bt_insert scope (open_row fp now) rows2" "r = Reserved"
proof (cases "fails DeleteExpired = None \<and> fails SelectKey = None")
  case False
  then show ?thesis
    using same assms(2) by (auto simp: reserve_def try_reserve_def Let_def unexpired_def split: option.splits)
next
  case True
  note run = assms(2) [unfolded reserve_def try_reserve_def Let_def, folded unexpired_def]
  show ?thesis
  proof (cases "map_of (unexpired now rows) scope")
    case (Some row)
    have "row_readable L row" using rows_ok_retain [OF assms(1)] Some by (auto simp: unexpired_def rows_ok_def)
    then have "rows' = unexpired now rows \<and> r \<noteq> Reserved"
      using run True Some by (auto simp: found_row_def row_readable_def split: option.splits if_splits)
    then show ?thesis using same by blast
  next
    case None
    show ?thesis
    proof (cases "forget_oldest fails (unexpired now rows)")
      case (Inl err)
      then show ?thesis using same run True None by auto
    next
      case (Inr rows2)
      then show ?thesis
        using full fresh run True None by (cases "fails InsertKey") (auto simp: insert_key_def open_row_def)
    qed
  qed
qed

lemma unexpired_keeps:
  "rows_ok L rows \<Longrightarrow> rows_ok L (unexpired now rows)"
  "rows_ok L rows \<Longrightarrow> holds rows j \<Longrightarrow> now - RETENTION_MS < rn_since j \<Longrightarrow> holds (unexpired now rows) j"
  unfolding unexpired_def by (auto simp: rows_ok_def intro: rows_ok_retain holds_retain)
    (auto simp: map_of_bt_retain split: option.splits if_splits)

lemma reserve_keeps:
  assumes ok: "rows_ok L rows" and res: "reserve L fails scope fp now rows = (rows', r)"
  shows "rows_ok L rows' \<and> (r = Reserved \<longrightarrow> map_of rows' scope = Some (open_row fp now)) \<and>
    (\<forall>j. holds rows j \<longrightarrow> now - RETENTION_MS < rn_since j \<longrightarrow> holds rows' j \<and> (r = Reserved \<longrightarrow> rn_scope j \<noteq> scope))"
  using ok res
proof (cases rule: reserve_cases)
  case same
  then show ?thesis using ok unexpired_keeps by blast
next
  case full
  then show ?thesis using forget_oldest_keeps [OF unexpired_keeps(1) [OF ok] full(1)] unexpired_keeps(2) [OF ok] by blast
next
  case (fresh rows2)
  have room: "rows_ok L rows2" "\<And>j. holds (unexpired now rows) j \<Longrightarrow> holds rows2 j"
    using forget_oldest_keeps [OF unexpired_keeps(1) [OF ok] fresh(2)] by auto
  have "rn_scope j \<noteq> scope" if "holds (unexpired now rows) j" for j
    using that fresh(1) by (auto simp: holds_def)
  then show ?thesis
    using fresh(3) room unexpired_keeps(2) [OF ok]
    by (auto simp: rows_ok_insert open_row_def map_of_bt_insert holds_def [of "bt_insert _ _ _"])
      (metis holds_def)
qed

lemma replay_begin_cases:
  assumes "replay_begin L fails now req rows = (rows', adm)"
  obtains (outside) "rows' = rows" "adm \<in> {PassOn, InvalidKey, PayloadTooLarge}"
  | (inside) scope fp r where "reserve L fails scope fp now rows = (rows', r)"
      "adm = (case r of Reserved \<Rightarrow> RunOnce scope (returns_a_secret (hq_path req)) | Replay k \<Rightarrow> AnswerAgain (replayed k)
        | InFlight \<Rightarrow> KeyInFlight | Reused \<Rightarrow> KeyReused | Unavailable e \<Rightarrow> StoreFailed e)"
proof (cases "header_get ''idempotency-key'' (hq_headers req)")
  case None
  then show ?thesis using outside assms by (simp add: replay_begin_def)
next
  case (Some key)
  show ?thesis
  proof (cases "applies (hq_method req) (hq_path req) \<and> key_is_valid key \<and>
      (\<exists>b. hq_body req = Some b \<and> \<not> MAX_REQUEST_BYTES < length b)")
    case False
    then show ?thesis using outside assms Some by (auto simp: replay_begin_def split: if_splits option.splits)
  next
    case True
    then obtain b where b: "hq_body req = Some b" by blast
    let ?sc = "scope_of L (hq_headers req) key" and ?fp = "fingerprint_of L (hq_method req) (hq_uri req) b"
    obtain rows1 r where r: "reserve L fails ?sc ?fp now rows = (rows1, r)" by fastforce
    have "(rows', adm) = (rows1, case r of Reserved \<Rightarrow> RunOnce ?sc (returns_a_secret (hq_path req)) | Replay k \<Rightarrow> AnswerAgain (replayed k)
        | InFlight \<Rightarrow> KeyInFlight | Reused \<Rightarrow> KeyReused | Unavailable e \<Rightarrow> StoreFailed e)"
      using assms True b Some r by (simp add: replay_begin_def Let_def split: reservation.splits)
    then show ?thesis using inside r by simp
  qed
qed

text \<open>The end of a request touches its own row only, and leaves it readable.\<close>

lemma release_other: "rows_ok L rows \<Longrightarrow> k \<noteq> scope \<Longrightarrow> map_of (release_key fails scope rows) k = map_of rows k"
  by (auto simp: release_key_def rows_ok_def map_of_bt_retain split: option.split)

lemma release_ok: "rows_ok L rows \<Longrightarrow> rows_ok L (release_key fails scope rows)"
  by (simp add: release_key_def rows_ok_retain)

lemma keep_other: "k \<noteq> scope \<Longrightarrow> map_of (keep_answer L fails scope reply now rows) k = map_of rows k"
  by (simp add: keep_answer_def map_of_bt_update)

lemma keep_ok:
  assumes "json_ok L" "rows_ok L rows" "100 \<le> ka_status reply \<and> ka_status reply < 1000"
  shows "rows_ok L (keep_answer L fails scope reply now rows)"
proof -
  have "row_readable L (r\<lparr>kr_at_ms := now, kr_status := Some (int (ka_status reply)),
      kr_headers := Some (rendered_headers L (ka_headers reply)), kr_body := Some (ka_body reply)\<rparr>)" for r
    using assms(3) rendered_readable [OF assms(1), of "ka_headers reply"]
    by (auto simp: row_readable_def kept_reply_def)
  then show ?thesis
    using assms(2) by (auto simp: keep_answer_def rows_ok_def map_of_bt_update bt_wf_update)
qed

lemma kept_of_status: "100 \<le> hs_status response \<and> hs_status response < 1000 \<Longrightarrow>
    100 \<le> ka_status (kept_of secret response bytes) \<and> ka_status (kept_of secret response bytes) < 1000"
  by (simp add: kept_of_def secret_withheld_reply_def)

lemma replay_end_keeps:
  assumes "json_ok L" "rows_ok L rows" "100 \<le> hs_status response \<and> hs_status response < 1000"
    and "replay_end L fails now scope secret response rows = (rows', answer)"
  shows "rows_ok L rows'" "k \<noteq> scope \<Longrightarrow> map_of rows' k = map_of rows k"
proof -
  have ok: "rows_ok L (keep_answer L fails scope (kept_of secret response b) now rows)" for b
    by (rule keep_ok [OF assms(1,2) kept_of_status [OF assms(3)]])
  from assms(4) have "rows' = release_key fails scope rows \<or>
      (\<exists>b. rows' = release_key fails scope (keep_answer L fails scope (kept_of secret response b) now rows))"
    by (auto simp: replay_end_def split: if_splits option.splits)
  then show "rows_ok L rows'" "k \<noteq> scope \<Longrightarrow> map_of rows' k = map_of rows k"
    using ok assms(2) by (auto simp: release_ok release_other [OF ok] release_other [OF assms(2)] keep_other)
qed

lemma idem_inv_end:
  assumes "idem_inv L rows rs" "r \<in> set rs" "rows_ok L rows'" "\<And>k. k \<noteq> rn_scope r \<Longrightarrow> map_of rows' k = map_of rows k"
  shows "idem_inv L rows' (remove1 r rs)"
proof -
  have d: "distinct (map rn_scope rs)" using assms(1) by (simp add: idem_inv_def)
  then have rs: "distinct rs" using distinct_map by blast
  then have "holds rows' j" if "j \<in> set (remove1 r rs)" for j
  proof -
    have "j \<in> set rs" "j \<noteq> r" using that rs by auto
    then have "rn_scope j \<noteq> rn_scope r" using d assms(2) by (auto simp: distinct_map inj_on_def)
    then show ?thesis using assms(1,4) \<open>j \<in> set rs\<close> by (simp add: idem_inv_def holds_def)
  qed
  moreover have "distinct (map rn_scope (remove1 r rs))"
    using d by (metis distinct_map distinct_remove1 inj_on_subset set_remove1_subset)
  ultimately show ?thesis using assms(3) by (simp add: idem_inv_def)
qed

lemma idem_reach_inv:
  assumes "idem_reach L rows rs" "json_ok L"
  shows "idem_inv L rows rs"
  using assms
proof induction
  case fresh
  show ?case by (simp add: idem_inv_def rows_ok_def)
next
  case (arrives rows rs now fails req rows' adm)
  then have inv: "idem_inv L rows rs" and ok: "rows_ok L rows" by (auto simp: idem_inv_def)
  from arrives(3) show ?case
  proof (cases rule: replay_begin_cases)
    case outside
    then show ?thesis using inv by auto
  next
    case (inside scope fp r)
    note kept = reserve_keeps [OF ok inside(1)]
    have old: "\<forall>j \<in> set rs. holds rows' j \<and> (r = Reserved \<longrightarrow> rn_scope j \<noteq> scope)"
      using kept arrives(2) inv by (simp add: idem_inv_def)
    then show ?thesis
      using kept inv inside(2) by (cases r) (auto simp: idem_inv_def holds_def open_row_def)
  qed
next
  case (answered rows rs r response fails now rows' answer)
  then have ok: "rows_ok L rows" by (auto simp: idem_inv_def)
  note e = replay_end_keeps [OF answered.prems ok answered(3,4)]
  show ?case by (rule idem_inv_end [OF _ answered(2) e(1)]) (use answered e(2) in auto)
next
  case (vanishes rows rs r fails)
  then have "rows_ok L rows" by (auto simp: idem_inv_def)
  then show ?case using vanishes by (intro idem_inv_end [of L rows]) (auto simp: release_ok release_other)
next
  case (restarts rows rs)
  then show ?case by (auto simp: idem_inv_def open_store_def intro: rows_ok_retain)
qed

text \<open>
  C4. However requests, answers, lost clients, restarts and failing statements interleave, at most one
  request runs under a key and caller at a time: while one does, every other request with that key is
  answered without running, for as long as a reservation lasts.
\<close>

theorem one_run_per_key:
  assumes "json_ok L" "idem_reach L rows rs"
  shows "distinct (map rn_scope rs) \<and>
    (\<forall>r \<in> set rs. now - RETENTION_MS < rn_since r \<longrightarrow>
       (\<forall>scope secret. snd (replay_begin L fails now req rows) = RunOnce scope secret \<longrightarrow> scope \<noteq> rn_scope r))"
proof -
  have inv: "idem_inv L rows rs" by (rule idem_reach_inv [OF assms(2,1)])
  have "scope \<noteq> rn_scope r" if "r \<in> set rs" "now - RETENTION_MS < rn_since r"
    "snd (replay_begin L fails now req rows) = RunOnce scope secret" for r scope secret
  proof -
    obtain rows' where run: "replay_begin L fails now req rows = (rows', RunOnce scope secret)"
      using \<open>snd (replay_begin L fails now req rows) = RunOnce scope secret\<close> by (metis prod.collapse)
    then show ?thesis
    proof (cases rule: replay_begin_cases)
      case (inside sc fp res)
      then have "res = Reserved" "sc = scope" by (cases res; simp)+
      moreover have "rows_ok L rows" using inv by (simp add: idem_inv_def)
      ultimately show ?thesis using reserve_keeps [OF _ inside(1)] inv that(1,2) by (auto simp: idem_inv_def)
    qed simp
  qed
  then show ?thesis using inv by (auto simp: idem_inv_def)
qed

section \<open>What a repeat is answered\<close>

text \<open>The scope and fingerprint of a request the middleware keeps answers for.\<close>

definition keyed :: "http_lib \<Rightarrow> http_request \<Rightarrow> (string \<times> string) option" where
  "keyed L req =
     (case (header_get ''idempotency-key'' (hq_headers req), hq_body req) of
        (Some key, Some body) \<Rightarrow>
          if applies (hq_method req) (hq_path req) \<and> key_is_valid key \<and> length body \<le> MAX_REQUEST_BYTES
          then Some (scope_of L (hq_headers req) key, fingerprint_of L (hq_method req) (hq_uri req) body) else None
      | _ \<Rightarrow> None)"

lemma replay_begin_keyed:
  assumes "keyed L req = Some (scope, fp)" "reserve L fails scope fp now rows = (rows', r)"
  shows "replay_begin L fails now req rows = (rows', case r of Reserved \<Rightarrow> RunOnce scope (returns_a_secret (hq_path req))
    | Replay k \<Rightarrow> AnswerAgain (replayed k) | InFlight \<Rightarrow> KeyInFlight | Reused \<Rightarrow> KeyReused | Unavailable e \<Rightarrow> StoreFailed e)"
  using assms
  by (auto simp: keyed_def replay_begin_def Let_def split: option.splits if_splits reservation.splits)

definition headers_kept :: "http_lib \<Rightarrow> header_map \<Rightarrow> bool" where
  "headers_kept L hs \<longleftrightarrow> lib_to_json L hs \<noteq> None \<and> (\<forall>h \<in> set hs. lib_text L (snd h) = Some (snd h) \<and> lib_header L h = Some h)"

lemma map_filter_Some: "\<forall>x \<in> set xs. f x = Some x \<Longrightarrow> List.map_filter f xs = xs"
  by (induction xs) (simp_all add: List.map_filter_def)

lemma kept_reply_rendered:
  assumes "json_ok L" "headers_kept L (ka_headers k)" "100 \<le> ka_status k \<and> ka_status k < 1000"
  shows "kept_reply L (int (ka_status k)) (Some (rendered_headers L (ka_headers k))) (Some (ka_body k)) = Some k"
proof -
  have "List.map_filter (\<lambda>(n, v). map_option (Pair n) (lib_text L v)) (ka_headers k) = ka_headers k"
    using assms(2) by (intro map_filter_Some) (auto simp: headers_kept_def)
  then have "lib_of_json L (rendered_headers L (ka_headers k)) = Some (ka_headers k)"
    using assms(1,2) by (auto simp: rendered_headers_def json_ok_def headers_kept_def split: option.splits)
  moreover have "List.map_filter (lib_header L) (ka_headers k) = ka_headers k"
    using assms(2) by (intro map_filter_Some) (auto simp: headers_kept_def)
  ultimately show ?thesis using assms(3) by (simp add: kept_reply_def)
qed

lemma reserve_kept_row:
  assumes "json_ok L" "bt_wf rows" "headers_kept L (ka_headers k)" "100 \<le> ka_status k \<and> ka_status k < 1000"
    and "map_of rows scope = Some \<lparr>kr_fingerprint = fp, kr_at_ms = at, kr_status = Some (int (ka_status k)),
      kr_headers = Some (rendered_headers L (ka_headers k)), kr_body = Some (ka_body k)\<rparr>"
    and "now - RETENTION_MS < at" "fails DeleteExpired = None" "fails SelectKey = None"
  shows "reserve L fails scope fp' now rows = (unexpired now rows, if fp' = fp then Replay k else Reused)"
  using assms kept_reply_rendered [OF assms(1,3,4)]
  by (auto simp: reserve_def try_reserve_def Let_def unexpired_def map_of_bt_retain found_row_def)

text \<open>A success that hands out a credential: on a route that returns a secret, or with a cookie.\<close>

definition holds_secret :: "bool \<Rightarrow> http_response \<Rightarrow> bool" where
  "holds_secret secret_route response \<longleftrightarrow>
     (secret_route \<or> header_get ''set-cookie'' (hs_headers response) \<noteq> None) \<and> hs_status response \<in> {200..299}"

lemma kept_of_cases:
  "kept_of secret response bytes = (if holds_secret secret response then secret_withheld_reply else
     \<lparr>ka_status = hs_status response, ka_headers = without_set_cookie (hs_headers response), ka_body = bytes\<rparr>)"
  unfolding kept_of_def holds_secret_def by (rule if_cong) auto

lemma replay_end_kept:
  assumes "bt_wf rows" "map_of rows scope = Some (open_row fp since)" "fails UpdateAnswer = None"
    and "hs_status response < 500" "is_buffered L (hs_headers response)" "hs_body response = Some bytes"
    and "length bytes \<le> MAX_KEPT_RESPONSE_BYTES" "k = kept_of secret response bytes"
  shows "map_of (fst (replay_end L fails now scope secret response rows)) scope =
    Some \<lparr>kr_fingerprint = fp, kr_at_ms = now, kr_status = Some (int (ka_status k)),
      kr_headers = Some (rendered_headers L (ka_headers k)), kr_body = Some (ka_body k)\<rparr>"
  using assms
  by (auto simp: replay_end_def release_key_def keep_answer_def open_row_def map_of_bt_retain map_of_bt_update bt_wf_update)


section \<open>Callers apart\<close>

text \<open>
  What is digested into a scope separates callers: with header values that hold no control bytes, two
  requests digest the same bytes only with the same credentials and the same key.
\<close>

definition plain :: "string \<Rightarrow> bool" where
  "plain v \<longleftrightarrow> byte 0 \<notin> set v \<and> byte 1 \<notin> set v"

lemma split_at_byte:
  "x \<notin> set as \<Longrightarrow> x \<notin> set bs \<Longrightarrow> as @ x # as' = bs @ x # bs' \<Longrightarrow> as = bs \<and> as' = bs'"
  by (induction as arbitrary: bs) (auto simp: Cons_eq_append_conv append_eq_Cons_conv)

lemma terminated_inj:
  "\<forall>v \<in> set vs. plain v \<Longrightarrow> \<forall>v \<in> set us. plain v \<Longrightarrow>
   concat (map (\<lambda>v. v @ [byte 0]) vs) @ byte 1 # xs = concat (map (\<lambda>v. v @ [byte 0]) us) @ byte 1 # ys \<Longrightarrow>
   vs = us \<and> xs = ys"
proof (induction vs arbitrary: us)
  case Nil
  have "byte 0 \<noteq> byte 1" by (simp add: byte_def)
  with Nil show ?case by (cases us; cases "hd us") (auto simp: plain_def)
next
  case (Cons v vs)
  have ne: "byte 0 \<noteq> byte 1" by (simp add: byte_def)
  show ?case
  proof (cases us)
    case Nil
    then show ?thesis using Cons.prems ne by (cases v) (auto simp: plain_def)
  next
    case (Cons u us')
    have "v @ byte 0 # (concat (map (\<lambda>v. v @ [byte 0]) vs) @ byte 1 # xs) =
        u @ byte 0 # (concat (map (\<lambda>v. v @ [byte 0]) us') @ byte 1 # ys)"
      using Cons.prems(3) Cons by simp
    from split_at_byte [OF _ _ this] Cons.prems Cons
    have "v = u" "concat (map (\<lambda>v. v @ [byte 0]) vs) @ byte 1 # xs = concat (map (\<lambda>v. v @ [byte 0]) us') @ byte 1 # ys"
      by (auto simp: plain_def)
    then show ?thesis using Cons.IH [of us'] Cons.prems Cons by simp
  qed
qed

lemma scope_separates_callers:
  assumes "\<forall>h \<in> set hs \<union> set hs'. plain (snd h)" "scope_input hs key = scope_input hs' key'"
  shows "header_get_all ''authorization'' hs = header_get_all ''authorization'' hs' \<and>
    header_get_all ''cookie'' hs = header_get_all ''cookie'' hs' \<and> key = key'"
proof -
  have p: "\<forall>v \<in> set (header_get_all n hs). plain v" "\<forall>v \<in> set (header_get_all n hs'). plain v" for n
    using assms(1) by (auto simp: header_get_all_def)
  note eq = assms(2) [unfolded scope_input_def list.map concat.simps append_assoc append_Nil2 append_Cons append_Nil]
  from terminated_inj [OF p eq] terminated_inj [OF p] show ?thesis by blast
qed

section \<open>Examples\<close>

definition ex_lib :: http_lib where
  "ex_lib = \<lparr>lib_to_json = (\<lambda>ps. if ps = [] then Some ''[]'' else if ps = [(''content-type'', ''text/plain'')] then Some ''[t]'' else None),
     lib_of_json = (\<lambda>t. if t = ''[]'' then Some [] else if t = ''[t]'' then Some [(''content-type'', ''text/plain'')] else None),
     lib_text = Some, lib_header = Some, lib_sha256 = id, lib_hex = id\<rparr>"

definition ex_write :: "string \<Rightarrow> http_request" where
  "ex_write body = \<lparr>hq_method = ''POST'', hq_path = ''/api/v1/issues'', hq_uri = ''/api/v1/issues'',
     hq_headers = [(''authorization'', ''t''), (''idempotency-key'', ''k'')], hq_body = Some body\<rparr>"

definition ex_reply :: http_response where
  "ex_reply = \<lparr>hs_status = 201, hs_headers = [(''content-type'', ''text/plain'')], hs_body = Some ''made''\<rparr>"

lemma ex_json: "json_ok ex_lib"
  by (auto simp: json_ok_def ex_lib_def split: if_splits)

abbreviation no_failure :: failures where
  "no_failure \<equiv> \<lambda>_. None"

definition ex_rows :: key_table where
  "ex_rows = fst (replay_begin ex_lib no_failure 0 (ex_write ''a'') [])"

definition ex_scope :: string where
  "ex_scope = scope_of ex_lib (hq_headers (ex_write ''a'')) ''k''"

lemma ex_begin: "replay_begin ex_lib no_failure 0 (ex_write ''a'') [] = (ex_rows, RunOnce ex_scope False)"
  by code_simp

theorem one_run_per_key_witness:
  "snd (replay_begin ex_lib no_failure 5 (ex_write ''a'') ex_rows) = KeyInFlight \<and>
   distinct (map rn_scope [\<lparr>rn_scope = ex_scope, rn_secret = False, rn_since = 0\<rparr>])"
proof -
  have "idem_reach ex_lib ex_rows [\<lparr>rn_scope = ex_scope, rn_secret = False, rn_since = 0\<rparr>]"
    using idem_reach.arrives [OF idem_reach.fresh _ ex_begin] by simp
  from one_run_per_key [OF ex_json this] have "distinct (map rn_scope [\<lparr>rn_scope = ex_scope, rn_secret = False, rn_since = 0\<rparr>])" by blast
  moreover have "snd (replay_begin ex_lib no_failure 5 (ex_write ''a'') ex_rows) = KeyInFlight" by code_simp
  ultimately show ?thesis by blast
qed

lemma ex_rows_ok: "rows_ok ex_lib [] \<and> rows_ok ex_lib ex_rows"
proof -
  have "rows_ok ex_lib []" by (simp add: rows_ok_def)
  moreover have "idem_reach ex_lib ex_rows [\<lparr>rn_scope = ex_scope, rn_secret = False, rn_since = 0\<rparr>]"
    using idem_reach.arrives [OF idem_reach.fresh _ ex_begin] by simp
  ultimately show ?thesis using idem_reach_inv [OF _ ex_json] by (simp add: idem_inv_def)
qed

definition ex_kept :: key_table where
  "ex_kept = fst (replay_end ex_lib no_failure 7 ex_scope False ex_reply ex_rows)"


text \<open>
  A row that cannot be read back is forgotten and its request runs, but without a reservation: a repeat
  runs as well, at the same time and after it.
\<close>

lemma unreadable_row_runs_twice:
  "let rows = [(ex_scope, (open_row (fingerprint_of ex_lib ''POST'' ''/api/v1/issues'' ''a'') 0)\<lparr>kr_status := Some 7\<rparr>)];
       (rows1, first) = replay_begin ex_lib no_failure 5 (ex_write ''a'') rows;
       (rows2, second) = replay_begin ex_lib no_failure 6 (ex_write ''a'') rows1
   in first = RunOnce ex_scope False \<and> rows1 = [] \<and> second = RunOnce ex_scope False \<and>
      fst (replay_end ex_lib no_failure 7 ex_scope False ex_reply rows1) = []"
  by code_simp

end
