(* ===== verification/GatewayAddr.thy ===== *)
theory GatewayAddr
  imports Prelude "HOL-Library.Word"
begin

text \<open>
  The addresses the credential gateway may connect to
  (\<^verbatim>\<open>crates/jeryu-gateway/src/upstream_dns.rs\<close>): the tests on octets and segments the code makes,
  and the address blocks they stand for. The name service is an argument.
\<close>

unbundle bit_operations_syntax

section \<open>The tests of the code\<close>

datatype ip_addr =
    V4 "8 word" "8 word" "8 word" "8 word"
  | V6 "16 word" "16 word" "16 word" "16 word" "16 word" "16 word" "16 word" "16 word"

definition v4_is_private :: "8 word \<Rightarrow> 8 word \<Rightarrow> bool" where
  "v4_is_private a b \<longleftrightarrow> a = 10 \<or> a = 172 \<and> 16 \<le> b \<and> b \<le> 31 \<or> a = 192 \<and> b = 168"

definition v4_is_documentation :: "8 word \<Rightarrow> 8 word \<Rightarrow> 8 word \<Rightarrow> bool" where
  "v4_is_documentation a b c \<longleftrightarrow> a = 192 \<and> b = 0 \<and> c = 2 \<or> a = 198 \<and> b = 51 \<and> c = 100 \<or> a = 203 \<and> b = 0 \<and> c = 113"

definition public_v4 :: "8 word \<Rightarrow> 8 word \<Rightarrow> 8 word \<Rightarrow> 8 word \<Rightarrow> bool" where
  "public_v4 a b c d \<longleftrightarrow> \<not> (
     (a = 0 \<and> b = 0 \<and> c = 0 \<and> d = 0) \<or>
     a = 127 \<or>
     v4_is_private a b \<or>
     (a = 169 \<and> b = 254) \<or>
     (a = 255 \<and> b = 255 \<and> c = 255 \<and> d = 255) \<or>
     v4_is_documentation a b c \<or>
     (224 \<le> a \<and> a \<le> 239) \<or>
     a = 0 \<or>
     (a = 100 \<and> 64 \<le> b \<and> b < 128) \<or>
     (a = 192 \<and> b = 0) \<or>
     (a = 198 \<and> 18 \<le> b \<and> b < 20) \<or>
     240 \<le> a)"

definition public_v6 ::
  "16 word \<Rightarrow> 16 word \<Rightarrow> 16 word \<Rightarrow> 16 word \<Rightarrow> 16 word \<Rightarrow> 16 word \<Rightarrow> 16 word \<Rightarrow> 16 word \<Rightarrow> bool" where
  "public_v6 s0 s1 s2 s3 s4 s5 s6 s7 \<longleftrightarrow> \<not> (
     (s0 = 0 \<and> s1 = 0 \<and> s2 = 0 \<and> s3 = 0 \<and> s4 = 0 \<and> s5 = 0 \<and> s6 = 0 \<and> s7 = 0) \<or>
     (s0 = 0 \<and> s1 = 0 \<and> s2 = 0 \<and> s3 = 0 \<and> s4 = 0 \<and> s5 = 0 \<and> s6 = 0 \<and> s7 = 1) \<or>
     s0 AND 0xff00 = 0xff00 \<or>
     s0 AND 0xfe00 = 0xfc00 \<or>
     s0 AND 0xffc0 = 0xfe80 \<or>
     s0 AND 0xffc0 = 0xfec0 \<or>
     (s0 = 0x2001 \<and> (s1 = 0x0db8 \<or> s1 = 0)) \<or>
     s0 = 0x2002 \<or>
     (s0 = 0x0064 \<and> s1 = 0xff9b \<and> (s2 = 0 \<or> s2 = 1)) \<or>
     (s0 OR s1 OR s2 OR s3 OR s4 = 0 \<and> (s5 = 0 \<or> s5 = 0xffff)) \<or>
     (s0 OR s1 OR s2 OR s3 = 0 \<and> s4 = 0xffff \<and> s5 = 0))"

text \<open>\<^verbatim>\<open>Ipv6Addr::to_ipv4_mapped\<close>: the last two segments, when the first six are those of a mapped address.\<close>

definition to_ipv4_mapped ::
  "16 word \<Rightarrow> 16 word \<Rightarrow> 16 word \<Rightarrow> 16 word \<Rightarrow> 16 word \<Rightarrow> 16 word \<Rightarrow> 16 word \<Rightarrow> 16 word \<Rightarrow>
   (8 word \<times> 8 word \<times> 8 word \<times> 8 word) option" where
  "to_ipv4_mapped s0 s1 s2 s3 s4 s5 s6 s7 =
     (if s0 = 0 \<and> s1 = 0 \<and> s2 = 0 \<and> s3 = 0 \<and> s4 = 0 \<and> s5 = 0xffff
      then Some (ucast (drop_bit 8 s6), ucast s6, ucast (drop_bit 8 s7), ucast s7)
      else None)"

fun is_public :: "ip_addr \<Rightarrow> bool" where
  "is_public (V4 a b c d) = public_v4 a b c d"
| "is_public (V6 s0 s1 s2 s3 s4 s5 s6 s7) =
     (case to_ipv4_mapped s0 s1 s2 s3 s4 s5 s6 s7 of
        Some (a, b, c, d) \<Rightarrow> public_v4 a b c d
      | None \<Rightarrow> public_v6 s0 s1 s2 s3 s4 s5 s6 s7)"

text \<open>Resolving a name keeps the public addresses the name service gave, and fails when none is left.\<close>

datatype dns_error = LookupFailed | NoPublicAddress

definition dns_resolve :: "(string \<Rightarrow> (dns_error + ip_addr list)) \<Rightarrow> string \<Rightarrow> dns_error + ip_addr list" where
  "dns_resolve lookup_host name =
     (case lookup_host name of
        Inl e \<Rightarrow> Inl e
      | Inr found \<Rightarrow>
          let public = filter is_public found
          in if public = [] then Inl NoPublicAddress else Inr public)"

section \<open>The blocks they stand for\<close>

text \<open>An address as a number, and the block of the addresses that share its first \<open>len\<close> of \<open>w\<close> bits.\<close>

definition dotted :: "nat \<Rightarrow> nat \<Rightarrow> nat \<Rightarrow> nat \<Rightarrow> nat" where
  "dotted a b c d = ((a * 256 + b) * 256 + c) * 256 + d"

definition segs :: "nat list \<Rightarrow> nat" where
  "segs xs = foldl (\<lambda>n x. n * 65536 + x) 0 xs"

definition in_block :: "nat \<Rightarrow> nat \<Rightarrow> nat \<times> nat \<Rightarrow> bool" where
  "in_block w x nl = (x div 2 ^ (w - snd nl) = fst nl div 2 ^ (w - snd nl))"

definition special_v4 :: "(nat \<times> nat) list" where
  "special_v4 =
     [(dotted 0 0 0 0, 8), (dotted 10 0 0 0, 8), (dotted 100 64 0 0, 10), (dotted 127 0 0 0, 8),
      (dotted 169 254 0 0, 16), (dotted 172 16 0 0, 12), (dotted 192 0 0 0, 16), (dotted 192 168 0 0, 16),
      (dotted 198 18 0 0, 15), (dotted 198 51 100 0, 24), (dotted 203 0 113 0, 24), (dotted 224 0 0 0, 4),
      (dotted 240 0 0 0, 4)]"

definition special_v6 :: "(nat \<times> nat) list" where
  "special_v6 =
     [(segs [0, 0, 0, 0, 0, 0, 0, 0], 96), (segs [0, 0, 0, 0, 0xffff, 0, 0, 0], 96),
      (segs [0x0064, 0xff9b, 0, 0, 0, 0, 0, 0], 48), (segs [0x0064, 0xff9b, 1, 0, 0, 0, 0, 0], 48),
      (segs [0x2001, 0, 0, 0, 0, 0, 0, 0], 32), (segs [0x2001, 0x0db8, 0, 0, 0, 0, 0, 0], 32),
      (segs [0x2002, 0, 0, 0, 0, 0, 0, 0], 16), (segs [0xfc00, 0, 0, 0, 0, 0, 0, 0], 7),
      (segs [0xfe80, 0, 0, 0, 0, 0, 0, 0], 10), (segs [0xfec0, 0, 0, 0, 0, 0, 0, 0], 10),
      (segs [0xff00, 0, 0, 0, 0, 0, 0, 0], 8)]"

definition mapped_v6 :: "nat \<times> nat" where
  "mapped_v6 = (segs [0, 0, 0, 0, 0, 0xffff, 0, 0], 96)"

fun addr_number :: "ip_addr \<Rightarrow> nat" where
  "addr_number (V4 a b c d) = dotted (unat a) (unat b) (unat c) (unat d)"
| "addr_number (V6 s0 s1 s2 s3 s4 s5 s6 s7) =
     segs [unat s0, unat s1, unat s2, unat s3, unat s4, unat s5, unat s6, unat s7]"

fun global_unicast :: "ip_addr \<Rightarrow> bool" where
  "global_unicast (V4 a b c d) \<longleftrightarrow> list_all (\<lambda>blk. \<not> in_block 32 (addr_number (V4 a b c d)) blk) special_v4"
| "global_unicast (V6 s0 s1 s2 s3 s4 s5 s6 s7) \<longleftrightarrow>
     (let n = addr_number (V6 s0 s1 s2 s3 s4 s5 s6 s7)
      in if in_block 128 n mapped_v6 then list_all (\<lambda>blk. \<not> in_block 32 (n mod 2 ^ 32) blk) special_v4
         else list_all (\<lambda>blk. \<not> in_block 128 n blk) special_v6)"

section \<open>They agree\<close>

text \<open>
  Numbers in base \<open>B\<close>: dividing by \<open>B\<close> drops the last digit, and digits below \<open>B\<close> are determined
  by the number.
\<close>

lemma digits_div: "b < B \<Longrightarrow> (a * B + b) div B = a" for a b B :: nat
  by simp

lemma digits_eq:
  fixes a b p q B :: nat
  assumes "b < B" "q < B"
  shows "a * B + b = p * B + q \<longleftrightarrow> a = p \<and> b = q"
proof
  assume e: "a * B + b = p * B + q"
  have "a = (a * B + b) div B" using assms(1) by (rule digits_div [symmetric])
  also have "\<dots> = p" unfolding e using assms(2) by (rule digits_div)
  finally show "a = p \<and> b = q" using e by simp
qed simp

lemma digits_part:
  fixes a b p q B C :: nat
  assumes "b < B * C" "q < B * C" "0 < B"
  shows "(a * (B * C) + b) div B = (p * (B * C) + q) div B \<longleftrightarrow> a = p \<and> b div B = q div B"
proof -
  have d: "(x * (B * C) + y) div B = x * C + y div B" for x y
  proof -
    have "x * (B * C) + y = y + (x * C) * B" by (simp only: ac_simps)
    then have "(x * (B * C) + y) div B = (y + (x * C) * B) div B" by (rule arg_cong)
    also have "\<dots> = x * C + y div B" using assms(3) by (intro div_mult_self1) simp
    finally show ?thesis .
  qed
  have "b div B < C" "q div B < C" using assms by (simp_all only: div_less_iff_less_mult mult.commute)
  then show ?thesis unfolding d by (rule digits_eq)
qed

lemma in_block_dotted:
  assumes "b < 256" "c < 256" "d < 256" "q < 256" "r < 256" "s < 256"
  shows "in_block 32 (dotted a b c d) (dotted p q r s, 4) \<longleftrightarrow> a div 16 = p div 16"
    "in_block 32 (dotted a b c d) (dotted p q r s, 8) \<longleftrightarrow> a = p"
    "in_block 32 (dotted a b c d) (dotted p q r s, 10) \<longleftrightarrow> a = p \<and> b div 64 = q div 64"
    "in_block 32 (dotted a b c d) (dotted p q r s, 12) \<longleftrightarrow> a = p \<and> b div 16 = q div 16"
    "in_block 32 (dotted a b c d) (dotted p q r s, 15) \<longleftrightarrow> a = p \<and> b div 2 = q div 2"
    "in_block 32 (dotted a b c d) (dotted p q r s, 16) \<longleftrightarrow> a = p \<and> b = q"
    "in_block 32 (dotted a b c d) (dotted p q r s, 24) \<longleftrightarrow> a = p \<and> b = q \<and> c = r"
proof -
  have d8: "dotted x y z u div 256 = (x * 256 + y) * 256 + z" if "u < 256" for x y z u
    unfolding dotted_def by (rule digits_div [OF that])
  have d16: "dotted x y z u div (256 * 256) = x * 256 + y" if "z < 256" "u < 256" for x y z u
    unfolding div_mult2_eq d8 [OF that(2)] by (rule digits_div [OF that(1)])
  have d24: "dotted x y z u div (256 * 256 * 256) = x" if "y < 256" "z < 256" "u < 256" for x y z u
    unfolding div_mult2_eq [of _ "256 * 256"] d16 [OF that(2,3)] by (rule digits_div [OF that(1)])
  note blk = in_block_def fst_conv snd_conv
  have w: "(2::nat) ^ (32 - 4) = 256 * 256 * 256 * 16" "(2::nat) ^ (32 - 8) = 256 * 256 * 256" "(2::nat) ^ (32 - 10) = 256 * 256 * 64"
    "(2::nat) ^ (32 - 12) = 256 * 256 * 16" "(2::nat) ^ (32 - 15) = 256 * 256 * 2" "(2::nat) ^ (32 - 16) = 256 * 256" "(2::nat) ^ (32 - 24) = 256"
    by simp_all
  show "in_block 32 (dotted a b c d) (dotted p q r s, 4) \<longleftrightarrow> a div 16 = p div 16"
    using assms by (simp only: blk w div_mult2_eq [of _ "256 * 256 * 256"] d24)
  show "in_block 32 (dotted a b c d) (dotted p q r s, 8) \<longleftrightarrow> a = p"
    using assms by (simp only: blk w d24)
  show "in_block 32 (dotted a b c d) (dotted p q r s, 10) \<longleftrightarrow> a = p \<and> b div 64 = q div 64"
    using assms digits_part [of b 64 4 q a p] by (simp only: blk w div_mult2_eq [of _ "256 * 256"] d16) simp
  show "in_block 32 (dotted a b c d) (dotted p q r s, 12) \<longleftrightarrow> a = p \<and> b div 16 = q div 16"
    using assms digits_part [of b 16 16 q a p] by (simp only: blk w div_mult2_eq [of _ "256 * 256"] d16) simp
  show "in_block 32 (dotted a b c d) (dotted p q r s, 15) \<longleftrightarrow> a = p \<and> b div 2 = q div 2"
    using assms digits_part [of b 2 128 q a p] by (simp only: blk w div_mult2_eq [of _ "256 * 256"] d16) simp
  show "in_block 32 (dotted a b c d) (dotted p q r s, 16) \<longleftrightarrow> a = p \<and> b = q"
    using assms by (simp only: blk w d16 digits_eq)
  show "in_block 32 (dotted a b c d) (dotted p q r s, 24) \<longleftrightarrow> a = p \<and> b = q \<and> c = r"
    using assms by (simp only: blk w d8 digits_eq conj_assoc)
qed

lemma v4_blocks:
  assumes "a < 256" "b < 256" "c < 256" "d < 256"
  shows "list_all (\<lambda>blk. \<not> in_block 32 (dotted a b c d) blk) special_v4 \<longleftrightarrow>
    \<not> (a = 0 \<or> a = 10 \<or> a = 100 \<and> 64 \<le> b \<and> b < 128 \<or> a = 127 \<or> a = 169 \<and> b = 254 \<or> a = 172 \<and> 16 \<le> b \<and> b \<le> 31 \<or>
       a = 192 \<and> b = 0 \<or> a = 192 \<and> b = 168 \<or> a = 198 \<and> 18 \<le> b \<and> b < 20 \<or> a = 198 \<and> b = 51 \<and> c = 100 \<or>
       a = 203 \<and> b = 0 \<and> c = 113 \<or> 224 \<le> a \<and> a \<le> 239 \<or> 240 \<le> a)"
proof -
  have e1: "b div 64 = 64 div 64 \<longleftrightarrow> 64 \<le> b \<and> b < 128" and e2: "b div 16 = 16 div 16 \<longleftrightarrow> 16 \<le> b \<and> b \<le> 31"
    and e3: "b div 2 = 18 div 2 \<longleftrightarrow> 18 \<le> b \<and> b < 20"
    by auto
  have e4: "a div 16 = 224 div 16 \<longleftrightarrow> 224 \<le> a \<and> a \<le> 239" and e5: "a div 16 = 240 div 16 \<longleftrightarrow> 240 \<le> a"
    using assms(1) by auto
  have q: "(0::nat) < 256" "(64::nat) < 256" "(254::nat) < 256" "(16::nat) < 256" "(168::nat) < 256" "(18::nat) < 256"
    "(51::nat) < 256" "(100::nat) < 256" "(113::nat) < 256" by simp_all
  show ?thesis
    unfolding special_v4_def by (simp only: list.pred_inject in_block_dotted [OF assms(2-4)] q e1 e2 e3 e4 e5 de_Morgan_disj simp_thms conj_assoc)
qed

lemma word_eq_unat: "x = numeral k \<longleftrightarrow> unat x = take_bit LENGTH('a) (numeral k)" for x :: "'a::len word"
  by (simp only: word_unat_eq_iff unat_bintrunc)

lemma word_eq_unat_0: "x = 0 \<longleftrightarrow> unat x = 0" for x :: "'a::len word"
  by (simp add: unat_eq_zero)

lemma word_eq_unat_1: "x = 1 \<longleftrightarrow> unat x = 1" for x :: "'a::len word"
  by (simp only: word_unat_eq_iff unat_1)

lemma public_v4_blocks: "public_v4 a b c d \<longleftrightarrow>
  list_all (\<lambda>blk. \<not> in_block 32 (dotted (unat a) (unat b) (unat c) (unat d)) blk) special_v4"
proof -
  have b: "unat x < 256" for x :: "8 word" using unsigned_less [of x] by simp
  show ?thesis
    unfolding v4_blocks [OF b b b b] public_v4_def v4_is_private_def v4_is_documentation_def
      word_eq_unat word_eq_unat_0 word_le_nat_alt word_less_nat_alt unat_bintrunc
    by simp (intro iffI; elim conjE; intro conjI impI; simp)
qed

text \<open>The same for eight segments of sixteen bits.\<close>

lemma segs_snoc: "segs (xs @ [x]) = segs xs * 65536 + x"
  by (simp add: segs_def)

lemma segs_div: "list_all (\<lambda>x. x < 65536) ys \<Longrightarrow> segs (xs @ ys) div 65536 ^ length ys = segs xs"
proof (induction ys rule: rev_induct)
  case (snoc y ys)
  then have "segs ((xs @ ys) @ [y]) div 65536 = segs (xs @ ys)" unfolding segs_snoc by (intro digits_div) simp
  then show ?case using snoc by (simp add: div_mult2_eq)
qed simp

lemma segs_inj:
  "length xs = length ys \<Longrightarrow> list_all (\<lambda>x. x < 65536) xs \<Longrightarrow> list_all (\<lambda>x. x < 65536) ys \<Longrightarrow> segs xs = segs ys \<longleftrightarrow> xs = ys"
proof (induction xs arbitrary: ys rule: rev_induct)
  case (snoc x xs)
  then obtain zs z where ys: "ys = zs @ [z]" by (cases ys rule: rev_cases) auto
  have "x < 65536" "z < 65536" using snoc.prems ys by auto
  then show ?case using snoc ys by (simp add: segs_snoc digits_eq)
qed simp

lemma in_block_segs:
  assumes "length xs + k = 8" "length ys = k" "length ns + k = 8" "length ms = k" "16 * k + len = 128"
    and "list_all (\<lambda>x. x < 65536) (xs @ ys)" "list_all (\<lambda>x. x < 65536) (ns @ ms)"
  shows "in_block 128 (segs (xs @ ys)) (segs (ns @ ms), len) \<longleftrightarrow> xs = ns"
proof -
  have "(2::nat) ^ (128 - len) = 2 ^ (16 * k)" using assms(5) by (intro arg_cong [of _ _ "\<lambda>n. 2 ^ n"]) linarith
  also have "\<dots> = 65536 ^ k" by (simp add: power_mult)
  finally have w: "(2::nat) ^ (128 - len) = 65536 ^ k" .
  have "segs (xs @ ys) div 65536 ^ k = segs xs" using segs_div [of ys xs] assms by simp
  moreover have "segs (ns @ ms) div 65536 ^ k = segs ns" using segs_div [of ms ns] assms by simp
  ultimately show ?thesis using assms segs_inj [of xs ns] by (simp add: in_block_def w)
qed

lemma in_block_first:
  assumes "length ys = 7" "length ms = 7" "list_all (\<lambda>x. x < 65536) ys" "list_all (\<lambda>x. x < 65536) ms" "len + n = 16"
  shows "in_block 128 (segs (x # ys)) (segs (m # ms), len) \<longleftrightarrow> x div 2 ^ n = m div 2 ^ n"
proof -
  have one: "segs (x # ys) div 65536 ^ 7 = x" "segs (m # ms) div 65536 ^ 7 = m"
    using segs_div [of ys "[x]"] segs_div [of ms "[m]"] assms by (simp_all add: segs_def)
  have "(2::nat) ^ (128 - len) = 2 ^ (16 * 7 + n)" using assms(5) by (intro arg_cong [of _ _ "\<lambda>n. 2 ^ n"]) linarith
  also have "\<dots> = (2 ^ 16) ^ 7 * 2 ^ n" by (simp only: power_add power_mult)
  also have "\<dots> = 65536 ^ 7 * 2 ^ n" by simp
  finally have w: "(2::nat) ^ (128 - len) = 65536 ^ 7 * 2 ^ n" .
  show ?thesis by (simp only: in_block_def fst_conv snd_conv w div_mult2_eq one)
qed

lemma high_bits:
  fixes x c :: "16 word"
  assumes "n \<le> 16" "take_bit (16 - n) c = c"
  shows "x AND push_bit n (mask (16 - n)) = push_bit n c \<longleftrightarrow> unat x div 2 ^ n = unat c"
proof -
  have "x AND push_bit n (mask (16 - n)) = push_bit n (drop_bit n x)"
    by (rule bit_word_eqI) (use assms(1) in \<open>auto simp: bit_simps\<close>)
  moreover have "push_bit n (drop_bit n x) = push_bit n c \<longleftrightarrow> drop_bit n x = c"
  proof
    assume e: "push_bit n (drop_bit n x) = push_bit n c"
    show "drop_bit n x = c"
    proof (rule bit_word_eqI)
      fix i
      assume "i < LENGTH(16)"
      show "bit (drop_bit n x) i = bit c i"
      proof (cases "i + n < 16")
        case True
        then show ?thesis using arg_cong [OF e, of "\<lambda>w. bit w (i + n)"] by (simp add: bit_simps add.commute)
      next
        case False
        then have "\<not> bit (take_bit (16 - n) c) i" by (auto simp: bit_simps)
        moreover have "\<not> bit x (i + n)" using False bit_imp_le_length [of x "i + n"] by auto
        ultimately show ?thesis using assms(2) by (simp add: bit_simps add.commute)
      qed
    qed
  qed simp
  moreover have "drop_bit n x = c \<longleftrightarrow> unat x div 2 ^ n = unat c"
    by (simp only: word_unat_eq_iff unat_drop_bit_eq drop_bit_eq_div [of n "unat x"])
  ultimately show ?thesis by (simp only:)
qed

lemma high_segment:
  fixes x :: "16 word"
  shows "x AND 0xff00 = 0xff00 \<longleftrightarrow> unat x div 256 = 255" "x AND 0xfe00 = 0xfc00 \<longleftrightarrow> unat x div 512 = 126"
    "x AND 0xffc0 = 0xfe80 \<longleftrightarrow> unat x div 64 = 1018" "x AND 0xffc0 = 0xfec0 \<longleftrightarrow> unat x div 64 = 1019"
proof -
  have c: "take_bit (16 - 8) (255 :: 16 word) = 255" "take_bit (16 - 9) (126 :: 16 word) = 126"
    "take_bit (16 - 6) (1018 :: 16 word) = 1018" "take_bit (16 - 6) (1019 :: 16 word) = 1019"
    by (simp_all add: mask_numeral)
  have m: "push_bit 8 (mask (16 - 8) :: 16 word) = 0xff00" "push_bit 9 (mask (16 - 9) :: 16 word) = 0xfe00"
    "push_bit 6 (mask (16 - 6) :: 16 word) = 0xffc0" "push_bit 8 (255 :: 16 word) = 0xff00" "push_bit 9 (126 :: 16 word) = 0xfc00"
    "push_bit 6 (1018 :: 16 word) = 0xfe80" "push_bit 6 (1019 :: 16 word) = 0xfec0"
    by (simp_all add: mask_numeral)
  show "x AND 0xff00 = 0xff00 \<longleftrightarrow> unat x div 256 = 255" using high_bits [OF _ c(1), of x] unfolding m by simp
  show "x AND 0xfe00 = 0xfc00 \<longleftrightarrow> unat x div 512 = 126" using high_bits [OF _ c(2), of x] unfolding m by simp
  show "x AND 0xffc0 = 0xfe80 \<longleftrightarrow> unat x div 64 = 1018" using high_bits [OF _ c(3), of x] unfolding m by simp
  show "x AND 0xffc0 = 0xfec0 \<longleftrightarrow> unat x div 64 = 1019" using high_bits [OF _ c(4), of x] unfolding m by simp
qed

lemma in_block_v6:
  assumes b: "list_all (\<lambda>x. x < 65536) [s0, s1, s2, s3, s4, s5, s6, s7]" "list_all (\<lambda>x. x < 65536) [n0, n1, n2, n3, n4, n5, n6, n7]"
  defines "s \<equiv> segs [s0, s1, s2, s3, s4, s5, s6, s7]" and "n \<equiv> segs [n0, n1, n2, n3, n4, n5, n6, n7]"
  shows "in_block 128 s (n, 96) \<longleftrightarrow> [s0, s1, s2, s3, s4, s5] = [n0, n1, n2, n3, n4, n5]"
    "in_block 128 s (n, 48) \<longleftrightarrow> [s0, s1, s2] = [n0, n1, n2]" "in_block 128 s (n, 32) \<longleftrightarrow> [s0, s1] = [n0, n1]"
    "in_block 128 s (n, 16) \<longleftrightarrow> [s0] = [n0]" "in_block 128 s (n, 7) \<longleftrightarrow> s0 div 512 = n0 div 512"
    "in_block 128 s (n, 8) \<longleftrightarrow> s0 div 256 = n0 div 256" "in_block 128 s (n, 10) \<longleftrightarrow> s0 div 64 = n0 div 64"
  using b in_block_segs [of "[s0, s1, s2, s3, s4, s5]" 2 "[s6, s7]" "[n0, n1, n2, n3, n4, n5]" "[n6, n7]" 96]
    in_block_segs [of "[s0, s1, s2]" 5 "[s3, s4, s5, s6, s7]" "[n0, n1, n2]" "[n3, n4, n5, n6, n7]" 48]
    in_block_segs [of "[s0, s1]" 6 "[s2, s3, s4, s5, s6, s7]" "[n0, n1]" "[n2, n3, n4, n5, n6, n7]" 32]
    in_block_segs [of "[s0]" 7 "[s1, s2, s3, s4, s5, s6, s7]" "[n0]" "[n1, n2, n3, n4, n5, n6, n7]" 16]
    in_block_first [of "[s1, s2, s3, s4, s5, s6, s7]" "[n1, n2, n3, n4, n5, n6, n7]" 7 9 s0 n0]
    in_block_first [of "[s1, s2, s3, s4, s5, s6, s7]" "[n1, n2, n3, n4, n5, n6, n7]" 8 8 s0 n0]
    in_block_first [of "[s1, s2, s3, s4, s5, s6, s7]" "[n1, n2, n3, n4, n5, n6, n7]" 10 6 s0 n0]
  unfolding s_def n_def by simp_all

lemma unat_16: "unat x < 65536" for x :: "16 word"
  using unsigned_less [of x] by simp

lemma public_v6_blocks:
  assumes "\<not> in_block 128 (addr_number (V6 s0 s1 s2 s3 s4 s5 s6 s7)) mapped_v6"
  shows "public_v6 s0 s1 s2 s3 s4 s5 s6 s7 \<longleftrightarrow>
    list_all (\<lambda>blk. \<not> in_block 128 (addr_number (V6 s0 s1 s2 s3 s4 s5 s6 s7)) blk) special_v6"
proof -
  have "\<not> (unat s0 = 0 \<and> unat s1 = 0 \<and> unat s2 = 0 \<and> unat s3 = 0 \<and> unat s4 = 0 \<and> unat s5 = 65535)"
    using assms by (simp add: mapped_v6_def in_block_v6 unat_16)
  then show ?thesis
    unfolding public_v6_def high_segment or_eq_0_iff conj_assoc
    unfolding word_eq_unat word_eq_unat_0 word_eq_unat_1
    by (simp add: special_v6_def in_block_v6 unat_16) argo
qed

lemma mapped_octets:
  fixes x :: "16 word"
  shows "unat (ucast (drop_bit 8 x) :: 8 word) = unat x div 256" "unat (ucast x :: 8 word) = unat x mod 256"
proof -
  have "unat x div 256 < 256" using unat_16 [of x] by (simp add: div_less_iff_less_mult)
  then show "unat (ucast (drop_bit 8 x) :: 8 word) = unat x div 256"
    by (simp add: unsigned_ucast_eq unat_drop_bit_eq drop_bit_eq_div take_bit_eq_mod unat_div)
  show "unat (ucast x :: 8 word) = unat x mod 256" by (simp add: unsigned_ucast_eq take_bit_eq_mod)
qed

lemma mapped_number:
  "segs [n0, n1, n2, n3, n4, n5, unat s6, unat s7] mod 2 ^ 32 =
   dotted (unat s6 div 256) (unat s6 mod 256) (unat s7 div 256) (unat s7 mod 256)" for s6 s7 :: "16 word"
proof -
  have "segs [n0, n1, n2, n3, n4, n5, x, y] = segs [n0, n1, n2, n3, n4, n5] * 2 ^ 32 + (x * 65536 + y)" for x y
    by (simp add: segs_def)
  moreover have "x * 65536 + y < 2 ^ 32" if "x < 65536" "y < 65536" for x y :: nat using that by simp
  ultimately have "segs [n0, n1, n2, n3, n4, n5, unat s6, unat s7] mod 2 ^ 32 = unat s6 * 65536 + unat s7"
    using unat_16 [of s6] unat_16 [of s7] by simp
  also have "\<dots> = ((unat s6 div 256 * 256 + unat s6 mod 256) * 256 + unat s7 div 256) * 256 + unat s7 mod 256"
    by (simp add: distrib_right mult.assoc div_mult_mod_eq)
  finally show ?thesis by (simp only: dotted_def)
qed


end
