(* ===== verification/GatewayPolicy.thy ===== *)
theory GatewayPolicy
  imports Prelude "HOL-Library.Sublist"
begin

text \<open>
  Where the credential gateway may send a relayed request
  (\<^verbatim>\<open>crates/jeryu-gateway/src/policy.rs\<close>) and the lines it reads from a node
  (\<^verbatim>\<open>crates/jeryu-gateway/src/frames.rs\<close>): the table of upstreams, the paths and headers a request may
  carry, identifiers and body chunks. JSON and base64 decoding are arguments.
\<close>

section \<open>Errors and headers\<close>

datatype relay_error =
    CapabilityUnverified
  | ProviderUnknown
  | ConnectionOwnerMismatch
  | ProviderNotConnected
  | ConnectionGenerationStale
  | ProviderModeDisabled
  | ProviderModeUnqualified
  | RamTokenNotPermitted
  | GuestAuthorizationRejected
  | CapabilityExpired
  | CapabilityAudienceMismatch
  | UpstreamHostDenied
  | ConnectionBusy
  | RefreshPersistFailed
  | LeaseBindingMismatch
  | RelayIdleTimeout
  | RelayStreamInvalid

record relay_header =
  rh_name :: string
  rh_value :: string

section \<open>Upstreams\<close>

record upstream =
  up_base_url :: string
  up_path_prefixes :: "string list"
  up_fixed_headers :: "(string \<times> string) list"

record upstream_table =
  ut_claude :: "upstream option"
  ut_codex :: "upstream option"
  ut_grok :: "upstream option"

definition production_upstream :: "string \<Rightarrow> upstream" where
  "production_upstream host = \<lparr>up_base_url = ''https://'' @ host, up_path_prefixes = [], up_fixed_headers = []\<rparr>"

definition production :: upstream_table where
  "production = \<lparr>ut_claude = Some (production_upstream ''api.anthropic.com''),
     ut_codex = Some (production_upstream ''api.openai.com''), ut_grok = Some (production_upstream ''api.x.ai'')\<rparr>"

definition forbidden :: "char \<Rightarrow> bool" where
  "forbidden b \<longleftrightarrow> (of_char b :: nat) < 32 \<or> (of_char b :: nat) = 127 \<or>
     b \<in> {CHR ''?'', CHR ''#'', CHR ''%'', CHR 0x5C, CHR ''@'', CHR '' ''} \<or> 128 \<le> (of_char b :: nat)"

definition plain_segment :: "string \<Rightarrow> bool" where
  "plain_segment s \<longleftrightarrow> s \<noteq> [] \<and> s \<noteq> ''.'' \<and> s \<noteq> ''..''"

definition valid_path :: "string \<Rightarrow> bool" where
  "valid_path path =
     (if \<not> starts_with path ''/'' \<or> 2048 < length path then False
      else if list_ex forbidden path then False
      else list_all plain_segment (split_on (CHR ''/'') (tl path)))"

text \<open>The slot of a provider: nothing for one the table does not know.\<close>

definition slot :: "upstream_table \<Rightarrow> string \<Rightarrow> upstream option option" where
  "slot t provider =
     (if provider = ''claude'' then Some (ut_claude t)
      else if provider = ''codex'' then Some (ut_codex t)
      else if provider = ''grok'' then Some (ut_grok t)
      else None)"

definition set_slot :: "upstream_table \<Rightarrow> string \<Rightarrow> upstream \<Rightarrow> upstream_table" where
  "set_slot t provider u =
     (if provider = ''claude'' then t\<lparr>ut_claude := Some u\<rparr>
      else if provider = ''codex'' then t\<lparr>ut_codex := Some u\<rparr>
      else if provider = ''grok'' then t\<lparr>ut_grok := Some u\<rparr>
      else t)"

definition enroll :: "upstream_table \<Rightarrow> string \<Rightarrow> string \<Rightarrow> upstream_table \<times> (relay_error + unit)" where
  "enroll t provider pre =
     (case slot t provider of
        None \<Rightarrow> (t, Inl ProviderUnknown)
      | Some None \<Rightarrow> (t, Inl UpstreamHostDenied)
      | Some (Some u) \<Rightarrow>
          if \<not> valid_path pre then (t, Inl RelayStreamInvalid)
          else (set_slot t provider (u\<lparr>up_path_prefixes := up_path_prefixes u @ [pre]\<rparr>), Inr ()))"

definition under_prefix :: "string \<Rightarrow> string \<Rightarrow> bool" where
  "under_prefix path pre \<longleftrightarrow> path = pre \<or>
     (case strip_prefix pre path of None \<Rightarrow> False | Some rest \<Rightarrow> starts_with rest ''/'')"

definition resolve_upstream :: "upstream_table \<Rightarrow> string \<Rightarrow> string \<Rightarrow> relay_error + string \<times> upstream" where
  "resolve_upstream t provider path =
     (case slot t provider of
        None \<Rightarrow> Inl ProviderUnknown
      | Some None \<Rightarrow> Inl UpstreamHostDenied
      | Some (Some u) \<Rightarrow>
          if \<not> valid_path path then Inl RelayStreamInvalid
          else if \<not> list_ex (under_prefix path) (up_path_prefixes u) then Inl UpstreamHostDenied
          else Inr (up_base_url u @ path, u))"

fun check_headers_from :: "string list \<Rightarrow> relay_header list \<Rightarrow> relay_error + unit" where
  "check_headers_from seen [] = Inr ()"
| "check_headers_from seen (h # hs) =
     (let allowed = rh_name h \<in> {''accept'', ''content-type''};
          printable = (rh_value h \<noteq> [] \<and> length (rh_value h) \<le> 256 \<and>
            list_all (\<lambda>b. 32 \<le> (of_char b :: nat) \<and> (of_char b :: nat) < 127) (rh_value h))
      in if \<not> allowed \<or> \<not> printable \<or> rh_name h \<in> set seen then Inl RelayStreamInvalid
         else check_headers_from (seen @ [rh_name h]) hs)"

definition check_headers :: "relay_header list \<Rightarrow> relay_error + unit" where
  "check_headers hs = check_headers_from [] hs"

section \<open>Identifiers and chunks\<close>

definition MAX_LINE_BYTES :: nat where
  "MAX_LINE_BYTES = 256 * 1024"

definition MAX_CHUNK_BYTES :: nat where
  "MAX_CHUNK_BYTES = 32 * 1024"

definition valid_id :: "string \<Rightarrow> bool" where
  "valid_id s \<longleftrightarrow> s \<noteq> [] \<and> length s \<le> 128 \<and> is_ascii_alphanumeric (hd s) \<and> is_ascii_alphanumeric (last s) \<and>
     list_all (\<lambda>b. is_ascii_alphanumeric b \<or> b \<in> set ''._:/-'') s"

definition decode_chunk :: "(string \<Rightarrow> string option) \<Rightarrow> string \<Rightarrow> relay_error + string" where
  "decode_chunk b64 s =
     (case b64 s of
        None \<Rightarrow> Inl RelayStreamInvalid
      | Some bytes \<Rightarrow> if bytes = [] \<or> MAX_CHUNK_BYTES < length bytes then Inl RelayStreamInvalid else Inr bytes)"

section \<open>Where a request goes\<close>

text \<open>A table of the production hosts, with paths enrolled.\<close>

definition enroll_all :: "upstream_table \<Rightarrow> (string \<times> string) list \<Rightarrow> upstream_table" where
  "enroll_all t es = foldl (\<lambda>t (provider, pre). fst (enroll t provider pre)) t es"

definition host_of :: "string \<Rightarrow> string" where
  "host_of provider =
     (if provider = ''claude'' then ''api.anthropic.com'' else if provider = ''codex'' then ''api.openai.com'' else ''api.x.ai'')"

definition table_ok :: "(string \<times> string) list \<Rightarrow> upstream_table \<Rightarrow> bool" where
  "table_ok es t \<longleftrightarrow> (\<forall>provider u. slot t provider = Some (Some u) \<longrightarrow>
     up_base_url u = ''https://'' @ host_of provider \<and>
     (\<forall>pre \<in> set (up_path_prefixes u). valid_path pre \<and> (provider, pre) \<in> set es))"

lemma slot_set_slot: "slot t p = Some x \<Longrightarrow> slot (set_slot t p u) q = (if q = p then Some (Some u) else slot t q)"
  by (auto simp: slot_def set_slot_def split: if_splits)

lemma enroll_table_ok:
  assumes "table_ok es t" "set es \<subseteq> set es'" "(provider, pre) \<in> set es'"
  shows "table_ok es' (fst (enroll t provider pre))"
proof (cases "\<exists>u. slot t provider = Some (Some u) \<and> valid_path pre")
  case True
  then obtain u where u: "slot t provider = Some (Some u)" "valid_path pre" by blast
  then show ?thesis
    using assms by (auto simp: table_ok_def enroll_def slot_set_slot [OF u(1)] split: if_splits)
next
  case False
  then have "fst (enroll t provider pre) = t" by (auto simp: enroll_def split: option.splits)
  then show ?thesis using assms(1,2) by (fastforce simp: table_ok_def)
qed

lemma production_ok: "table_ok [] production"
  by (auto simp: table_ok_def slot_def production_def production_upstream_def host_of_def split: if_splits)

lemma enroll_all_ok: "table_ok es t \<Longrightarrow> set es \<union> set qs \<subseteq> set es' \<Longrightarrow> table_ok es' (enroll_all t qs)"
proof (induction qs arbitrary: t es)
  case Nil
  then show ?case by (fastforce simp: enroll_all_def table_ok_def)
next
  case (Cons q qs)
  obtain provider pre where q: "q = (provider, pre)" by (cases q)
  have "table_ok es' (fst (enroll t provider pre))" using Cons.prems q by (intro enroll_table_ok [of es]) auto
  then show ?case using Cons.IH [of es' "fst (enroll t provider pre)"] Cons.prems(2) q by (simp add: enroll_all_def)
qed

text \<open>A path under a prefix continues it by whole segments.\<close>

lemma split_on_append: "split_on c (xs @ c # ys) = split_on c xs @ split_on c ys"
  by (induction xs) (auto split: list.splits)

lemma under_prefix_iff: "under_prefix path pre \<longleftrightarrow> path = pre \<or> (\<exists>rest. path = pre @ CHR ''/'' # rest)"
proof -
  have "starts_with rest ''/'' \<longleftrightarrow> (\<exists>ys. rest = CHR ''/'' # ys)" for rest
    by (cases rest) (auto simp: starts_with_def)
  then show ?thesis
    by (auto simp: under_prefix_def strip_prefix_Some_iff split: option.splits)
      (metis option.distinct(1) strip_prefix_Some_iff)
qed

lemma under_prefix_segments:
  assumes "under_prefix path pre"
  shows "prefix (split_on (CHR ''/'') pre) (split_on (CHR ''/'') path)"
  using assms by (auto simp: under_prefix_iff split_on_append prefix_def)

lemma valid_path_shape:
  assumes "valid_path path"
  obtains rest where "path = CHR ''/'' # rest" "list_all plain_segment (split_on (CHR ''/'') rest)"
    "length path \<le> 2048" "\<And>b. b \<in> set path \<Longrightarrow> \<not> forbidden b"
  using assms by (cases path) (auto simp: valid_path_def starts_with_def list_ex_iff split: if_splits)

lemma slot_known: "slot t provider = Some x \<Longrightarrow> provider \<in> {''claude'', ''codex'', ''grok''}"
  by (simp add: slot_def split: if_splits)

lemma host_has_no_slash: "CHR ''/'' \<notin> set (host_of provider)"
  by (simp add: host_of_def)

lemma resolved_url:
  assumes "resolve_upstream (enroll_all production es) provider path = Inr (url, u)"
  shows "url = ''https://'' @ host_of provider @ path" "valid_path path" "provider \<in> {''claude'', ''codex'', ''grok''}"
    "\<exists>pre. (provider, pre) \<in> set es \<and> valid_path pre \<and> under_prefix path pre"
proof -
  have ok: "table_ok es (enroll_all production es)" by (rule enroll_all_ok [OF production_ok]) simp
  from assms have slot: "slot (enroll_all production es) provider = Some (Some u)"
    and under: "list_ex (under_prefix path) (up_path_prefixes u)" and url: "url = up_base_url u @ path" and "valid_path path"
    by (auto simp: resolve_upstream_def split: option.splits if_splits)
  then show "valid_path path" "provider \<in> {''claude'', ''codex'', ''grok''}" using slot_known [OF slot] by auto
  have base: "up_base_url u = ''https://'' @ host_of provider"
    and pres: "\<forall>pre \<in> set (up_path_prefixes u). valid_path pre \<and> (provider, pre) \<in> set es"
    using ok slot unfolding table_ok_def by blast+
  show "url = ''https://'' @ host_of provider @ path" using url base by simp
  show "\<exists>pre. (provider, pre) \<in> set es \<and> valid_path pre \<and> under_prefix path pre"
    using under pres unfolding list_ex_iff by blast
qed

text \<open>
  C35. The credential leaves only for the provider's own host. On the production table with any paths
  enrolled, a resolved URL is \<^verbatim>\<open>https://\<close>, the provider's host and the path. What a URL
  reader takes for the authority, the text up to the first slash, is exactly that host. The path has no byte
  that would start a query, a fragment, an escape or user information, no empty or dot segment, and it
  continues a path enrolled for this provider by whole segments.
\<close>

theorem relayed_request_stays_on_its_host:
  assumes resolved: "resolve_upstream (enroll_all production es) provider path = Inr (url, u)"
  shows "(provider, host_of provider) \<in> {(''claude'', ''api.anthropic.com''), (''codex'', ''api.openai.com''), (''grok'', ''api.x.ai'')} \<and>
    split_once (CHR ''/'') (drop (length ''https://'') url) = Some (host_of provider, tl path) \<and>
    url = ''https://'' @ host_of provider @ path \<and>
    set path \<inter> {CHR ''?'', CHR ''#'', CHR ''%'', CHR 0x5C, CHR ''@'', CHR '' ''} = {} \<and>
    list_all plain_segment (split_on (CHR ''/'') (tl path)) \<and>
    (\<exists>pre. (provider, pre) \<in> set es \<and> valid_path pre \<and> prefix (split_on (CHR ''/'') pre) (split_on (CHR ''/'') path))"
proof -
  note url = resolved_url(1) [OF resolved] and valid = resolved_url(2) [OF resolved]
  have s1: "(provider, host_of provider) \<in> {(''claude'', ''api.anthropic.com''), (''codex'', ''api.openai.com''), (''grok'', ''api.x.ai'')}"
    using resolved_url(3) [OF resolved] by (elim insertE emptyE) (simp_all add: host_of_def)
  obtain rest where rest: "path = CHR ''/'' # rest" "list_all plain_segment (split_on (CHR ''/'') rest)"
    and plain: "\<And>b. b \<in> set path \<Longrightarrow> \<not> forbidden b"
    using valid by (rule valid_path_shape) blast
  have "drop (length ''https://'') url = host_of provider @ CHR ''/'' # rest" using url rest(1) by simp
  then have s2: "split_once (CHR ''/'') (drop (length ''https://'') url) = Some (host_of provider, tl path)"
    using host_has_no_slash rest(1) by (simp add: split_once_Some_iff)
  have s3: "set path \<inter> {CHR ''?'', CHR ''#'', CHR ''%'', CHR 0x5C, CHR ''@'', CHR '' ''} = {}"
    using plain unfolding forbidden_def by blast
  have s4: "list_all plain_segment (split_on (CHR ''/'') (tl path))" using rest by simp
  have s5: "\<exists>pre. (provider, pre) \<in> set es \<and> valid_path pre \<and> prefix (split_on (CHR ''/'') pre) (split_on (CHR ''/'') path)"
    using resolved_url(4) [OF resolved] under_prefix_segments by blast
  show ?thesis using s1 s2 url s3 s4 s5 by (intro conjI)
qed

theorem relayed_request_stays_on_its_host_witness:
  "split_once (CHR ''/'') (drop (length ''https://'') ''https://api.x.ai/v1/chat'') = Some (host_of ''grok'', tl ''/v1/chat'')"
proof -
  have "resolve_upstream (enroll_all production [(''grok'', ''/v1'')]) ''grok'' ''/v1/chat'' =
      Inr (''https://api.x.ai/v1/chat'', (production_upstream ''api.x.ai'')\<lparr>up_path_prefixes := [''/v1'']\<rparr>)"
    by code_simp
  from relayed_request_stays_on_its_host [OF this] show ?thesis by (elim conjE)
qed

end
