(* ===== verification/GatewayAuthority.thy ===== *)
theory GatewayAuthority
  imports GatewayPolicy "HOL-Library.Multiset"
begin

text \<open>
  Who may relay through the credential gateway: capabilities, the bytes a node signs and their
  window (\<^verbatim>\<open>crates/jeryu-gateway/src/capability.rs\<close>), and phase 0, which checks the caller against the
  enrolled nodes and the stored assignment (\<^verbatim>\<open>crates/jeryu-gateway/src/authority.rs\<close>). The verification of
  Ed25519 signatures and the quoting of JSON strings are arguments.
\<close>

section \<open>Capabilities\<close>

definition AUDIENCE :: string where
  "AUDIENCE = ''jeryu.gateway''"

definition MAX_LIFETIME_MILLIS :: nat where
  "MAX_LIFETIME_MILLIS = 60000"

definition DOMAIN :: string where
  "DOMAIN = ''jeryu.gateway.capability.v1'' @ [CHR 0x00]"

datatype relay_mode = GatewayHelper | QualifiedRamToken

datatype owner_kind = OwnerUser | OwnerServiceAccount

record capability =
  cp_capability_id :: string
  cp_connection_id :: string
  cp_connection_generation :: nat
  cp_provider :: string
  cp_mode :: relay_mode
  cp_owner_kind :: owner_kind
  cp_owner_id :: string
  cp_session_id :: string
  cp_session_generation :: nat
  cp_lease_id :: string
  cp_lease_epoch :: nat
  cp_audience :: string
  cp_issued_at :: nat
  cp_expires_at :: nat
  cp_signature :: string

definition verify_validity :: "capability \<Rightarrow> nat \<Rightarrow> nat \<Rightarrow> relay_error + unit" where
  "verify_validity c now lease_expires =
     (let issued = cp_issued_at c; expires = cp_expires_at c;
          lifetime = checked_sub expires issued
      in if \<not> (case lifetime of None \<Rightarrow> False | Some l \<Rightarrow> 1 \<le> l \<and> l \<le> MAX_LIFETIME_MILLIS) \<or>
            now < issued \<or> expires \<le> now \<or> lease_expires < expires
         then Inl CapabilityExpired
         else if cp_audience c \<noteq> AUDIENCE then Inl CapabilityAudienceMismatch
         else Inr ())"

definition owner_matches_kind :: "capability \<Rightarrow> bool" where
  "owner_matches_kind c =
     (case cp_owner_kind c of
        OwnerUser \<Rightarrow> starts_with (cp_owner_id c) ''user/''
      | OwnerServiceAccount \<Rightarrow> starts_with (cp_owner_id c) ''service/'')"

subsection \<open>The signed bytes\<close>

text \<open>
  JSON values as \<^verbatim>\<open>serde_json::Value\<close> has them, an object as the list of its entries. Numbers are the integers
  \<open>JInt\<close> and the others \<open>JFloat\<close>.
\<close>

datatype json =
    JNull
  | JBool bool
  | JStr string
  | JInt int
  | JFloat
  | JArray "json list"
  | JObject "(string \<times> json) list"

text \<open>Both loops stop at the first value that cannot be written.\<close>

fun all_some :: "'a option list \<Rightarrow> 'a list option" where
  "all_some [] = Some []"
| "all_some (x # xs) = (case x of None \<Rightarrow> None | Some a \<Rightarrow> map_option (Cons a) (all_some xs))"

primrec canonical_entry :: "(string \<Rightarrow> string) \<Rightarrow> string \<times> string option \<Rightarrow> string option" where
  "canonical_entry quote (Pair k v) = map_option (\<lambda>t. quote k @ '':'' @ t) v"

primrec canonical :: "(string \<Rightarrow> string) \<Rightarrow> json \<Rightarrow> string option" where
  "canonical quote JNull = Some ''null''"
| "canonical quote (JBool b) = Some (if b then ''true'' else ''false'')"
| "canonical quote (JStr s) = Some (quote s)"
| "canonical quote (JInt i) = Some (show_int i)"
| "canonical quote JFloat = None"
| "canonical quote (JArray items) =
     map_option (\<lambda>ts. ''['' @ join_with '','' ts @ '']'') (all_some (map (canonical quote) items))"
| "canonical quote (JObject m) =
     map_option (\<lambda>ts. ''{'' @ join_with '','' ts @ ''}'')
       (all_some (map (canonical_entry quote) (sort_key fst (map (map_prod id (canonical quote)) m))))"

fun mode_name :: "relay_mode \<Rightarrow> string" where
  "mode_name GatewayHelper = ''gateway_helper''"
| "mode_name QualifiedRamToken = ''qualified_ram_token''"

fun owner_kind_name :: "owner_kind \<Rightarrow> string" where
  "owner_kind_name OwnerUser = ''user''"
| "owner_kind_name OwnerServiceAccount = ''service_account''"

definition capability_entries :: "capability \<Rightarrow> (string \<times> json) list" where
  "capability_entries c =
     [(''capability_id'', JStr (cp_capability_id c)), (''connection_id'', JStr (cp_connection_id c)),
      (''connection_generation'', JInt (int (cp_connection_generation c))), (''provider'', JStr (cp_provider c)),
      (''mode'', JStr (mode_name (cp_mode c))), (''owner_kind'', JStr (owner_kind_name (cp_owner_kind c))),
      (''owner_id'', JStr (cp_owner_id c)), (''session_id'', JStr (cp_session_id c)),
      (''session_generation'', JInt (int (cp_session_generation c))), (''lease_id'', JStr (cp_lease_id c)),
      (''lease_epoch'', JInt (int (cp_lease_epoch c))), (''audience'', JStr (cp_audience c)),
      (''issued_at_unix_millis'', JInt (int (cp_issued_at c))), (''expires_at_unix_millis'', JInt (int (cp_expires_at c))),
      (''signature'', JStr (cp_signature c))]"

definition signing_bytes :: "(string \<Rightarrow> string) \<Rightarrow> capability \<Rightarrow> string option" where
  "signing_bytes quote c =
     map_option (\<lambda>t. DOMAIN @ t)
       (canonical quote (JObject (filter (\<lambda>(k, v). k \<noteq> ''signature'') (capability_entries c))))"

definition hex_value :: "char \<Rightarrow> nat" where
  "hex_value ch = (if is_ascii_digit ch then of_char ch - 48 else of_char ch - 87)"

fun hex_pairs :: "string \<Rightarrow> string" where
  "hex_pairs (a # b # cs) = char_of (16 * hex_value a + hex_value b) # hex_pairs cs"
| "hex_pairs _ = []"

definition decode_hex_signature :: "string \<Rightarrow> string option" where
  "decode_hex_signature hex =
     (if length hex \<noteq> 128 \<or> \<not> list_all is_lower_hex hex then None else Some (hex_pairs hex))"

text \<open>The arguments: \<open>verify key message signature\<close> and \<open>quote\<close>.\<close>

definition signed_by :: "(string \<Rightarrow> string \<Rightarrow> string \<Rightarrow> bool) \<Rightarrow> (string \<Rightarrow> string) \<Rightarrow> capability \<Rightarrow> string \<Rightarrow> bool" where
  "signed_by ed25519 quote c key =
     (case (decode_hex_signature (cp_signature c), signing_bytes quote c) of
        (Some signature, Some message) \<Rightarrow> ed25519 key message signature
      | _ \<Rightarrow> False)"

section \<open>Phase 0\<close>

record enrolled_node =
  en_runner_id :: string
  en_capability_key :: string

text \<open>Enrolled nodes by the fingerprint of their certificate.\<close>

type_synonym node_registry = "string \<rightharpoonup> enrolled_node"

definition enroll_node :: "node_registry \<Rightarrow> string \<Rightarrow> enrolled_node \<Rightarrow> node_registry" where
  "enroll_node r certificate node = r(certificate \<mapsto> node)"

record lease_binding =
  lb_provider :: string
  lb_connection_id :: string
  lb_connection_generation :: nat
  lb_mode :: relay_mode

record assignment =
  as_runner_id :: string
  as_session_id :: string
  as_session_generation :: nat
  as_lease_id :: string
  as_lease_epoch :: nat
  as_owner_id :: string
  as_lease_expires :: nat
  as_bindings :: "lease_binding list"

definition no_sessions :: "string \<Rightarrow> assignment option" where
  "no_sessions s = None"

definition lease_matches :: "assignment \<Rightarrow> string \<Rightarrow> capability \<Rightarrow> nat \<Rightarrow> bool" where
  "lease_matches a runner_id c now \<longleftrightarrow>
     as_runner_id a = runner_id \<and> as_session_id a = cp_session_id c \<and> as_session_generation a = cp_session_generation c \<and>
     as_lease_id a = cp_lease_id c \<and> as_lease_epoch a = cp_lease_epoch c \<and> as_owner_id a = cp_owner_id c \<and>
     now < as_lease_expires a"

definition binding_matches :: "assignment \<Rightarrow> capability \<Rightarrow> bool" where
  "binding_matches a c \<longleftrightarrow> list_ex (\<lambda>b.
     lb_provider b = cp_provider c \<and> lb_connection_id b = cp_connection_id c \<and>
     lb_connection_generation b = cp_connection_generation c \<and> lb_mode b = cp_mode c) (as_bindings a)"

definition current :: "(string \<Rightarrow> assignment option) \<Rightarrow> string \<Rightarrow> capability \<Rightarrow> nat \<Rightarrow> relay_error + nat" where
  "current assigned runner_id c now =
     (case assigned (cp_session_id c) of
        None \<Rightarrow> Inl CapabilityUnverified
      | Some a \<Rightarrow>
          if lease_matches a runner_id c now \<and> binding_matches a c then Inr (as_lease_expires a)
          else Inl CapabilityUnverified)"

definition verify ::
  "(string \<Rightarrow> string \<Rightarrow> string \<Rightarrow> bool) \<Rightarrow> (string \<Rightarrow> string) \<Rightarrow> node_registry \<Rightarrow> (string \<Rightarrow> assignment option) \<Rightarrow>
   string option \<Rightarrow> capability \<Rightarrow> string \<times> string \<Rightarrow> nat \<Rightarrow> relay_error + string \<times> nat" where
  "verify ed25519 quote registry assigned peer c route now =
     (case Option.bind peer registry of
        None \<Rightarrow> Inl CapabilityUnverified
      | Some node \<Rightarrow>
          if \<not> signed_by ed25519 quote c (en_capability_key node) then Inl CapabilityUnverified
          else if cp_session_id c \<noteq> fst route \<or> cp_provider c \<noteq> snd route \<or> \<not> owner_matches_kind c
            then Inl CapabilityUnverified
          else (case current assigned (en_runner_id node) c now of
                  Inl e \<Rightarrow> Inl e
                | Inr lease_expires \<Rightarrow> Inr (en_runner_id node, lease_expires)))"

section \<open>What a signature binds\<close>

text \<open>
  What the code relies on of JSON: a written string ends where its quote closes, so what follows never
  changes which string it is.
\<close>

definition quote_ok :: "(string \<Rightarrow> string) \<Rightarrow> bool" where
  "quote_ok quote \<longleftrightarrow> (\<forall>s t xs ys. quote s @ xs = quote t @ ys \<longrightarrow> s = t)"

lemma quote_peel: "quote_ok quote \<Longrightarrow> quote s @ xs = quote t @ ys \<Longrightarrow> s = t \<and> xs = ys"
  unfolding quote_ok_def by (metis same_append_eq)

fun scalar_text :: "(string \<Rightarrow> string) \<Rightarrow> string + nat \<Rightarrow> string" where
  "scalar_text quote (Inl s) = quote s"
| "scalar_text quote (Inr n) = show_nat n"

definition ends_number :: "char \<Rightarrow> bool" where
  "ends_number ch \<longleftrightarrow> \<not> is_ascii_digit ch"

lemma number_peel:
  assumes "show_nat n @ a # xs = show_nat m @ b # ys" "ends_number a" "ends_number b"
  shows "n = m \<and> a # xs = b # ys"
proof -
  have cut: "takeWhile is_ascii_digit (show_nat k @ ch # zs) = show_nat k" if "ends_number ch" for k ch zs
  proof -
    have "\<forall>x \<in> set (show_nat k). is_ascii_digit x" using show_nat_digits [of k] by (simp add: list_all_iff)
    then show ?thesis using that by (simp add: takeWhile_append2 ends_number_def)
  qed
  have "show_nat n = takeWhile is_ascii_digit (show_nat n @ a # xs)" by (rule cut [OF assms(2), symmetric])
  also have "\<dots> = show_nat m" unfolding assms(1) by (rule cut [OF assms(3)])
  finally have s: "show_nat n = show_nat m" .
  have "n = m" using arg_cong [OF s, of "digits_value 0"] by (simp only: digits_value_show_nat)
  moreover have "a # xs = b # ys" using assms(1) unfolding s by (simp only: same_append_eq)
  ultimately show ?thesis by (rule conjI)
qed

lemma scalar_peel:
  assumes "quote_ok quote" "isl v = isl w" "ends_number a" "ends_number b"
    and "scalar_text quote v @ a # xs = scalar_text quote w @ b # ys"
  shows "v = w \<and> a # xs = b # ys"
proof (cases v)
  case (Inl s)
  then obtain t where "w = Inl t" using assms(2) by (cases w) simp_all
  then show ?thesis using Inl quote_peel [OF assms(1), of s "a # xs" t "b # ys"] assms(5) by simp
next
  case (Inr n)
  then obtain m where "w = Inr m" using assms(2) by (cases w) simp_all
  then show ?thesis using Inr number_peel [OF _ assms(3,4), of n xs m ys] assms(5) by simp
qed

fun entries_text :: "(string \<Rightarrow> string) \<Rightarrow> (string \<times> (string + nat)) list \<Rightarrow> string" where
  "entries_text quote [] = ''}''"
| "entries_text quote [(k, v)] = quote k @ CHR '':'' # scalar_text quote v @ ''}''"
| "entries_text quote ((k, v) # e # es) = quote k @ CHR '':'' # scalar_text quote v @ CHR '','' # entries_text quote (e # es)"

lemma entries_peel:
  "quote_ok quote \<Longrightarrow> map fst es = map fst fs \<Longrightarrow> map (\<lambda>x. isl (snd x)) es = map (\<lambda>x. isl (snd x)) fs \<Longrightarrow>
   entries_text quote es = entries_text quote fs \<Longrightarrow> es = fs"
proof (induction quote es arbitrary: fs rule: entries_text.induct)
  case (1 quote)
  then show ?case by simp
next
  case (2 quote k v)
  obtain w where fs: "fs = [(k, w)]" "isl v = isl w" using 2(2,3) by (cases fs) auto
  have "scalar_text quote v @ CHR ''}'' # [] = scalar_text quote w @ CHR ''}'' # []" using 2(4) by (simp add: fs(1))
  then have "v = w" using scalar_peel [OF 2(1) fs(2), of "CHR ''}''" "CHR ''}''" "[]" "[]"] by (simp add: ends_number_def is_ascii_digit_def)
  then show ?case by (simp add: fs(1))
next
  case (3 quote k v e es)
  obtain w f fs' where fs: "fs = (k, w) # f # fs'" "isl v = isl w" "map fst (e # es) = map fst (f # fs')"
    "map (\<lambda>x. isl (snd x)) (e # es) = map (\<lambda>x. isl (snd x)) (f # fs')"
    using 3(3,4) by (cases fs rule: list.exhaust; cases "tl fs") auto
  have "scalar_text quote v @ CHR '','' # entries_text quote (e # es) = scalar_text quote w @ CHR '','' # entries_text quote (f # fs')"
    using 3(5) by (cases e; cases f) (simp add: fs(1))
  from scalar_peel [OF 3(2) fs(2) _ _ this] have "v = w" "entries_text quote (e # es) = entries_text quote (f # fs')"
    by (simp_all add: ends_number_def is_ascii_digit_def)
  then show ?case using 3(1) [OF 3(2) fs(3,4)] fs(1) by simp
qed

text \<open>The entries of a capability in the order they are written.\<close>

definition signed_entries :: "capability \<Rightarrow> (string \<times> (string + nat)) list" where
  "signed_entries c =
     [(''audience'', Inl (cp_audience c)), (''capability_id'', Inl (cp_capability_id c)),
      (''connection_generation'', Inr (cp_connection_generation c)), (''connection_id'', Inl (cp_connection_id c)),
      (''expires_at_unix_millis'', Inr (cp_expires_at c)), (''issued_at_unix_millis'', Inr (cp_issued_at c)),
      (''lease_epoch'', Inr (cp_lease_epoch c)), (''lease_id'', Inl (cp_lease_id c)), (''mode'', Inl (mode_name (cp_mode c))),
      (''owner_id'', Inl (cp_owner_id c)), (''owner_kind'', Inl (owner_kind_name (cp_owner_kind c))),
      (''provider'', Inl (cp_provider c)), (''session_generation'', Inr (cp_session_generation c)),
      (''session_id'', Inl (cp_session_id c))]"

fun scalar_json :: "string + nat \<Rightarrow> json" where
  "scalar_json (Inl s) = JStr s"
| "scalar_json (Inr n) = JInt (int n)"

lemma canonical_scalar: "canonical quote (scalar_json v) = Some (scalar_text quote v)"
  by (cases v) (simp_all add: show_int_def)

definition written :: "(string \<Rightarrow> string) \<Rightarrow> (string \<times> (string + nat)) list \<Rightarrow> string option list" where
  "written quote es = map (canonical_entry quote) (map (map_prod id (canonical quote)) (map (map_prod id scalar_json) es))"

lemma written_simps [simp]:
  "written quote [] = []"
  "written quote ((k, v) # es) = Some (quote k @ CHR '':'' # scalar_text quote v) # written quote es"
  by (simp_all add: written_def canonical_scalar)

lemma canonical_entries:
  "\<exists>ts. all_some (written quote es) = Some ts \<and> join_with '','' ts @ ''}'' = entries_text quote es \<and> (es \<noteq> [] \<longrightarrow> ts \<noteq> [])"
proof (induction quote es rule: entries_text.induct)
  case (3 quote k v e es)
  then obtain ts where ts: "all_some (written quote (e # es)) = Some ts"
    "join_with '','' ts @ ''}'' = entries_text quote (e # es)" "ts \<noteq> []" by blast
  then obtain u us where "ts = u # us" by (cases ts) simp_all
  with ts show ?case by simp
qed simp_all

lemma signed_sorted:
  "sort_key fst (map (map_prod id (canonical quote)) (filter (\<lambda>(k, v). k \<noteq> ''signature'') (capability_entries c))) =
   map (map_prod id (canonical quote)) (map (map_prod id scalar_json) (signed_entries c))"
proof (rule sort_key_inj_key_eq)
  have keys: "map fst (map (map_prod id (canonical quote)) (map (map_prod id scalar_json) (signed_entries c))) =
    [''audience'', ''capability_id'', ''connection_generation'', ''connection_id'', ''expires_at_unix_millis'',
     ''issued_at_unix_millis'', ''lease_epoch'', ''lease_id'', ''mode'', ''owner_id'', ''owner_kind'', ''provider'',
     ''session_generation'', ''session_id'']"
    by (simp add: signed_entries_def)
  show "sorted (map fst (map (map_prod id (canonical quote)) (map (map_prod id scalar_json) (signed_entries c))))"
    unfolding keys by code_simp
  show m: "mset (map (map_prod id (canonical quote)) (filter (\<lambda>(k, v). k \<noteq> ''signature'') (capability_entries c))) =
    mset (map (map_prod id (canonical quote)) (map (map_prod id scalar_json) (signed_entries c)))"
    by (simp add: capability_entries_def signed_entries_def)
  have "distinct (map fst (map (map_prod id (canonical quote)) (map (map_prod id scalar_json) (signed_entries c))))"
    unfolding keys by code_simp
  then show "inj_on fst (set (map (map_prod id (canonical quote)) (filter (\<lambda>(k, v). k \<noteq> ''signature'') (capability_entries c))))"
    using mset_eq_setD [OF m] by (simp only: distinct_map)
qed

lemma signing_bytes_text: "signing_bytes quote c = Some (DOMAIN @ ''{'' @ entries_text quote (signed_entries c))"
proof -
  obtain ts where ts: "all_some (written quote (signed_entries c)) = Some ts" "join_with '','' ts @ ''}'' = entries_text quote (signed_entries c)"
    using canonical_entries by blast
  then show ?thesis unfolding signing_bytes_def canonical.simps signed_sorted written_def by simp
qed

lemma signed_entries_inj:
  assumes "signed_entries c = signed_entries d"
  shows "d\<lparr>cp_signature := cp_signature c\<rparr> = c"
proof -
  have "mode_name a = mode_name b \<Longrightarrow> a = b" for a b by (cases a; cases b) simp_all
  moreover have "owner_kind_name a = owner_kind_name b \<Longrightarrow> a = b" for a b by (cases a; cases b) simp_all
  ultimately show ?thesis using assms by (cases c; cases d) (simp add: signed_entries_def)
qed

lemma signing_bytes_inj:
  assumes "quote_ok quote" "signing_bytes quote c = signing_bytes quote d"
  shows "d\<lparr>cp_signature := cp_signature c\<rparr> = c"
proof (rule signed_entries_inj)
  show "signed_entries c = signed_entries d"
    using assms(2) unfolding signing_bytes_text
    by (intro entries_peel [OF assms(1)]) (simp_all add: signed_entries_def)
qed

text \<open>
  What the gateway relies on of the signatures: one that verifies under a key is on the bytes of a capability its
  owner signed.
\<close>

definition unforgeable ::
  "(string \<Rightarrow> string \<Rightarrow> string \<Rightarrow> bool) \<Rightarrow> (string \<Rightarrow> string) \<Rightarrow> (string \<Rightarrow> capability set) \<Rightarrow> bool" where
  "unforgeable ed25519 quote issued \<longleftrightarrow>
     (\<forall>key m sg. ed25519 key m sg \<longrightarrow> (\<exists>d \<in> issued key. signing_bytes quote d = Some m))"

lemma signed_by_issued:
  assumes "quote_ok quote" "unforgeable ed25519 quote issued" "signed_by ed25519 quote c key"
  shows "\<exists>d \<in> issued key. c = d\<lparr>cp_signature := cp_signature c\<rparr>"
proof -
  obtain sg m where "ed25519 key m sg" "signing_bytes quote c = Some m"
    using assms(3) by (auto simp: signed_by_def split: option.splits)
  moreover then obtain d where "d \<in> issued key" "signing_bytes quote d = Some m"
    using assms(2) unfolding unforgeable_def by blast
  ultimately show ?thesis using signing_bytes_inj [OF assms(1), of c d] by metis
qed

lemma current_Inr:
  assumes "current assigned runner_id c now = Inr expires"
  obtains a where "assigned (cp_session_id c) = Some a" "lease_matches a runner_id c now" "binding_matches a c"
    "expires = as_lease_expires a"
  using assms by (auto simp: current_def split: option.splits if_splits)

lemma verify_Inr:
  assumes "verify ed25519 quote registry assigned peer c route now = Inr (runner_id, expires)"
  obtains fp node where "peer = Some fp" "registry fp = Some node" "runner_id = en_runner_id node"
    "signed_by ed25519 quote c (en_capability_key node)" "cp_session_id c = fst route" "cp_provider c = snd route"
    "owner_matches_kind c" "current assigned runner_id c now = Inr expires"
  using assms by (auto simp: verify_def bind_eq_Some_conv split: option.splits if_splits sum.splits)

text \<open>
  C13. A call that passes phase 0 is the calling node's own. The peer's certificate names an enrolled node,
  that node signed exactly this capability with its own key, field for field, the capability names the
  session and provider of the route, and the stored assignment gives this session to this node now: the
  same session generation, lease, epoch and owner, a lease that has not ended, and a binding with the
  signed connection, generation, provider and mode.
\<close>

theorem verified_call_is_the_nodes_own:
  assumes "quote_ok quote" "unforgeable ed25519 quote issued"
    and "verify ed25519 quote registry assigned peer c (session, provider) now = Inr (runner_id, expires)"
  shows "\<exists>fp node d a b. peer = Some fp \<and> registry fp = Some node \<and> en_runner_id node = runner_id \<and>
    d \<in> issued (en_capability_key node) \<and> c = d\<lparr>cp_signature := cp_signature c\<rparr> \<and>
    cp_session_id d = session \<and> cp_provider d = provider \<and>
    assigned session = Some a \<and> as_runner_id a = runner_id \<and> as_session_id a = session \<and>
    as_session_generation a = cp_session_generation d \<and> as_lease_id a = cp_lease_id d \<and> as_lease_epoch a = cp_lease_epoch d \<and>
    as_owner_id a = cp_owner_id d \<and> now < expires \<and> expires = as_lease_expires a \<and>
    b \<in> set (as_bindings a) \<and> lb_provider b = provider \<and> lb_connection_id b = cp_connection_id d \<and>
    lb_connection_generation b = cp_connection_generation d \<and> lb_mode b = cp_mode d"
proof -
  obtain fp node where n: "peer = Some fp" "registry fp = Some node" "runner_id = en_runner_id node"
    "signed_by ed25519 quote c (en_capability_key node)" "cp_session_id c = session" "cp_provider c = provider"
    "current assigned runner_id c now = Inr expires"
    using verify_Inr [OF assms(3)] by (metis fst_conv snd_conv)
  obtain d where d: "d \<in> issued (en_capability_key node)" "c = d\<lparr>cp_signature := cp_signature c\<rparr>"
    using signed_by_issued [OF assms(1,2) n(4)] by blast
  obtain a where a: "assigned session = Some a" "lease_matches a runner_id c now" "binding_matches a c" "expires = as_lease_expires a"
    using n(5,7) by (metis current_Inr)
  obtain b where b: "b \<in> set (as_bindings a)" "lb_provider b = cp_provider c" "lb_connection_id b = cp_connection_id c"
    "lb_connection_generation b = cp_connection_generation c" "lb_mode b = cp_mode c"
    using a(3) by (auto simp: binding_matches_def list_ex_iff)
  have same: "cp_session_id d = cp_session_id c" "cp_provider d = cp_provider c" "cp_session_generation d = cp_session_generation c"
    "cp_lease_id d = cp_lease_id c" "cp_lease_epoch d = cp_lease_epoch c" "cp_owner_id d = cp_owner_id c"
    "cp_connection_id d = cp_connection_id c" "cp_connection_generation d = cp_connection_generation c" "cp_mode d = cp_mode c"
    by (subst d(2), simp)+
  show ?thesis using n a b d(1) same a(2) [unfolded lease_matches_def]
    by (intro exI [of _ fp] exI [of _ node] exI [of _ d] exI [of _ a] exI [of _ b] conjI) (simp_all add: d(2) [symmetric])
qed

text \<open>An example: JSON quoting, a signature that names its key and repeats the message, and one node.\<close>

definition json_escape :: "char \<Rightarrow> string" where
  "json_escape ch = (if ch = CHR 0x22 \<or> ch = CHR 0x5C then [CHR 0x5C, ch] else [ch])"

definition json_quote :: "string \<Rightarrow> string" where
  "json_quote s = CHR 0x22 # concat (map json_escape s) @ [CHR 0x22]"

lemma json_escape_peel: "json_escape a @ xs = json_escape b @ ys \<Longrightarrow> a = b \<and> xs = ys"
  unfolding json_escape_def by (simp split: if_splits)

lemma json_escape_no_end: "json_escape a @ xs \<noteq> CHR 0x22 # ys"
  unfolding json_escape_def by simp

lemma json_escapes_inj:
  "concat (map json_escape s) @ CHR 0x22 # xs = concat (map json_escape t) @ CHR 0x22 # ys \<Longrightarrow> s = t"
proof (induction s t rule: list_induct2')
  case (2 a s)
  then show ?case using json_escape_no_end [of a "concat (map json_escape s) @ CHR 0x22 # xs" ys] by simp
next
  case (3 b t)
  then show ?case using json_escape_no_end [of b "concat (map json_escape t) @ CHR 0x22 # ys" xs, symmetric] by simp
next
  case (4 a s b t)
  have "a = b \<and> concat (map json_escape s) @ CHR 0x22 # xs = concat (map json_escape t) @ CHR 0x22 # ys"
    using 4(2) by (intro json_escape_peel) (simp only: list.map concat.simps append_assoc)
  then show ?case using 4(1) by (simp only:)
qed simp

lemma json_quote_ok: "quote_ok json_quote"
  unfolding quote_ok_def
proof (intro allI impI)
  fix s t xs ys
  assume "json_quote s @ xs = json_quote t @ ys"
  then have "concat (map json_escape s) @ CHR 0x22 # xs = concat (map json_escape t) @ CHR 0x22 # ys"
    by (simp only: json_quote_def append_assoc append_Cons append_Nil list.inject)
  then show "s = t" by (rule json_escapes_inj)
qed

definition ex_capability :: capability where
  "ex_capability = \<lparr>cp_capability_id = ''cap-1'', cp_connection_id = ''pc_1'', cp_connection_generation = 1, cp_provider = ''claude'',
     cp_mode = GatewayHelper, cp_owner_kind = OwnerUser, cp_owner_id = ''user/alice'', cp_session_id = ''s1'', cp_session_generation = 1,
     cp_lease_id = ''l1'', cp_lease_epoch = 1, cp_audience = AUDIENCE, cp_issued_at = 1000, cp_expires_at = 31000,
     cp_signature = replicate 128 (CHR ''a'')\<rparr>"

definition ex_verifier :: "string \<Rightarrow> string \<Rightarrow> string \<Rightarrow> bool" where
  "ex_verifier key m sg \<longleftrightarrow> key = ''k'' \<and> Some m = signing_bytes json_quote ex_capability"

definition ex_issued :: "string \<Rightarrow> capability set" where
  "ex_issued key = (if key = ''k'' then {ex_capability} else {})"

definition ex_nodes :: node_registry where
  "ex_nodes = enroll_node Map.empty ''fp'' \<lparr>en_runner_id = ''r1'', en_capability_key = ''k''\<rparr>"

definition ex_assignment :: assignment where
  "ex_assignment = \<lparr>as_runner_id = ''r1'', as_session_id = ''s1'', as_session_generation = 1, as_lease_id = ''l1'', as_lease_epoch = 1,
     as_owner_id = ''user/alice'', as_lease_expires = 90000,
     as_bindings = [\<lparr>lb_provider = ''claude'', lb_connection_id = ''pc_1'', lb_connection_generation = 1, lb_mode = GatewayHelper\<rparr>]\<rparr>"

definition ex_assigned :: "string \<Rightarrow> assignment option" where
  "ex_assigned s = (if s = ''s1'' then Some ex_assignment else None)"

lemma ex_unforgeable: "unforgeable ex_verifier json_quote ex_issued"
  by (auto simp: unforgeable_def ex_verifier_def ex_issued_def)

lemma ex_verified: "verify ex_verifier json_quote ex_nodes ex_assigned (Some ''fp'') ex_capability (''s1'', ''claude'') 2000 = Inr (''r1'', 90000)"
  by code_simp

theorem verified_call_is_the_nodes_own_witness:
  "\<exists>fp node d. Some ''fp'' = Some fp \<and> ex_nodes fp = Some node \<and> d \<in> ex_issued (en_capability_key node) \<and> cp_session_id d = ''s1''"
  using verified_call_is_the_nodes_own [OF json_quote_ok ex_unforgeable ex_verified] by blast

end
