(* ===== verification/GatewayRelay.thy ===== *)
theory GatewayRelay
  imports GatewayAuthority
begin

text \<open>
  One request through the credential gateway: the lines of the two ends
  (\<^verbatim>\<open>crates/jeryu-gateway/src/frames.rs\<close>), the in-flight slots and the line reader
  (\<^verbatim>\<open>crates/jeryu-gateway/src/stream.rs\<close>), the open phase (\<^verbatim>\<open>crates/jeryu-gateway/src/relay.rs\<close>), the request
  body (\<^verbatim>\<open>crates/jeryu-gateway/src/body.rs\<close>) and the response (\<^verbatim>\<open>crates/jeryu-gateway/src/upstream.rs\<close>).

  Everything outside the gateway acts on a world of type \<open>'w\<close>. While the gateway awaits a frame the
  world may change, so what arrives is a list of pairs: the change that happened meanwhile, and the
  frame. The vault, the session store, the clock and the channel to the node are operations on the
  world; serde, base64 and Ed25519 are functions.
\<close>

section \<open>Lines\<close>

datatype node_line =
    GatewayOpen string string string string "relay_header list" "string option" capability
  | RequestBody string nat string
  | RequestEnd string nat

datatype gateway_line =
    HeadLine string nat "relay_header list"
  | ResponseBody string nat string
  | ResponseEnd string nat
  | ErrorLine string relay_error

fun line_request_id :: "node_line \<Rightarrow> string" where
  "line_request_id (GatewayOpen r _ _ _ _ _ _) = r"
| "line_request_id (RequestBody r _ _) = r"
| "line_request_id (RequestEnd r _) = r"

definition parse_node_line :: "(string \<Rightarrow> node_line option) \<Rightarrow> string \<Rightarrow> relay_error + node_line" where
  "parse_node_line from_slice line =
     (if MAX_LINE_BYTES < length line then Inl RelayStreamInvalid
      else case from_slice line of
             None \<Rightarrow> Inl RelayStreamInvalid
           | Some l \<Rightarrow> if \<not> valid_id (line_request_id l) then Inl RelayStreamInvalid else Inr l)"

definition to_line :: "(gateway_line \<Rightarrow> string option) \<Rightarrow> gateway_line \<Rightarrow> relay_error + string" where
  "to_line to_vec l = (case to_vec l of None \<Rightarrow> Inl RelayStreamInvalid | Some t \<Rightarrow> Inr (t @ [CHR 0x0A]))"

section \<open>Slots\<close>

definition MAX_IN_FLIGHT :: nat where
  "MAX_IN_FLIGHT = 4"

type_synonym slots = "string \<rightharpoonup> nat"

definition in_flight :: "slots \<Rightarrow> string \<Rightarrow> nat" where
  "in_flight sl session = (case sl session of None \<Rightarrow> 0 | Some n \<Rightarrow> n)"

definition take_slot :: "slots \<Rightarrow> string \<Rightarrow> slots \<times> (relay_error + unit)" where
  "take_slot sl session =
     (let count = in_flight sl session; sl = sl(session \<mapsto> count)
      in if MAX_IN_FLIGHT \<le> count then (sl, Inl ConnectionBusy) else (sl(session \<mapsto> count + 1), Inr ()))"

text \<open>Dropping a slot; nothing when the subtraction would underflow.\<close>

definition drop_slot :: "slots \<Rightarrow> string \<Rightarrow> slots option" where
  "drop_slot sl session =
     (case sl session of
        None \<Rightarrow> Some sl
      | Some n \<Rightarrow> if n = 0 then None else if n - 1 = 0 then Some (sl(session := None)) else Some (sl(session \<mapsto> n - 1)))"

section \<open>The line reader\<close>

definition MAX_TRANSPORT_CHUNK :: nat where
  "MAX_TRANSPORT_CHUNK = 1024 * 1024"

text \<open>What awaiting the input gives: the idle timeout, a transport error, or a chunk. The end of the list is the end of the input.\<close>

datatype frame = IdleFrame | BrokenFrame | ChunkFrame string

type_synonym 'w arrivals = "(('w \<Rightarrow> 'w) \<times> frame) list"

record 'w line_reader =
  lr_input :: "'w arrivals"
  lr_buffer :: string
  lr_pending :: string

definition reader_new :: "'w arrivals \<Rightarrow> 'w line_reader" where
  "reader_new input = \<lparr>lr_input = input, lr_buffer = [], lr_pending = []\<rparr>"

text \<open>The bytes up to and including the next newline of the pending chunk, all of it when there is none.\<close>

definition newline_at :: "string \<Rightarrow> nat option" where
  "newline_at s = map_option (\<lambda>(a, b). length a) (split_once (CHR 0x0A) s)"

fun read_line :: "(string \<Rightarrow> node_line option) \<Rightarrow> 'w arrivals \<Rightarrow> string \<Rightarrow> string \<Rightarrow> 'w \<Rightarrow> 'w line_reader \<times> 'w \<times> (relay_error + node_line)" where
  "read_line from_slice input buffer pending w =
     (let newline = newline_at pending;
          n = (case newline of None \<Rightarrow> length pending | Some stop \<Rightarrow> stop + 1)
      in if MAX_LINE_BYTES + 1 < length buffer + n
         then (\<lparr>lr_input = input, lr_buffer = buffer, lr_pending = pending\<rparr>, w, Inl RelayStreamInvalid)
         else
           let buffer = buffer @ take n pending; pending = drop n pending
           in case newline of
                Some _ \<Rightarrow>
                  (\<lparr>lr_input = input, lr_buffer = [], lr_pending = pending\<rparr>, w, parse_node_line from_slice (butlast buffer))
              | None \<Rightarrow>
                  (case input of
                     [] \<Rightarrow> (\<lparr>lr_input = [], lr_buffer = buffer, lr_pending = pending\<rparr>, w, Inl RelayStreamInvalid)
                   | (meanwhile, f) # rest \<Rightarrow>
                       (case f of
                          IdleFrame \<Rightarrow> (\<lparr>lr_input = rest, lr_buffer = buffer, lr_pending = pending\<rparr>, meanwhile w, Inl RelayIdleTimeout)
                        | BrokenFrame \<Rightarrow> (\<lparr>lr_input = rest, lr_buffer = buffer, lr_pending = pending\<rparr>, meanwhile w, Inl RelayStreamInvalid)
                        | ChunkFrame bytes \<Rightarrow>
                            if length bytes \<le> MAX_TRANSPORT_CHUNK then read_line from_slice rest buffer bytes (meanwhile w)
                            else (\<lparr>lr_input = rest, lr_buffer = buffer, lr_pending = pending\<rparr>, meanwhile w, Inl RelayStreamInvalid))))"

declare read_line.simps [simp del]

definition next_line :: "(string \<Rightarrow> node_line option) \<Rightarrow> 'w line_reader \<Rightarrow> 'w \<Rightarrow> 'w line_reader \<times> 'w \<times> (relay_error + node_line)" where
  "next_line from_slice r w = read_line from_slice (lr_input r) (lr_buffer r) (lr_pending r) w"

section \<open>The open phase\<close>

record binding =
  bd_owner_id :: string
  bd_provider :: string
  bd_connection_id :: string
  bd_connection_generation :: nat

definition binding_of :: "capability \<Rightarrow> binding" where
  "binding_of c = \<lparr>bd_owner_id = cp_owner_id c, bd_provider = cp_provider c, bd_connection_id = cp_connection_id c,
     bd_connection_generation = cp_connection_generation c\<rparr>"

record upstream_auth =
  ua_header :: string
  ua_value :: string

datatype send_outcome = SendDone | SendTimedOut | SendClosed

record 'w gateway =
  gw_registry :: node_registry
  gw_table :: upstream_table
  gw_assignment :: "'w \<Rightarrow> string \<Rightarrow> assignment option"
  gw_check :: "binding \<Rightarrow> 'w \<Rightarrow> 'w \<times> (relay_error + unit)"
  gw_credential :: "binding \<Rightarrow> 'w \<Rightarrow> 'w \<times> (relay_error + upstream_auth)"
  gw_clock :: "'w \<Rightarrow> nat"
  gw_ed25519 :: "string \<Rightarrow> string \<Rightarrow> string \<Rightarrow> bool"
  gw_quote :: "string \<Rightarrow> string"
  gw_from_slice :: "string \<Rightarrow> node_line option"
  gw_to_vec :: "gateway_line \<Rightarrow> string option"
  gw_decode :: "string \<Rightarrow> string option"
  gw_encode :: "string \<Rightarrow> string"
  gw_tx :: "string \<Rightarrow> 'w \<Rightarrow> 'w \<times> send_outcome"

datatype relay_method = RelayGet | RelayPost

record accepted =
  ac_runner_id :: string
  ac_capability :: capability
  ac_binding :: binding

record prepared =
  pr_method :: relay_method
  pr_url :: string
  pr_headers :: "relay_header list"
  pr_fixed_headers :: "(string \<times> string) list"
  pr_auth :: upstream_auth

definition method_of :: "string \<Rightarrow> relay_error + relay_method" where
  "method_of m = (if m = ''GET'' then Inr RelayGet else if m = ''POST'' then Inr RelayPost else Inl RelayStreamInvalid)"

text \<open>
  From a \<^verbatim>\<open>gateway-open\<close> line to the credential. A slot is given back when the credential is refused.
\<close>

definition release_slot :: "slots \<Rightarrow> string \<Rightarrow> slots" where
  "release_slot sl session = (case drop_slot sl session of None \<Rightarrow> sl | Some sl' \<Rightarrow> sl')"

definition after_check ::
  "'w gateway \<Rightarrow> string \<Rightarrow> string \<Rightarrow> string \<Rightarrow> string \<Rightarrow> relay_header list \<Rightarrow> string option \<Rightarrow> capability \<Rightarrow> nat \<Rightarrow> string \<times> nat \<Rightarrow>
   slots \<Rightarrow> 'w \<Rightarrow> slots \<times> 'w \<times> (relay_error + accepted \<times> prepared)" where
  "after_check G session provider meth path headers authorization c now granted sl w =
     (if cp_mode c = QualifiedRamToken then (sl, w, Inl ProviderModeUnqualified)
      else if authorization \<noteq> None then (sl, w, Inl GuestAuthorizationRejected)
      else case verify_validity c now (snd granted) of
             Inl e \<Rightarrow> (sl, w, Inl e)
           | Inr _ \<Rightarrow>
      (case resolve_upstream (gw_table G) provider path of
             Inl e \<Rightarrow> (sl, w, Inl e)
           | Inr (url, upstream) \<Rightarrow>
      (case check_headers headers of
             Inl e \<Rightarrow> (sl, w, Inl e)
           | Inr _ \<Rightarrow>
      (case method_of meth of
             Inl e \<Rightarrow> (sl, w, Inl e)
           | Inr method \<Rightarrow>
      (case take_slot sl session of
             (sl, Inl e) \<Rightarrow> (sl, w, Inl e)
           | (sl, Inr _) \<Rightarrow>
      (case gw_credential G (binding_of c) w of
             (w, Inl e) \<Rightarrow> (release_slot sl session, w, Inl e)
           | (w, Inr auth) \<Rightarrow>
               (sl, w, Inr (\<lparr>ac_runner_id = fst granted, ac_capability = c, ac_binding = binding_of c\<rparr>,
                  \<lparr>pr_method = method, pr_url = url, pr_headers = headers, pr_fixed_headers = up_fixed_headers upstream,
                    pr_auth = auth\<rparr>))))))))"

fun open_request ::
  "'w gateway \<Rightarrow> string option \<Rightarrow> string \<Rightarrow> string \<Rightarrow> node_line \<Rightarrow> slots \<Rightarrow> 'w \<Rightarrow> slots \<times> 'w \<times> (relay_error + accepted \<times> prepared)" where
  "open_request G peer session provider (GatewayOpen rid line_provider meth path headers authorization c) sl w =
     (if line_provider \<noteq> provider then (sl, w, Inl RelayStreamInvalid)
      else
        let now = gw_clock G w
        in case verify (gw_ed25519 G) (gw_quote G) (gw_registry G) (gw_assignment G w) peer c (session, provider) now of
             Inl e \<Rightarrow> (sl, w, Inl e)
           | Inr granted \<Rightarrow>
               (case gw_check G (binding_of c) w of
                  (w, Inl e) \<Rightarrow> (sl, w, Inl e)
                | (w, Inr _) \<Rightarrow> after_check G session provider meth path headers authorization c now granted sl w))"
| "open_request G peer session provider _ sl w = (sl, w, Inl RelayStreamInvalid)"

text \<open>The first line of a request opens it; the identifier is known from then on.\<close>

definition run_open ::
  "'w gateway \<Rightarrow> string option \<Rightarrow> string \<Rightarrow> string \<Rightarrow> 'w line_reader \<Rightarrow> slots \<Rightarrow> 'w \<Rightarrow>
   string \<times> 'w line_reader \<times> slots \<times> 'w \<times> (relay_error + accepted \<times> prepared)" where
  "run_open G peer session provider r sl w =
     (if provider \<notin> {''claude'', ''codex'', ''grok''} then ([], r, sl, w, Inl ProviderUnknown)
      else case next_line (gw_from_slice G) r w of
             (r, w, Inl e) \<Rightarrow> ([], r, sl, w, Inl e)
           | (r, w, Inr l) \<Rightarrow>
               (case open_request G peer session provider l sl w of
                  (sl, w, out) \<Rightarrow> ((case l of GatewayOpen rid _ _ _ _ _ _ \<Rightarrow> rid | _ \<Rightarrow> []), r, sl, w, out)))"

section \<open>Re-checks and the request body\<close>

definition MAX_REQUEST_BODY :: nat where
  "MAX_REQUEST_BODY = 8 * 1024 * 1024"

definition recheck :: "'w gateway \<Rightarrow> accepted \<Rightarrow> 'w \<Rightarrow> 'w \<times> (relay_error + unit)" where
  "recheck G a w =
     (case current (gw_assignment G w) (ac_runner_id a) (ac_capability a) (gw_clock G w) of
        Inl _ \<Rightarrow> (w, Inl LeaseBindingMismatch)
      | Inr _ \<Rightarrow> gw_check G (ac_binding a) w)"

record 'w body_state =
  bs_lines :: "'w line_reader"
  bs_expected :: nat
  bs_total :: nat

definition next_chunk ::
  "'w gateway \<Rightarrow> accepted \<Rightarrow> string \<Rightarrow> 'w body_state \<Rightarrow> 'w \<Rightarrow> 'w body_state \<times> 'w \<times> (relay_error + string option)" where
  "next_chunk G a request_id st w =
     (case next_line (gw_from_slice G) (bs_lines st) w of
        (r, w, Inl e) \<Rightarrow> (st\<lparr>bs_lines := r\<rparr>, w, Inl e)
      | (r, w, Inr l) \<Rightarrow>
          let st = st\<lparr>bs_lines := r\<rparr>
          in case l of
               RequestBody rid seq b64 \<Rightarrow>
                 if rid \<noteq> request_id \<or> seq \<noteq> bs_expected st then (st, w, Inl RelayStreamInvalid)
                 else (case recheck G a w of
                         (w, Inl e) \<Rightarrow> (st, w, Inl e)
                       | (w, Inr _) \<Rightarrow>
                           (case decode_chunk (gw_decode G) b64 of
                              Inl e \<Rightarrow> (st, w, Inl e)
                            | Inr chunk \<Rightarrow>
                                let st = st\<lparr>bs_total := bs_total st + length chunk\<rparr>
                                in if MAX_REQUEST_BODY < bs_total st then (st, w, Inl RelayStreamInvalid)
                                   else (st\<lparr>bs_expected := bs_expected st + 1\<rparr>, w, Inr (Some chunk))))
             | RequestEnd rid seq_end \<Rightarrow>
                 if rid \<noteq> request_id \<or> (if seq_end + 1 \<le> u64_max then Some (seq_end + 1) else None) \<noteq> Some (bs_expected st)
                 then (st, w, Inl RelayStreamInvalid)
                 else (case recheck G a w of
                         (w, Inl e) \<Rightarrow> (st, w, Inl e)
                       | (w, Inr _) \<Rightarrow> (st, w, Inr None))
             | GatewayOpen _ _ _ _ _ _ _ \<Rightarrow> (st, w, Inl RelayStreamInvalid))"

section \<open>Reading lines\<close>

text \<open>The bytes a reader has still to give, and an input of chunks within the transport limit.\<close>

fun frame_bytes :: "frame \<Rightarrow> string" where
  "frame_bytes (ChunkFrame b) = b"
| "frame_bytes _ = []"

definition input_bytes :: "'w arrivals \<Rightarrow> string" where
  "input_bytes input = concat (map (frame_bytes \<circ> snd) input)"

definition unread :: "'w line_reader \<Rightarrow> string" where
  "unread r = lr_buffer r @ lr_pending r @ input_bytes (lr_input r)"

fun good_frame :: "frame \<Rightarrow> bool" where
  "good_frame (ChunkFrame b) \<longleftrightarrow> length b \<le> MAX_TRANSPORT_CHUNK"
| "good_frame _ \<longleftrightarrow> False"

definition clean :: "'w arrivals \<Rightarrow> bool" where
  "clean input \<longleftrightarrow> list_all (good_frame \<circ> snd) input"

lemma input_bytes_simps [simp]: "input_bytes [] = []" "input_bytes ((m, f) # input) = frame_bytes f @ input_bytes input"
  by (simp_all add: input_bytes_def)

lemma clean_simps [simp]: "clean []" "clean ((m, f) # input) \<longleftrightarrow> good_frame f \<and> clean input"
  by (simp_all add: clean_def)

lemma good_frameE:
  assumes "good_frame f"
  obtains b where "f = ChunkFrame b" "length b \<le> MAX_TRANSPORT_CHUNK"
  using assms by (cases f) simp_all

lemma newline_at_first: "CHR 0x0A \<notin> set a \<Longrightarrow> newline_at (a @ CHR 0x0A # b) = Some (length a)"
  using split_once_Some_iff [of "CHR 0x0A" "a @ CHR 0x0A # b" a b] by (simp add: newline_at_def)

lemma newline_at_none: "CHR 0x0A \<notin> set s \<Longrightarrow> newline_at s = None"
proof (cases "split_once (CHR 0x0A) s")
  case (Some ab)
  assume "CHR 0x0A \<notin> set s"
  then show ?thesis using Some split_once_Some_iff [of "CHR 0x0A" s "fst ab" "snd ab"] by simp
qed (simp add: newline_at_def)

lemma newline_cases:
  obtains "CHR 0x0A \<notin> set s" | a b where "s = a @ CHR 0x0A # b" "CHR 0x0A \<notin> set a"
  by (metis split_list_first)

text \<open>The ways through one turn of the loop.\<close>

lemma read_line_newline:
  assumes "CHR 0x0A \<notin> set a"
  shows "read_line p input buffer (a @ CHR 0x0A # b) w =
    (if MAX_LINE_BYTES < length (buffer @ a)
     then (\<lparr>lr_input = input, lr_buffer = buffer, lr_pending = a @ CHR 0x0A # b\<rparr>, w, Inl RelayStreamInvalid)
     else (\<lparr>lr_input = input, lr_buffer = [], lr_pending = b\<rparr>, w, parse_node_line p (buffer @ a)))"
  by (subst read_line.simps) (simp add: newline_at_first [OF assms] butlast_append Let_def)

lemma read_line_stop:
  assumes "CHR 0x0A \<notin> set pending" "length buffer + length pending \<le> MAX_LINE_BYTES + 1"
  shows "read_line p [] buffer pending w = (\<lparr>lr_input = [], lr_buffer = buffer @ pending, lr_pending = []\<rparr>, w, Inl RelayStreamInvalid)"
  using assms(2) by (simp add: read_line.simps [of p "[]" buffer pending w] newline_at_none [OF assms(1)])

lemma read_line_more:
  assumes "CHR 0x0A \<notin> set pending" "length buffer + length pending \<le> MAX_LINE_BYTES + 1" "length bytes \<le> MAX_TRANSPORT_CHUNK"
  shows "read_line p ((meanwhile, ChunkFrame bytes) # input) buffer pending w = read_line p input (buffer @ pending) bytes (meanwhile w)"
  using assms(2,3) by (simp add: read_line.simps [of p "(meanwhile, ChunkFrame bytes) # input" buffer pending w] newline_at_none [OF assms(1)])

lemma read_line_bad:
  assumes "CHR 0x0A \<notin> set pending" "length buffer + length pending \<le> MAX_LINE_BYTES + 1" "\<not> good_frame f"
  shows "\<exists>e. read_line p ((meanwhile, f) # input) buffer pending w =
      (\<lparr>lr_input = input, lr_buffer = buffer @ pending, lr_pending = []\<rparr>, meanwhile w, Inl e)"
  unfolding read_line.simps [of p "(meanwhile, f) # input" buffer pending w]
  using assms(2,3) by (cases f) (simp_all add: newline_at_none [OF assms(1)])

lemma read_line_long:
  assumes "CHR 0x0A \<notin> set pending" "MAX_LINE_BYTES + 1 < length buffer + length pending"
  shows "read_line p input buffer pending w = (\<lparr>lr_input = input, lr_buffer = buffer, lr_pending = pending\<rparr>, w, Inl RelayStreamInvalid)"
  using assms(2) by (simp add: read_line.simps [of p input buffer pending w] newline_at_none [OF assms(1)])

text \<open>What a line is, from the bytes alone.\<close>

definition first_line :: "(string \<Rightarrow> node_line option) \<Rightarrow> string \<Rightarrow> (relay_error + node_line) \<times> string option" where
  "first_line p bytes =
     (case split_once (CHR 0x0A) bytes of
        None \<Rightarrow> (Inl RelayStreamInvalid, None)
      | Some (line, rest) \<Rightarrow>
          if MAX_LINE_BYTES < length line then (Inl RelayStreamInvalid, None) else (parse_node_line p line, Some rest))"

definition reads :: "(string \<Rightarrow> node_line option) \<Rightarrow> string \<Rightarrow> 'w line_reader \<times> 'w \<times> (relay_error + node_line) \<Rightarrow> bool" where
  "reads p bytes out \<longleftrightarrow>
     snd (snd out) = fst (first_line p bytes) \<and>
     (\<forall>rest. snd (first_line p bytes) = Some rest \<longrightarrow>
        unread (fst out) = rest \<and> lr_buffer (fst out) = [] \<and> clean (lr_input (fst out)))"

lemma first_line_long:
  assumes "CHR 0x0A \<notin> set a" "MAX_LINE_BYTES < length a"
  shows "first_line p (a @ b) = (Inl RelayStreamInvalid, None)"
proof (cases "split_once (CHR 0x0A) (a @ b)")
  case (Some lr)
  obtain line rest where lr: "lr = (line, rest)" by (cases lr)
  then have e: "a @ b = line @ CHR 0x0A # rest" using Some by (simp add: split_once_Some_iff)
  have "length a \<le> length line"
  proof (rule ccontr)
    assume "\<not> length a \<le> length line"
    then have "(a @ b) ! length line \<in> set a" by (simp add: nth_append)
    then show False using assms(1) e by simp
  qed
  then show ?thesis using Some lr assms(2) by (simp add: first_line_def)
qed (simp add: first_line_def)

lemma read_line_reads:
  assumes "clean input" "CHR 0x0A \<notin> set buffer" "length buffer \<le> MAX_LINE_BYTES + 1"
  shows "reads p (buffer @ pending @ input_bytes input) (read_line p input buffer pending w)"
  using assms
proof (induction input arbitrary: buffer pending w)
  case (Cons mf input)
  obtain m b where mf: "mf = (m, ChunkFrame b)" and b: "length b \<le> MAX_TRANSPORT_CHUNK" and cl: "clean input"
    using Cons.prems(1) by (cases mf) (auto elim: good_frameE)
  show ?case
  proof (cases rule: newline_cases [of pending])
    case 1
    show ?thesis
    proof (cases "MAX_LINE_BYTES + 1 < length buffer + length pending")
      case True
      then show ?thesis
        using 1 Cons.prems(2) first_line_long [of "buffer @ pending" p] by (simp add: reads_def read_line_long [OF 1 True])
    next
      case False
      then show ?thesis using Cons.IH [OF cl, of "buffer @ pending" b "m w"] Cons.prems(2) 1
        by (simp add: mf read_line_more [OF 1 _ b])
    qed
  next
    case (2 x y)
    have "split_once (CHR 0x0A) (buffer @ pending @ input_bytes (mf # input)) = Some (buffer @ x, y @ input_bytes (mf # input))"
      using 2 Cons.prems(2) by (simp add: split_once_Some_iff)
    then show ?thesis using Cons.prems(1) 2
      by (simp add: reads_def first_line_def read_line_newline unread_def)
  qed
next
  case Nil
  show ?case
  proof (cases rule: newline_cases [of pending])
    case 1
    then have "split_once (CHR 0x0A) (buffer @ pending) = None"
      using Nil.prems(2) newline_at_none [of "buffer @ pending"] by (simp add: newline_at_def)
    then show ?thesis using 1
      by (cases "MAX_LINE_BYTES + 1 < length buffer + length pending")
        (simp_all add: reads_def first_line_def read_line_long read_line_stop)
  next
    case (2 x y)
    have "split_once (CHR 0x0A) (buffer @ pending) = Some (buffer @ x, y)"
      using 2 Nil.prems(2) by (simp add: split_once_Some_iff)
    then show ?thesis using 2 by (simp add: reads_def first_line_def read_line_newline unread_def)
  qed
qed

lemma read_line_bounded:
  assumes "length buffer \<le> MAX_LINE_BYTES + 1" "length pending \<le> MAX_TRANSPORT_CHUNK"
  shows "length (lr_buffer (fst (read_line p input buffer pending w))) \<le> MAX_LINE_BYTES + 1 \<and>
    length (lr_pending (fst (read_line p input buffer pending w))) \<le> MAX_TRANSPORT_CHUNK"
  using assms
proof (induction input arbitrary: buffer pending w)
  case Nil
  then show ?case
    by (cases rule: newline_cases [of pending]; cases "MAX_LINE_BYTES + 1 < length buffer + length pending")
      (auto simp: read_line_newline read_line_long read_line_stop)
next
  case (Cons mf input)
  obtain m f where mf: "mf = (m, f)" by (cases mf)
  show ?case
  proof (cases rule: newline_cases [of pending])
    case 1
    show ?thesis
    proof (cases "MAX_LINE_BYTES + 1 < length buffer + length pending")
      case True
      then show ?thesis using Cons.prems by (simp add: read_line_long [OF 1 True])
    next
      case False
      then have short: "length buffer + length pending \<le> MAX_LINE_BYTES + 1" by simp
      show ?thesis
      proof (cases "good_frame f")
        case True
        then obtain b where "f = ChunkFrame b" "length b \<le> MAX_TRANSPORT_CHUNK" by (rule good_frameE)
        then show ?thesis using Cons.IH [of "buffer @ pending" b "m w"] short by (simp add: mf read_line_more [OF 1 short])
      next
        case False
        then show ?thesis using read_line_bad [OF 1 short False, of p m input w] short by (auto simp: mf)
      qed
    qed
  next
    case (2 a b)
    then show ?thesis using Cons.prems by (simp add: read_line_newline)
  qed
qed

lemma read_line_shrinks:
  "snd (snd (read_line p input buffer pending w)) = Inr l \<Longrightarrow>
   length (unread (fst (read_line p input buffer pending w))) < length buffer + length pending + length (input_bytes input)"
proof (induction input arbitrary: buffer pending w)
  case Nil
  then show ?case
    by (cases rule: newline_cases [of pending]; cases "MAX_LINE_BYTES + 1 < length buffer + length pending")
      (auto simp: read_line_newline read_line_long read_line_stop unread_def split: if_splits)
next
  case (Cons mf input)
  obtain m f where mf: "mf = (m, f)" by (cases mf)
  show ?case
  proof (cases rule: newline_cases [of pending])
    case 1
    have short: "length buffer + length pending \<le> MAX_LINE_BYTES + 1"
      using Cons.prems read_line_long [OF 1, of buffer p "mf # input" w] by (cases "MAX_LINE_BYTES + 1 < length buffer + length pending") auto
    have "good_frame f"
    proof (rule ccontr)
      assume "\<not> good_frame f"
      then show False using Cons.prems read_line_bad [OF 1 short, of f p m input w] mf by auto
    qed
    then obtain b where "f = ChunkFrame b" "length b \<le> MAX_TRANSPORT_CHUNK" by (rule good_frameE)
    then show ?thesis using Cons.IH [of "buffer @ pending" b "m w"] Cons.prems by (simp add: mf read_line_more [OF 1 short])
  next
    case (2 a b)
    then show ?thesis using Cons.prems by (simp add: read_line_newline unread_def split: if_splits)
  qed
qed

lemma next_line_shrinks: "next_line p r w = (r', w', Inr l) \<Longrightarrow> length (unread r') < length (unread r)"
  using read_line_shrinks [of p "lr_input r" "lr_buffer r" "lr_pending r" w l] by (simp add: next_line_def unread_def)

text \<open>
  C37. Lines do not depend on how the transport cut the bytes. Between lines, with chunks within the transport
  limit, the next line is what stands before the first newline of all the bytes still to come, parsed, and what
  follows the newline is what remains; without a newline, or when the line is longer than the limit, the
  stream is refused. The reader never holds more than one line and one transport chunk.
\<close>

theorem line_reader_reads_the_bytes:
  assumes "clean (lr_input r)" "lr_buffer r = []" "length (lr_pending r) \<le> MAX_TRANSPORT_CHUNK"
    and "next_line p r w = (r', w', out)"
  shows "(case split_once (CHR 0x0A) (lr_pending r @ input_bytes (lr_input r)) of
      None \<Rightarrow> out = Inl RelayStreamInvalid
    | Some (line, rest) \<Rightarrow>
        if MAX_LINE_BYTES < length line then out = Inl RelayStreamInvalid
        else out = parse_node_line p line \<and> lr_buffer r' = [] \<and> lr_pending r' @ input_bytes (lr_input r') = rest \<and> clean (lr_input r')) \<and>
    length (lr_buffer r') \<le> MAX_LINE_BYTES + 1 \<and> length (lr_pending r') \<le> MAX_TRANSPORT_CHUNK"
proof -
  have out: "read_line p (lr_input r) [] (lr_pending r) w = (r', w', out)" using assms(2,4) by (simp add: next_line_def)
  have "reads p (lr_pending r @ input_bytes (lr_input r)) (r', w', out)"
    using read_line_reads [OF assms(1), of "[]" p "lr_pending r" w] unfolding out by simp
  then have "case split_once (CHR 0x0A) (lr_pending r @ input_bytes (lr_input r)) of
      None \<Rightarrow> out = Inl RelayStreamInvalid
    | Some (line, rest) \<Rightarrow>
        if MAX_LINE_BYTES < length line then out = Inl RelayStreamInvalid
        else out = parse_node_line p line \<and> lr_buffer r' = [] \<and> lr_pending r' @ input_bytes (lr_input r') = rest \<and> clean (lr_input r')"
    by (auto simp: reads_def first_line_def unread_def split: option.splits if_splits)
  then show ?thesis using read_line_bounded [of "[]" "lr_pending r" p "lr_input r" w] assms(3) unfolding out by simp
qed

text \<open>An example: a line cut in two by the transport.\<close>

definition ex_from_slice :: "string \<Rightarrow> node_line option" where
  "ex_from_slice s = (if s = ''end'' then Some (RequestEnd ''r'' 0) else if s = ''body'' then Some (RequestBody ''r'' 1 ''hi'') else None)"

definition ex_reader :: "unit line_reader" where
  "ex_reader = reader_new [(id, ChunkFrame ''e''), (id, ChunkFrame (''nd'' @ [CHR 0x0A] @ ''x''))]"

theorem line_reader_reads_the_bytes_witness: "snd (snd (next_line ex_from_slice ex_reader ())) = Inr (RequestEnd ''r'' 0)"
proof -
  obtain r' w' out where n: "next_line ex_from_slice ex_reader () = (r', w', out)" by (metis prod_cases3)
  have s: "split_once (CHR 0x0A) (lr_pending ex_reader @ input_bytes (lr_input ex_reader)) = Some (''end'', ''x'')"
    by (simp add: ex_reader_def reader_new_def)
  have "clean (lr_input ex_reader)" "lr_buffer ex_reader = []" "length (lr_pending ex_reader) \<le> MAX_TRANSPORT_CHUNK"
    by (simp_all add: ex_reader_def reader_new_def MAX_TRANSPORT_CHUNK_def)
  from line_reader_reads_the_bytes [OF this n] have "out = parse_node_line ex_from_slice ''end''"
    unfolding s by (simp add: MAX_LINE_BYTES_def)
  moreover have "parse_node_line ex_from_slice ''end'' = Inr (RequestEnd ''r'' 0)" by code_simp
  ultimately show ?thesis using n by simp
qed

section \<open>Slots in use\<close>

text \<open>
  Requests of any sessions take and drop slots in any order; \<open>held\<close> lists the session of every request that has a
  slot.
\<close>

inductive slots_reach :: "slots \<Rightarrow> string list \<Rightarrow> bool" where
  none: "slots_reach Map.empty []"
| taken: "slots_reach sl held \<Longrightarrow> take_slot sl session = (sl', Inr ()) \<Longrightarrow> slots_reach sl' (session # held)"
| busy: "slots_reach sl held \<Longrightarrow> take_slot sl session = (sl', Inl e) \<Longrightarrow> slots_reach sl' held"
| dropped: "slots_reach sl held \<Longrightarrow> session \<in> set held \<Longrightarrow> drop_slot sl session = Some sl' \<Longrightarrow> slots_reach sl' (remove1 session held)"

definition slots_of :: "string list \<Rightarrow> slots" where
  "slots_of held session = (if count_list held session = 0 then None else Some (count_list held session))"

lemma in_flight_slots_of [simp]: "in_flight (slots_of held) session = count_list held session"
  by (simp add: in_flight_def slots_of_def)

lemma count_remove1: "session \<in> set held \<Longrightarrow> count_list (remove1 session held) s = (if s = session then count_list held s - 1 else count_list held s)"
  by (induction held) (auto simp: count_list_0_iff)

lemma slots_reach_ok: "slots_reach sl held \<Longrightarrow> sl = slots_of held \<and> (\<forall>s. count_list held s \<le> MAX_IN_FLIGHT)"
proof (induction rule: slots_reach.induct)
  case none
  then show ?case by (simp add: slots_of_def fun_eq_iff)
next
  case (taken sl held session sl')
  then have "\<not> MAX_IN_FLIGHT \<le> count_list held session" "sl' = (slots_of held)(session \<mapsto> count_list held session + 1)"
    by (simp_all add: take_slot_def Let_def split: if_splits)
  then show ?case using taken.IH by (simp add: slots_of_def fun_eq_iff)
next
  case (busy sl held session sl' e)
  then have "MAX_IN_FLIGHT \<le> count_list held session" "sl' = (slots_of held)(session \<mapsto> count_list held session)"
    by (simp_all add: take_slot_def Let_def split: if_splits)
  then show ?case using busy.IH by (simp add: slots_of_def fun_eq_iff MAX_IN_FLIGHT_def)
next
  case (dropped sl held session sl')
  have pos: "0 < count_list held session" using dropped(2) count_list_0_iff [of held session] by auto
  have "drop_slot (slots_of held) session = Some (slots_of (remove1 session held))"
    using pos by (auto simp: drop_slot_def slots_of_def count_remove1 [OF dropped(2)] fun_eq_iff)
  then have "sl' = slots_of (remove1 session held)" using dropped by simp
  then show ?case using dropped by (simp add: count_remove1 le_diff_conv trans_le_add1)
qed

text \<open>
  C38. At most four requests of a session are in flight, and the counter is exact. Under every interleaving of
  requests taking and dropping slots, the count kept for a session is the number of its requests that hold
  one, at most \<open>MAX_IN_FLIGHT\<close>; a request is refused as busy exactly when that many are open, a refusal
  changes nothing, giving a slot back never underflows, and a session without requests leaves no entry.
\<close>

theorem slots_count_what_is_open:
  assumes "slots_reach sl held"
  shows "in_flight sl session = count_list held session \<and> count_list held session \<le> MAX_IN_FLIGHT \<and>
    (snd (take_slot sl session) = Inl ConnectionBusy \<longleftrightarrow> count_list held session = MAX_IN_FLIGHT) \<and>
    (snd (take_slot sl session) = Inl ConnectionBusy \<longrightarrow> fst (take_slot sl session) = sl) \<and>
    (session \<in> set held \<longrightarrow> (\<exists>sl'. drop_slot sl session = Some sl' \<and> in_flight sl' session = count_list held session - 1)) \<and>
    (session \<notin> set held \<longrightarrow> sl session = None)"
proof -
  have sl: "sl = slots_of held" and le: "count_list held session \<le> MAX_IN_FLIGHT" using slots_reach_ok [OF assms] by auto
  have "session \<in> set held \<longleftrightarrow> 0 < count_list held session" using count_list_0_iff [of held session] by auto
  moreover have "MAX_IN_FLIGHT \<le> count_list held session \<Longrightarrow> sl(session \<mapsto> count_list held session) = sl"
    by (simp add: sl slots_of_def fun_eq_iff MAX_IN_FLIGHT_def)
  ultimately show ?thesis using le
    by (auto simp: sl take_slot_def Let_def drop_slot_def slots_of_def in_flight_def split: if_splits)
qed

theorem slots_count_what_is_open_witness:
  "in_flight (slots_of [''s'']) ''s'' = count_list [''s''] ''s'' \<and> count_list [''s''] ''s'' \<le> MAX_IN_FLIGHT"
proof -
  have "take_slot Map.empty ''s'' = (slots_of [''s''], Inr ())"
    by (simp add: take_slot_def in_flight_def slots_of_def MAX_IN_FLIGHT_def fun_eq_iff)
  then have "slots_reach (slots_of [''s'']) [''s'']" by (rule slots_reach.taken [OF slots_reach.none])
  from slots_count_what_is_open [OF this, of "''s''"] show ?thesis by blast
qed

section \<open>What the open phase grants\<close>

lemma verify_validity_Inr:
  "verify_validity c now lease = Inr () \<longleftrightarrow>
   cp_issued_at c < cp_expires_at c \<and> cp_expires_at c \<le> cp_issued_at c + MAX_LIFETIME_MILLIS \<and>
   cp_issued_at c \<le> now \<and> now < cp_expires_at c \<and> cp_expires_at c \<le> lease \<and> cp_audience c = AUDIENCE"
  by (auto simp: verify_validity_def checked_sub_def Let_def split: if_splits option.splits)

lemma check_headers_from_Inr:
  "check_headers_from seen hs = Inr () \<Longrightarrow>
   distinct (map rh_name hs) \<and> set (map rh_name hs) \<subseteq> {''accept'', ''content-type''} - set seen"
proof (induction hs arbitrary: seen)
  case (Cons h hs)
  define ok where "ok \<longleftrightarrow> rh_name h \<in> {''accept'', ''content-type''} \<and> rh_name h \<notin> set seen"
  have "ok \<and> check_headers_from (seen @ [rh_name h]) hs = Inr ()"
    using Cons.prems unfolding check_headers_from.simps Let_def ok_def by (metis Inl_Inr_False)
  then show ?case using Cons.IH [of "seen @ [rh_name h]"] unfolding ok_def by auto
qed simp

lemma take_slot_Inr: "take_slot sl session = (sl', Inr ()) \<longleftrightarrow> in_flight sl session < MAX_IN_FLIGHT \<and> sl' = sl(session \<mapsto> in_flight sl session + 1)"
  by (auto simp: take_slot_def Let_def)

lemma in_flight_upd [simp]: "in_flight (sl(session \<mapsto> n)) = (in_flight sl)(session := n)"
  by (simp add: in_flight_def fun_eq_iff)

lemma take_slot_Inl: "take_slot sl session = (sl', Inl e) \<Longrightarrow> in_flight sl' = in_flight sl"
  by (auto simp: take_slot_def Let_def split: if_splits)

lemma release_taken: "in_flight (release_slot (sl(session \<mapsto> Suc (in_flight sl session))) session) = in_flight sl"
  by (auto simp: release_slot_def drop_slot_def in_flight_def fun_eq_iff split: option.splits)

definition grants ::
  "'w gateway \<Rightarrow> string \<Rightarrow> string \<Rightarrow> string \<Rightarrow> string \<Rightarrow> relay_header list \<Rightarrow> string option \<Rightarrow> capability \<Rightarrow> nat \<Rightarrow> string \<times> nat \<Rightarrow>
   slots \<Rightarrow> 'w \<Rightarrow> slots \<times> 'w \<times> (relay_error + accepted \<times> prepared) \<Rightarrow> bool" where
  "grants G session provider meth path headers authorization c now granted sl w out \<longleftrightarrow>
     cp_mode c = GatewayHelper \<and> authorization = None \<and> verify_validity c now (snd granted) = Inr () \<and>
     check_headers headers = Inr () \<and> in_flight sl session < MAX_IN_FLIGHT \<and>
     (\<exists>url u m. resolve_upstream (gw_table G) provider path = Inr (url, u) \<and> method_of meth = Inr m \<and>
       (case gw_credential G (binding_of c) w of
          (w', Inl e) \<Rightarrow> in_flight (fst out) = in_flight sl \<and> snd out = (w', Inl e)
        | (w', Inr auth) \<Rightarrow> in_flight (fst out) = (in_flight sl)(session := in_flight sl session + 1) \<and>
            snd out = (w', Inr (\<lparr>ac_runner_id = fst granted, ac_capability = c, ac_binding = binding_of c\<rparr>,
              \<lparr>pr_method = m, pr_url = url, pr_headers = headers, pr_fixed_headers = up_fixed_headers u, pr_auth = auth\<rparr>))))"

lemma after_check_cases:
  "grants G session provider meth path headers authorization c now granted sl w
     (after_check G session provider meth path headers authorization c now granted sl w) \<or>
   (\<exists>sl' e. after_check G session provider meth path headers authorization c now granted sl w = (sl', w, Inl e) \<and> in_flight sl' = in_flight sl)"
proof (cases "cp_mode c = GatewayHelper \<and> authorization = None \<and> verify_validity c now (snd granted) = Inr () \<and>
    check_headers headers = Inr () \<and> (\<exists>url u. resolve_upstream (gw_table G) provider path = Inr (url, u)) \<and> (\<exists>m. method_of meth = Inr m) \<and>
    in_flight sl session < MAX_IN_FLIGHT")
  case True
  then obtain url u m where "resolve_upstream (gw_table G) provider path = Inr (url, u)" "method_of meth = Inr m" by blast
  moreover have "take_slot sl session = (sl(session \<mapsto> in_flight sl session + 1), Inr ())" using True by (simp add: take_slot_Inr)
  ultimately show ?thesis using True
    by (auto simp: grants_def after_check_def release_taken split: prod.splits sum.splits)
next
  case False
  have nm: "cp_mode c \<noteq> GatewayHelper \<Longrightarrow> cp_mode c = QualifiedRamToken" by (cases "cp_mode c") simp_all
  have "\<exists>sl' e. after_check G session provider meth path headers authorization c now granted sl w = (sl', w, Inl e) \<and> in_flight sl' = in_flight sl"
    using False nm take_slot_Inl [of sl session] take_slot_Inr [of sl session]
    by (auto simp: after_check_def split: prod.splits sum.splits)
  then show ?thesis by (rule disjI2)
qed

lemma grants_checks:
  assumes "grants G session provider meth path headers authorization c now (runner, lease) sl w out"
  shows "distinct (map rh_name headers) \<and> set (map rh_name headers) \<subseteq> {''accept'', ''content-type''}"
    "cp_issued_at c \<le> now \<and> now < cp_expires_at c \<and> cp_expires_at c \<le> cp_issued_at c + MAX_LIFETIME_MILLIS \<and>
     cp_expires_at c \<le> lease \<and> cp_audience c = AUDIENCE \<and> cp_mode c = GatewayHelper \<and> authorization = None \<and> in_flight sl session < MAX_IN_FLIGHT"
  using assms check_headers_from_Inr [of "[]" headers] by (simp_all add: grants_def check_headers_def verify_validity_Inr)

lemma grants_outcome:
  assumes "grants G session provider meth path headers authorization c now (runner, lease) sl w (sl', w', out)" "gw_table G = enroll_all production es"
  shows "w' = fst (gw_credential G (binding_of c) w) \<and> (case out of
      Inl e \<Rightarrow> snd (gw_credential G (binding_of c) w) = Inl e \<and> in_flight sl' = in_flight sl
    | Inr (acc, pr) \<Rightarrow>
        snd (gw_credential G (binding_of c) w) = Inr (pr_auth pr) \<and> in_flight sl' = (in_flight sl)(session := in_flight sl session + 1) \<and>
        pr_url pr = ''https://'' @ host_of provider @ path \<and> pr_headers pr = headers \<and>
        ac_runner_id acc = runner \<and> ac_capability acc = c \<and> ac_binding acc = binding_of c)"
proof -
  obtain w2 cred where cred: "gw_credential G (binding_of c) w = (w2, cred)" by (cases "gw_credential G (binding_of c) w")
  obtain url u m where r: "resolve_upstream (enroll_all production es) provider path = Inr (url, u)"
    "case cred of
        Inl e \<Rightarrow> in_flight sl' = in_flight sl \<and> (w', out) = (w2, Inl e)
      | Inr auth \<Rightarrow> in_flight sl' = (in_flight sl)(session := in_flight sl session + 1) \<and>
          (w', out) = (w2, Inr (\<lparr>ac_runner_id = runner, ac_capability = c, ac_binding = binding_of c\<rparr>,
            \<lparr>pr_method = m, pr_url = url, pr_headers = headers, pr_fixed_headers = up_fixed_headers u, pr_auth = auth\<rparr>))"
    using assms(1) unfolding grants_def assms(2) cred prod.case fst_conv snd_conv by blast
  then show ?thesis using resolved_url(1) [OF r(1)] by (cases cred) (simp_all add: cred)
qed

text \<open>
  C5. The credential is taken only for a call that passed every check. Opening a request on the production table
  either fails without asking the vault for the credential, and then the vault was not asked anything unless
  phase 0 passed, and no slot stays taken; or everything holds at once: the peer is an enrolled node that
  signed this capability with its own key, the session is assigned to it now, the capability is inside its
  window of at most a minute and inside the lease, for the gateway, in the helper mode, without a credential of
  the guest; the vault's own checks passed; the URL is the path on the provider's host; at most the two
  permitted headers are sent; and fewer than \<open>MAX_IN_FLIGHT\<close> requests of the session were open. The
  credential is then asked for once, for the signed connection, and a slot is held exactly if it was given.
\<close>

theorem credential_only_for_an_admitted_call:
  assumes "quote_ok (gw_quote G)" "unforgeable (gw_ed25519 G) (gw_quote G) issued" "gw_table G = enroll_all production es"
    and "open_request G peer session provider (GatewayOpen rid line_provider meth path headers authorization c) sl w = (sl', w', out)"
  defines "now \<equiv> gw_clock G w" and "w1 \<equiv> fst (gw_check G (binding_of c) w)"
  shows "(\<exists>e. out = Inl e) \<and> in_flight sl' = in_flight sl \<and>
      (w' = w \<or> w' = w1 \<and> (\<exists>g. verify (gw_ed25519 G) (gw_quote G) (gw_registry G) (gw_assignment G w) peer c (session, provider) now = Inr g)) \<or>
    (\<exists>fp node d a. peer = Some fp \<and> gw_registry G fp = Some node \<and> d \<in> issued (en_capability_key node) \<and>
      c = d\<lparr>cp_signature := cp_signature c\<rparr> \<and> cp_session_id c = session \<and> cp_provider c = provider \<and>
      gw_assignment G w session = Some a \<and> lease_matches a (en_runner_id node) c now \<and> binding_matches a c \<and>
      cp_issued_at c \<le> now \<and> now < cp_expires_at c \<and> cp_expires_at c \<le> cp_issued_at c + MAX_LIFETIME_MILLIS \<and>
      cp_expires_at c \<le> as_lease_expires a \<and> cp_audience c = AUDIENCE \<and> cp_mode c = GatewayHelper \<and> authorization = None \<and>
      snd (gw_check G (binding_of c) w) = Inr () \<and>
      distinct (map rh_name headers) \<and> set (map rh_name headers) \<subseteq> {''accept'', ''content-type''} \<and>
      in_flight sl session < MAX_IN_FLIGHT \<and> w' = fst (gw_credential G (binding_of c) w1) \<and>
      (case out of
         Inl e \<Rightarrow> snd (gw_credential G (binding_of c) w1) = Inl e \<and> in_flight sl' = in_flight sl
       | Inr (acc, pr) \<Rightarrow>
           snd (gw_credential G (binding_of c) w1) = Inr (pr_auth pr) \<and> in_flight sl' = (in_flight sl)(session := in_flight sl session + 1) \<and>
           pr_url pr = ''https://'' @ host_of provider @ path \<and> pr_headers pr = headers \<and>
           ac_runner_id acc = en_runner_id node \<and> ac_capability acc = c \<and> ac_binding acc = binding_of c))"
  (is "?refused \<or> ?admitted")
proof (cases "line_provider = provider \<and> (\<exists>g. verify (gw_ed25519 G) (gw_quote G) (gw_registry G) (gw_assignment G w) peer c (session, provider) now = Inr g) \<and>
    snd (gw_check G (binding_of c) w) = Inr ()")
  case False
  then have ?refused using assms(4) unfolding now_def w1_def
    by (auto simp: Let_def split: if_splits sum.splits prod.splits)
  then show ?thesis by (rule disjI1)
next
  case True
  then obtain runner lease where v: "verify (gw_ed25519 G) (gw_quote G) (gw_registry G) (gw_assignment G w) peer c (session, provider) now = Inr (runner, lease)"
    by (auto simp: split_paired_Ex)
  have check: "gw_check G (binding_of c) w = (w1, Inr ())" using True by (simp add: w1_def prod_eq_iff)
  then have out: "after_check G session provider meth path headers authorization c now (runner, lease) sl w1 = (sl', w', out)"
    using assms(4) True v by (simp add: Let_def now_def)
  show ?thesis
  proof (cases "grants G session provider meth path headers authorization c now (runner, lease) sl w1 (sl', w', out)")
    case False
    then have ?refused using after_check_cases [of G session provider meth path headers authorization c now "(runner, lease)" sl w1] v out by auto
    then show ?thesis by (rule disjI1)
  next
    case g: True
    obtain fp node where n: "peer = Some fp" "gw_registry G fp = Some node" "runner = en_runner_id node"
      "signed_by (gw_ed25519 G) (gw_quote G) c (en_capability_key node)" "cp_session_id c = session" "cp_provider c = provider"
      "current (gw_assignment G w) runner c now = Inr lease"
      using verify_Inr [OF v] by (metis fst_conv snd_conv)
    obtain d where d: "d \<in> issued (en_capability_key node)" "c = d\<lparr>cp_signature := cp_signature c\<rparr>"
      using signed_by_issued [OF assms(1,2) n(4)] by blast
    obtain a where a: "gw_assignment G w session = Some a" "lease_matches a runner c now" "binding_matches a c" "lease = as_lease_expires a"
      using n(5,7) by (metis current_Inr)
    have ?admitted
      using n a d grants_checks [OF g] grants_outcome [OF g assms(3)] check
      by (intro exI [of _ fp] exI [of _ node] exI [of _ d] exI [of _ a]) (simp only: simp_thms fst_conv snd_conv)
    then show ?thesis by (rule disjI2)
  qed
qed

text \<open>An example: the node of the authority's example relays to an enrolled path; the world counts the credentials given.\<close>

definition ex_gateway :: "nat gateway" where
  "ex_gateway = \<lparr>gw_registry = ex_nodes, gw_table = enroll_all production [(''claude'', ''/v1'')], gw_assignment = (\<lambda>w. ex_assigned),
     gw_check = (\<lambda>b w. (w, Inr ())), gw_credential = (\<lambda>b w. (w + 1, Inr \<lparr>ua_header = ''x-api-key'', ua_value = ''secret''\<rparr>)),
     gw_clock = (\<lambda>w. 2000), gw_ed25519 = ex_verifier, gw_quote = json_quote, gw_from_slice = ex_from_slice,
     gw_to_vec = (\<lambda>l. Some ''line''), gw_decode = Some, gw_encode = id, gw_tx = (\<lambda>b w. (w, SendDone))\<rparr>"

definition ex_open :: node_line where
  "ex_open = GatewayOpen ''r'' ''claude'' ''POST'' ''/v1/messages'' [\<lparr>rh_name = ''accept'', rh_value = ''*/*''\<rparr>] None ex_capability"

definition ex_accepted :: accepted where
  "ex_accepted = \<lparr>ac_runner_id = ''r1'', ac_capability = ex_capability, ac_binding = binding_of ex_capability\<rparr>"

lemma ex_opened:
  "snd (open_request ex_gateway (Some ''fp'') ''s1'' ''claude'' ex_open Map.empty 0) =
   (1, Inr (ex_accepted, \<lparr>pr_method = RelayPost, pr_url = ''https://api.anthropic.com/v1/messages'',
      pr_headers = [\<lparr>rh_name = ''accept'', rh_value = ''*/*''\<rparr>], pr_fixed_headers = [],
      pr_auth = \<lparr>ua_header = ''x-api-key'', ua_value = ''secret''\<rparr>\<rparr>))"
  by code_simp

theorem credential_only_for_an_admitted_call_witness:
  "\<exists>fp node d. Some ''fp'' = Some fp \<and> ex_nodes fp = Some node \<and> d \<in> ex_issued (en_capability_key node) \<and>
     in_flight Map.empty ''s1'' < MAX_IN_FLIGHT \<and> (1 :: nat) = fst (gw_credential ex_gateway (binding_of ex_capability) 0)"
proof -
  have q: "quote_ok (gw_quote ex_gateway)" "unforgeable (gw_ed25519 ex_gateway) (gw_quote ex_gateway) ex_issued"
    "gw_table ex_gateway = enroll_all production [(''claude'', ''/v1'')]" "gw_registry ex_gateway = ex_nodes"
    using json_quote_ok ex_unforgeable by (simp_all add: ex_gateway_def)
  obtain sl' where "open_request ex_gateway (Some ''fp'') ''s1'' ''claude'' ex_open Map.empty 0 =
     (sl', 1, Inr (ex_accepted, \<lparr>pr_method = RelayPost, pr_url = ''https://api.anthropic.com/v1/messages'',
      pr_headers = [\<lparr>rh_name = ''accept'', rh_value = ''*/*''\<rparr>], pr_fixed_headers = [],
      pr_auth = \<lparr>ua_header = ''x-api-key'', ua_value = ''secret''\<rparr>\<rparr>))"
    using ex_opened by (metis prod.collapse)
  from credential_only_for_an_admitted_call [OF q(1-3) this [unfolded ex_open_def]]
  obtain fp node d where "Some ''fp'' = Some fp \<and> ex_nodes fp = Some node \<and> d \<in> ex_issued (en_capability_key node) \<and>
     in_flight Map.empty ''s1'' < MAX_IN_FLIGHT \<and>
     (1 :: nat) = fst (gw_credential ex_gateway (binding_of ex_capability) (fst (gw_check ex_gateway (binding_of ex_capability) 0)))"
    unfolding q(4) by blast
  moreover have "fst (gw_check ex_gateway (binding_of ex_capability) 0) = 0" by (simp add: ex_gateway_def)
  ultimately show ?thesis by (simp only:) blast
qed

end
