(* ===== verification/GatewayStreams.thy ===== *)
theory GatewayStreams
  imports GatewayRelay
begin

text \<open>
  The two bodies of an accepted request: the node's lines as the body sent upstream
  (\<^verbatim>\<open>crates/jeryu-gateway/src/body.rs\<close>), and the provider's response as lines to the node
  (\<^verbatim>\<open>crates/jeryu-gateway/src/upstream.rs\<close>), with the periodic re-check and the end of a request of
  \<^verbatim>\<open>crates/jeryu-gateway/src/relay.rs\<close>. The provider is the outcome of the upstream call, an argument.
\<close>

section \<open>The request body\<close>

lemma next_chunk_shrinks:
  assumes "next_chunk G a rid st w = (st', w', Inr (Some chunk))"
  shows "length (unread (bs_lines st')) < length (unread (bs_lines st))"
proof -
  obtain r w1 res where n: "next_line (gw_from_slice G) (bs_lines st) w = (r, w1, res)" by (metis prod_cases3)
  then obtain l where "res = Inr l" using assms by (cases res) (simp_all add: next_chunk_def)
  moreover have "bs_lines st' = r"
    using assms \<open>res = Inr l\<close> by (auto simp: next_chunk_def n Let_def split: node_line.splits if_splits prod.splits sum.splits)
  ultimately show ?thesis using next_line_shrinks [of "gw_from_slice G" "bs_lines st" w r w1 l] n by simp
qed

text \<open>All the chunks the stream gives while it is read, and how it ends.\<close>

function body_stream :: "'w gateway \<Rightarrow> accepted \<Rightarrow> string \<Rightarrow> 'w body_state \<Rightarrow> 'w \<Rightarrow> string list \<times> 'w \<times> (relay_error + unit)" where
  "body_stream G a rid st w =
     (case next_chunk G a rid st w of
        (st', w', Inl e) \<Rightarrow> ([], w', Inl e)
      | (st', w', Inr None) \<Rightarrow> ([], w', Inr ())
      | (st', w', Inr (Some chunk)) \<Rightarrow> (case body_stream G a rid st' w' of (cs, w'', out) \<Rightarrow> (chunk # cs, w'', out)))"
  by pat_completeness auto

termination
  by (relation "measure (\<lambda>(G, a, rid, st, w). length (unread (bs_lines st)))")
    (auto dest: next_chunk_shrinks [OF sym])

declare body_stream.simps [simp del]

definition request_body :: "'w gateway \<Rightarrow> accepted \<Rightarrow> string \<Rightarrow> 'w line_reader \<Rightarrow> 'w \<Rightarrow> string list \<times> 'w \<times> (relay_error + unit)" where
  "request_body G a rid r w = body_stream G a rid \<lparr>bs_lines = r, bs_expected = 1, bs_total = 0\<rparr> w"

section \<open>The response\<close>

definition send_line :: "'w gateway \<Rightarrow> gateway_line \<Rightarrow> 'w \<Rightarrow> 'w \<times> (relay_error + unit)" where
  "send_line G l w =
     (case to_line (gw_to_vec G) l of
        Inl e \<Rightarrow> (w, Inl e)
      | Inr bytes \<Rightarrow>
          (case gw_tx G bytes w of
             (w, SendTimedOut) \<Rightarrow> (w, Inl RelayIdleTimeout)
           | (w, SendClosed) \<Rightarrow> (w, Inl RelayStreamInvalid)
           | (w, SendDone) \<Rightarrow> (w, Inr ())))"

function pieces :: "string \<Rightarrow> string list" where
  "pieces [] = []"
| "pieces (x # xs) = take MAX_CHUNK_BYTES (x # xs) # pieces (drop MAX_CHUNK_BYTES (x # xs))"
  by pat_completeness auto

termination
  by (relation "measure length") (auto simp: MAX_CHUNK_BYTES_def)

text \<open>One chunk of the provider: every piece is re-checked, numbered and sent. The lines sent are part of the result.\<close>

fun send_pieces ::
  "'w gateway \<Rightarrow> accepted \<Rightarrow> string \<Rightarrow> nat \<Rightarrow> string list \<Rightarrow> 'w \<Rightarrow> gateway_line list \<times> 'w \<times> (relay_error + nat)" where
  "send_pieces G a rid seq [] w = ([], w, Inr seq)"
| "send_pieces G a rid seq (p # ps) w =
     (case recheck G a w of
        (w, Inl e) \<Rightarrow> ([], w, Inl e)
      | (w, Inr _) \<Rightarrow>
          let l = ResponseBody rid (seq + 1) (gw_encode G p)
          in case send_line G l w of
               (w, Inl e) \<Rightarrow> ([], w, Inl e)
             | (w, Inr _) \<Rightarrow> (case send_pieces G a rid (seq + 1) ps w of (ls, w, out) \<Rightarrow> (l # ls, w, out)))"

text \<open>
  What can end the wait for the provider's next bytes: the idle timeout, a broken stream, a chunk, the tick of the
  periodic re-check, and the node hanging up. The end of the list is the end of the response.
\<close>

datatype up_event = UpIdle | UpBroken | UpChunk string | UpTick | UpHangUp

fun stream_response ::
  "'w gateway \<Rightarrow> accepted \<Rightarrow> string \<Rightarrow> nat \<Rightarrow> (('w \<Rightarrow> 'w) \<times> up_event) list \<Rightarrow> 'w \<Rightarrow> gateway_line list \<times> 'w \<times> (relay_error + unit)" where
  "stream_response G a rid seq [] w =
     (case send_line G (ResponseEnd rid seq) w of
        (w, Inl e) \<Rightarrow> ([], w, Inl e)
      | (w, Inr _) \<Rightarrow> ([ResponseEnd rid seq], w, Inr ()))"
| "stream_response G a rid seq ((meanwhile, ev) # evs) w =
     (let w = meanwhile w
      in case ev of
           UpIdle \<Rightarrow> ([], w, Inl RelayIdleTimeout)
         | UpBroken \<Rightarrow> ([], w, Inl RelayStreamInvalid)
         | UpHangUp \<Rightarrow> ([], w, Inl RelayStreamInvalid)
         | UpTick \<Rightarrow>
             (case recheck G a w of
                (w, Inl e) \<Rightarrow> ([], w, Inl e)
              | (w, Inr _) \<Rightarrow> stream_response G a rid seq evs w)
         | UpChunk bytes \<Rightarrow>
             (case send_pieces G a rid seq (pieces bytes) w of
                (ls, w, Inl e) \<Rightarrow> (ls, w, Inl e)
              | (ls, w, Inr seq) \<Rightarrow>
                  (case stream_response G a rid seq evs w of (ls', w, out) \<Rightarrow> (ls @ ls', w, out))))"

text \<open>The upstream call: a timeout, a failure, or a response with its status and content type.\<close>

datatype 'w call_outcome =
    CallTimedOut
  | CallFailed
  | CallAnswered nat "string option" "(('w \<Rightarrow> 'w) \<times> up_event) list"

definition request_headers :: "prepared \<Rightarrow> (string \<times> string) list" where
  "request_headers p = map (\<lambda>h. (rh_name h, rh_value h)) (pr_headers p) @ pr_fixed_headers p @
     [(ua_header (pr_auth p), ua_value (pr_auth p))]"

definition response_headers :: "string option \<Rightarrow> relay_header list" where
  "response_headers content_type =
     (case content_type of
        None \<Rightarrow> []
      | Some v \<Rightarrow> if length v \<le> 256 then [\<lparr>rh_name = ''content-type'', rh_value = v\<rparr>] else [])"

fun forward ::
  "'w gateway \<Rightarrow> accepted \<Rightarrow> string \<Rightarrow> relay_error option \<Rightarrow> 'w call_outcome \<Rightarrow> 'w \<Rightarrow> gateway_line list \<times> 'w \<times> (relay_error + unit)" where
  "forward G a rid failure CallTimedOut w = ([], w, Inl RelayIdleTimeout)"
| "forward G a rid failure CallFailed w = ([], w, Inl (case failure of Some e \<Rightarrow> e | None \<Rightarrow> UpstreamHostDenied))"
| "forward G a rid failure (CallAnswered status content_type evs) w =
     (case failure of
        Some e \<Rightarrow> ([], w, Inl e)
      | None \<Rightarrow>
          if 300 \<le> status \<and> status < 400 then ([], w, Inl UpstreamHostDenied)
          else
            let head = HeadLine rid status (response_headers content_type)
            in case send_line G head w of
                 (w, Inl e) \<Rightarrow> ([], w, Inl e)
               | (w, Inr _) \<Rightarrow> (case stream_response G a rid 0 evs w of (ls, w, out) \<Rightarrow> (head # ls, w, out)))"

text \<open>How a request that failed ends: one error line, under the request's identifier once it is known.\<close>

definition end_request :: "'w gateway \<Rightarrow> string \<Rightarrow> relay_error + unit \<Rightarrow> 'w \<Rightarrow> gateway_line list \<times> 'w" where
  "end_request G rid out w =
     (case out of
        Inr _ \<Rightarrow> ([], w)
      | Inl e \<Rightarrow>
          let l = ErrorLine (if rid = [] then ''unknown'' else rid) e
          in case send_line G l w of (w, Inl _) \<Rightarrow> ([], w) | (w, Inr _) \<Rightarrow> ([l], w))"

section \<open>What goes upstream\<close>

lemma next_line_clean:
  assumes "next_line p r w = (r', w', Inr l)" "clean (lr_input r)" "lr_buffer r = []"
  obtains line where "unread r = line @ CHR 0x0A # unread r'" "CHR 0x0A \<notin> set line" "parse_node_line p line = Inr l"
    "clean (lr_input r')" "lr_buffer r' = []"
proof -
  have "reads p (unread r) (r', w', Inr l)"
    using read_line_reads [OF assms(2), of "[]" p "lr_pending r" w] assms(1,3) by (simp add: next_line_def unread_def)
  then obtain line rest where "split_once (CHR 0x0A) (unread r) = Some (line, rest)" "parse_node_line p line = Inr l"
    "unread r' = rest" "clean (lr_input r')" "lr_buffer r' = []"
    by (auto simp: reads_def first_line_def split: option.splits if_splits)
  then show ?thesis using that by (auto simp: split_once_Some_iff)
qed

text \<open>A chunk, and the end of the body, as their lines have them.\<close>

lemma next_chunk_Inr:
  assumes "next_chunk G a rid st w = (st', w', Inr res)"
  obtains r' w1 l where "next_line (gw_from_slice G) (bs_lines st) w = (r', w1, Inr l)" "recheck G a w1 = (w', Inr ())"
    "case l of
       RequestBody i n b \<Rightarrow> (\<exists>chunk. i = rid \<and> n = bs_expected st \<and> decode_chunk (gw_decode G) b = Inr chunk \<and>
         bs_total st + length chunk \<le> MAX_REQUEST_BODY \<and> res = Some chunk \<and>
         st' = \<lparr>bs_lines = r', bs_expected = bs_expected st + 1, bs_total = bs_total st + length chunk\<rparr>)
     | RequestEnd i n \<Rightarrow> i = rid \<and> n + 1 = bs_expected st \<and> res = None
     | GatewayOpen _ _ _ _ _ _ _ \<Rightarrow> False"
proof -
  obtain r' w1 line where n: "next_line (gw_from_slice G) (bs_lines st) w = (r', w1, line)" by (metis prod_cases3)
  then obtain l where l: "line = Inr l" using assms by (cases line) (simp_all add: next_chunk_def)
  obtain w2 ok where c: "recheck G a w1 = (w2, ok)" by (cases "recheck G a w1")
  show ?thesis
  proof (cases l)
    case (GatewayOpen)
    then show ?thesis using assms by (simp add: next_chunk_def n l Let_def)
  next
    case (RequestBody i k b)
    have k: "i = rid" "k = bs_expected st" using assms by (simp_all add: next_chunk_def n l RequestBody Let_def split: if_splits)
    have ok: "ok = Inr ()" using assms k by (cases ok) (simp_all add: next_chunk_def n l c RequestBody Let_def)
    obtain chunk where d: "decode_chunk (gw_decode G) b = Inr chunk"
      using assms k ok by (cases "decode_chunk (gw_decode G) b") (simp_all add: next_chunk_def n l c RequestBody Let_def)
    have out: "bs_total st + length chunk \<le> MAX_REQUEST_BODY" "w2 = w'" "res = Some chunk"
      "st' = st\<lparr>bs_lines := r', bs_total := bs_total st + length chunk, bs_expected := bs_expected st + 1\<rparr>"
      using assms k ok d by (simp_all add: next_chunk_def n l c RequestBody Let_def split: if_splits)
    moreover have "st' = \<lparr>bs_lines = r', bs_expected = bs_expected st + 1, bs_total = bs_total st + length chunk\<rparr>"
      unfolding out(4) by (cases st) simp
    ultimately show ?thesis using that [OF n [unfolded l]] c ok k d RequestBody by simp
  next
    case (RequestEnd i k)
    have k: "i = rid" "k + 1 = bs_expected st" using assms by (simp_all add: next_chunk_def n l RequestEnd Let_def split: if_splits)
    have ok: "ok = Inr ()" using assms by (cases ok) (simp_all add: next_chunk_def n l c RequestEnd Let_def split: if_splits)
    have "w2 = w'" "res = None" using assms ok by (simp_all add: next_chunk_def n l c RequestEnd Let_def split: if_splits)
    then show ?thesis using that [OF n [unfolded l]] c ok k RequestEnd by simp
  qed
qed

lemma next_chunk_Some:
  assumes "next_chunk G a rid st w = (st', w', Inr (Some chunk))"
  obtains r' w1 b where "next_line (gw_from_slice G) (bs_lines st) w = (r', w1, Inr (RequestBody rid (bs_expected st) b))"
    "recheck G a w1 = (w', Inr ())" "decode_chunk (gw_decode G) b = Inr chunk" "bs_total st + length chunk \<le> MAX_REQUEST_BODY"
    "st' = \<lparr>bs_lines = r', bs_expected = bs_expected st + 1, bs_total = bs_total st + length chunk\<rparr>"
proof (rule next_chunk_Inr [OF assms])
  fix r' w1 l
  assume "next_line (gw_from_slice G) (bs_lines st) w = (r', w1, Inr l)" "recheck G a w1 = (w', Inr ())"
    and "case l of
       RequestBody i n b \<Rightarrow> (\<exists>chunk'. i = rid \<and> n = bs_expected st \<and> decode_chunk (gw_decode G) b = Inr chunk' \<and>
         bs_total st + length chunk' \<le> MAX_REQUEST_BODY \<and> Some chunk = Some chunk' \<and>
         st' = \<lparr>bs_lines = r', bs_expected = bs_expected st + 1, bs_total = bs_total st + length chunk'\<rparr>)
     | RequestEnd i n \<Rightarrow> i = rid \<and> n + 1 = bs_expected st \<and> Some chunk = None
     | GatewayOpen _ _ _ _ _ _ _ \<Rightarrow> False"
  then show ?thesis using that by (cases l) simp_all
qed

lemma next_chunk_None:
  assumes "next_chunk G a rid st w = (st', w', Inr None)"
  obtains r' w1 n where "next_line (gw_from_slice G) (bs_lines st) w = (r', w1, Inr (RequestEnd rid n))" "n + 1 = bs_expected st"
    "recheck G a w1 = (w', Inr ())"
proof (rule next_chunk_Inr [OF assms])
  fix r' w1 l
  assume "next_line (gw_from_slice G) (bs_lines st) w = (r', w1, Inr l)" "recheck G a w1 = (w', Inr ())"
    and "case l of
       RequestBody i n b \<Rightarrow> (\<exists>chunk. i = rid \<and> n = bs_expected st \<and> decode_chunk (gw_decode G) b = Inr chunk \<and>
         bs_total st + length chunk \<le> MAX_REQUEST_BODY \<and> None = Some chunk \<and>
         st' = \<lparr>bs_lines = r', bs_expected = bs_expected st + 1, bs_total = bs_total st + length chunk\<rparr>)
     | RequestEnd i n \<Rightarrow> i = rid \<and> n + 1 = bs_expected st \<and> None = None
     | GatewayOpen _ _ _ _ _ _ _ \<Rightarrow> False"
  then show ?thesis using that by (cases l) simp_all
qed

fun carries :: "'w gateway \<Rightarrow> string \<Rightarrow> nat \<Rightarrow> string list \<Rightarrow> string list \<Rightarrow> bool" where
  "carries G rid n [] [] \<longleftrightarrow> True"
| "carries G rid n (l # ls) (c # cs) \<longleftrightarrow>
     CHR 0x0A \<notin> set l \<and> (\<exists>b. parse_node_line (gw_from_slice G) l = Inr (RequestBody rid n b) \<and> decode_chunk (gw_decode G) b = Inr c) \<and>
     carries G rid (n + 1) ls cs"
| "carries G rid n _ _ \<longleftrightarrow> False"

lemma carries_nth:
  "carries G rid n ls cs \<Longrightarrow> length ls = length cs \<and> (\<forall>l \<in> set ls. CHR 0x0A \<notin> set l) \<and>
   (\<forall>i < length cs. \<exists>b. parse_node_line (gw_from_slice G) (ls ! i) = Inr (RequestBody rid (n + i) b) \<and> decode_chunk (gw_decode G) b = Inr (cs ! i))"
proof (induction G rid n ls cs rule: carries.induct)
  case (2 G rid n l ls c cs)
  then show ?case by (auto simp: nth_Cons split: nat.splits)
qed auto

definition ends_body :: "'w gateway \<Rightarrow> string \<Rightarrow> nat \<Rightarrow> string \<Rightarrow> bool" where
  "ends_body G rid n rest \<longleftrightarrow> (\<exists>line more. rest = line @ CHR 0x0A # more \<and> CHR 0x0A \<notin> set line \<and>
     parse_node_line (gw_from_slice G) line = Inr (RequestEnd rid n))"

lemma body_stream_carries:
  "body_stream G a rid st w = (cs, w', out) \<Longrightarrow> clean (lr_input (bs_lines st)) \<Longrightarrow> lr_buffer (bs_lines st) = [] \<Longrightarrow>
   bs_total st \<le> MAX_REQUEST_BODY \<Longrightarrow> 1 \<le> bs_expected st \<Longrightarrow>
   \<exists>ls rest. unread (bs_lines st) = concat (map (\<lambda>l. l @ [CHR 0x0A]) ls) @ rest \<and> carries G rid (bs_expected st) ls cs \<and>
     bs_total st + length (concat cs) \<le> MAX_REQUEST_BODY \<and>
     (out = Inr () \<longrightarrow> ends_body G rid (bs_expected st + length cs - 1) rest)"
proof (induction G a rid st w arbitrary: cs w' out rule: body_stream.induct)
  case (1 G a rid st w)
  obtain st1 w1 res where n: "next_chunk G a rid st w = (st1, w1, res)" by (metis prod_cases3)
  consider (err) e where "res = Inl e" | (stop) "res = Inr None" | (chunk) c where "res = Inr (Some c)"
    by (cases res) auto
  then show ?case
  proof cases
    case err
    then have "cs = []" "out = Inl e" using 1(2) by (simp_all add: body_stream.simps [of G a rid st w] n)
    then show ?thesis using 1(5) by (intro exI [of _ "[]"] exI [of _ "unread (bs_lines st)"]) simp
  next
    case stop
    then have cs: "cs = []" using 1(2) by (simp add: body_stream.simps [of G a rid st w] n)
    obtain r' w2 k where e: "next_line (gw_from_slice G) (bs_lines st) w = (r', w2, Inr (RequestEnd rid k))" "k + 1 = bs_expected st"
      using n stop by (metis next_chunk_None)
    obtain line where "unread (bs_lines st) = line @ CHR 0x0A # unread r'" "CHR 0x0A \<notin> set line"
      "parse_node_line (gw_from_slice G) line = Inr (RequestEnd rid k)"
      by (rule next_line_clean [OF e(1) 1(3,4)])
    moreover have "k = bs_expected st - 1" using e(2) by simp
    ultimately have "ends_body G rid (bs_expected st - 1) (unread (bs_lines st))" unfolding ends_body_def by blast
    then show ?thesis using 1(5) cs by (intro exI [of _ "[]"] exI [of _ "unread (bs_lines st)"]) auto
  next
    case (chunk c)
    obtain cs' where cs: "cs = c # cs'" "body_stream G a rid st1 w1 = (cs', w', out)"
      using 1(2) chunk by (auto simp: body_stream.simps [of G a rid st w] n split: prod.splits)
    obtain r' w2 b where e: "next_line (gw_from_slice G) (bs_lines st) w = (r', w2, Inr (RequestBody rid (bs_expected st) b))"
      "decode_chunk (gw_decode G) b = Inr c" "bs_total st + length c \<le> MAX_REQUEST_BODY"
      "st1 = \<lparr>bs_lines = r', bs_expected = bs_expected st + 1, bs_total = bs_total st + length c\<rparr>"
      using n [unfolded chunk] by (rule next_chunk_Some)
    obtain line where l: "unread (bs_lines st) = line @ CHR 0x0A # unread r'" "CHR 0x0A \<notin> set line"
      "parse_node_line (gw_from_slice G) line = Inr (RequestBody rid (bs_expected st) b)" "clean (lr_input r')" "lr_buffer r' = []"
      by (rule next_line_clean [OF e(1) 1(3,4)])
    obtain ls rest where r: "unread r' = concat (map (\<lambda>l. l @ [CHR 0x0A]) ls) @ rest" "carries G rid (bs_expected st + 1) ls cs'"
      "bs_total st + length c + length (concat cs') \<le> MAX_REQUEST_BODY"
      "out = Inr () \<longrightarrow> ends_body G rid (bs_expected st + 1 + length cs' - 1) rest"
      using 1(1) [OF n [symmetric] refl chunk refl cs(2)] l(4,5) e(3,4) by auto
    show ?thesis
      using l(1,2,3) r e(2) cs(1) by (intro exI [of _ "line # ls"] exI [of _ rest]) auto
  qed
qed

text \<open>
  C39. What goes upstream is what the node sent, in order. Whatever ends the request body, the chunks given upstream
  are the decoded bytes of the node's first lines: the \<open>i\<close>-th line is the \<^verbatim>\<open>request-body\<close> line of this
  request numbered \<open>i\<close>, none is skipped, repeated or joined, and together they stay within
  \<open>MAX_REQUEST_BODY\<close>. The body ends without an error only at a \<^verbatim>\<open>request-end\<close> line that names exactly
  the number of chunks sent.
\<close>

theorem upstream_body_is_what_the_node_sent:
  assumes "clean (lr_input r)" "lr_buffer r = []" "request_body G a rid r w = (cs, w', out)"
  shows "\<exists>ls rest. unread r = concat (map (\<lambda>l. l @ [CHR 0x0A]) ls) @ rest \<and> length ls = length cs \<and> (\<forall>l \<in> set ls. CHR 0x0A \<notin> set l) \<and>
    (\<forall>i < length cs. \<exists>b. parse_node_line (gw_from_slice G) (ls ! i) = Inr (RequestBody rid (i + 1) b) \<and>
       gw_decode G b = Some (cs ! i) \<and> 0 < length (cs ! i) \<and> length (cs ! i) \<le> MAX_CHUNK_BYTES) \<and>
    length (concat cs) \<le> MAX_REQUEST_BODY \<and>
    (out = Inr () \<longrightarrow> (\<exists>line more. rest = line @ CHR 0x0A # more \<and> CHR 0x0A \<notin> set line \<and>
       parse_node_line (gw_from_slice G) line = Inr (RequestEnd rid (length cs))))"
proof -
  obtain ls rest where r: "unread r = concat (map (\<lambda>l. l @ [CHR 0x0A]) ls) @ rest" "carries G rid 1 ls cs"
    "length (concat cs) \<le> MAX_REQUEST_BODY"
    "out = Inr () \<longrightarrow> ends_body G rid (length cs) rest"
    using body_stream_carries [OF assms(3) [unfolded request_body_def]] assms(1,2) by auto
  have d: "gw_decode G b = Some c \<and> 0 < length c \<and> length c \<le> MAX_CHUNK_BYTES" if "decode_chunk (gw_decode G) b = Inr c" for b c
    using that by (auto simp: decode_chunk_def split: option.splits if_splits)
  show ?thesis using r(1,3) r(4) [unfolded ends_body_def] carries_nth [OF r(2)] d by (intro exI [of _ ls] exI [of _ rest]) (simp, metis)
qed

section \<open>What goes back\<close>

lemma pieces_concat: "concat (pieces bytes) = bytes"
  by (induction bytes rule: pieces.induct) simp_all

lemma pieces_size: "p \<in> set (pieces bytes) \<Longrightarrow> 0 < length p \<and> length p \<le> MAX_CHUNK_BYTES"
proof (induction bytes rule: pieces.induct)
  case (2 x xs)
  then show ?case by (auto simp: MAX_CHUNK_BYTES_def)
qed simp

fun numbered_bodies :: "'w gateway \<Rightarrow> string \<Rightarrow> nat \<Rightarrow> string list \<Rightarrow> gateway_line list" where
  "numbered_bodies G rid seq [] = []"
| "numbered_bodies G rid seq (p # ps) = ResponseBody rid (seq + 1) (gw_encode G p) # numbered_bodies G rid (seq + 1) ps"

lemma numbered_bodies_append: "numbered_bodies G rid seq (ps @ qs) = numbered_bodies G rid seq ps @ numbered_bodies G rid (seq + length ps) qs"
  by (induction ps arbitrary: seq) simp_all

lemma numbered_bodies_map: "numbered_bodies G rid seq ps = map (\<lambda>i. ResponseBody rid (seq + i + 1) (gw_encode G (ps ! i))) [0..<length ps]"
proof (induction ps arbitrary: seq)
  case (Cons p ps)
  have "[0..<length (p # ps)] = 0 # map Suc [0..<length ps]" by (simp only: length_Cons upt_conv_Cons zero_less_Suc map_Suc_upt)
  then show ?case using Cons.IH [of "seq + 1"] by (simp only: numbered_bodies.simps list.map nth_Cons_0 map_map) (simp add: comp_def)
qed simp

lemma send_pieces_Inr: "send_pieces G a rid seq ps w = (ls, w', Inr seq') \<Longrightarrow> ls = numbered_bodies G rid seq ps \<and> seq' = seq + length ps"
proof (induction ps arbitrary: seq w ls)
  case (Cons p ps)
  then obtain w1 ls1 where "send_pieces G a rid (seq + 1) ps w1 = (ls1, w', Inr seq')" "ls = ResponseBody rid (seq + 1) (gw_encode G p) # ls1"
    by (auto simp: Let_def split: prod.splits sum.splits)
  then show ?case using Cons.IH [of "seq + 1" w1 ls1] by simp
qed simp

fun up_bytes :: "up_event \<Rightarrow> string" where
  "up_bytes (UpChunk b) = b"
| "up_bytes _ = []"

definition response_bytes :: "(('w \<Rightarrow> 'w) \<times> up_event) list \<Rightarrow> string" where
  "response_bytes evs = concat (map (up_bytes \<circ> snd) evs)"

lemma response_bytes_simps [simp]: "response_bytes [] = []" "response_bytes ((m, ev) # evs) = up_bytes ev @ response_bytes evs"
  by (simp_all add: response_bytes_def)

lemma stream_response_Inr:
  "stream_response G a rid seq evs w = (ls, w', Inr ()) \<Longrightarrow>
   \<exists>ps. concat ps = response_bytes evs \<and> (\<forall>p \<in> set ps. 0 < length p \<and> length p \<le> MAX_CHUNK_BYTES) \<and>
     ls = numbered_bodies G rid seq ps @ [ResponseEnd rid (seq + length ps)]"
proof (induction evs arbitrary: seq w ls)
  case Nil
  then show ?case by (intro exI [of _ "[]"]) (auto split: prod.splits sum.splits)
next
  case (Cons mev evs)
  obtain m ev where mev: "mev = (m, ev)" by (cases mev)
  show ?case
  proof (cases ev)
    case (UpChunk bytes)
    obtain ls1 w1 seq1 ls2 where s: "send_pieces G a rid seq (pieces bytes) (m w) = (ls1, w1, Inr seq1)"
      "stream_response G a rid seq1 evs w1 = (ls2, w', Inr ())" "ls = ls1 @ ls2"
      using Cons.prems by (auto simp: mev UpChunk Let_def split: prod.splits sum.splits)
    obtain ps where "concat ps = response_bytes evs" "\<forall>p \<in> set ps. 0 < length p \<and> length p \<le> MAX_CHUNK_BYTES"
      "ls2 = numbered_bodies G rid seq1 ps @ [ResponseEnd rid (seq1 + length ps)]"
      using Cons.IH [OF s(2)] by blast
    then show ?thesis using send_pieces_Inr [OF s(1)] s(3) pieces_size
      by (intro exI [of _ "pieces bytes @ ps"]) (auto simp: mev UpChunk numbered_bodies_append pieces_concat)
  next
    case UpTick
    then obtain w1 where "stream_response G a rid seq evs w1 = (ls, w', Inr ())"
      using Cons.prems by (auto simp: mev Let_def split: prod.splits sum.splits)
    from Cons.IH [OF this] show ?thesis by (simp add: mev UpTick)
  qed (use Cons.prems in \<open>simp_all add: mev Let_def\<close>)
qed

text \<open>
  C40. A response that is relayed to its end is relayed whole. When forwarding succeeds the provider did not
  redirect and no request line had been refused, and the node was sent one head with the status, then body
  lines numbered from one without a gap, each with one to \<open>MAX_CHUNK_BYTES\<close> encoded bytes, that
  together carry exactly the bytes of the provider, then one end line with their number.
\<close>

theorem response_is_relayed_whole:
  assumes "forward G a rid failure (CallAnswered status content_type evs) w = (ls, w', Inr ())"
  shows "failure = None \<and> \<not> (300 \<le> status \<and> status < 400) \<and>
    (\<exists>ps. concat ps = response_bytes evs \<and> (\<forall>p \<in> set ps. 0 < length p \<and> length p \<le> MAX_CHUNK_BYTES) \<and>
      ls = [HeadLine rid status (response_headers content_type)] @
        map (\<lambda>i. ResponseBody rid (i + 1) (gw_encode G (ps ! i))) [0..<length ps] @ [ResponseEnd rid (length ps)])"
proof -
  have f: "failure = None" "\<not> (300 \<le> status \<and> status < 400)" using assms by (auto split: option.splits if_splits)
  obtain w1 ls1 where "stream_response G a rid 0 evs w1 = (ls1, w', Inr ())" "ls = HeadLine rid status (response_headers content_type) # ls1"
    using assms f by (auto simp: Let_def split: prod.splits sum.splits if_splits)
  then show ?thesis using stream_response_Inr [of G a rid 0 evs w1 ls1 w'] f numbered_bodies_map [of G rid 0] by auto
qed

section \<open>Revocation\<close>

text \<open>The stored assignment no longer gives the session to this runner under the signed lease, or the vault refuses the connection.\<close>

definition revoked :: "'w gateway \<Rightarrow> accepted \<Rightarrow> 'w \<Rightarrow> bool" where
  "revoked G a w \<longleftrightarrow>
     (\<forall>x. gw_assignment G w (cp_session_id (ac_capability a)) = Some x \<longrightarrow>
        \<not> (lease_matches x (ac_runner_id a) (ac_capability a) (gw_clock G w) \<and> binding_matches x (ac_capability a))) \<or>
     (\<exists>e. snd (gw_check G (ac_binding a) w) = Inl e)"

lemma recheck_revoked: "revoked G a w \<Longrightarrow> \<exists>w' e. recheck G a w = (w', Inl e)"
  by (cases "gw_check G (ac_binding a) w") (auto simp: revoked_def recheck_def current_def split: option.splits if_splits sum.splits)

fun is_body :: "gateway_line \<Rightarrow> bool" where
  "is_body (ResponseBody _ _ _) \<longleftrightarrow> True"
| "is_body _ \<longleftrightarrow> False"

text \<open>Whatever happens while the gateway awaits these arrivals leaves the world so.\<close>

definition ever_after :: "('w \<Rightarrow> bool) \<Rightarrow> (('w \<Rightarrow> 'w) \<times> 'e) list \<Rightarrow> bool" where
  "ever_after R evs \<longleftrightarrow> list_all (\<lambda>(f, e). \<forall>w. R (f w)) evs"

lemma ever_after_simps [simp]: "ever_after R []" "ever_after R ((f, e) # evs) \<longleftrightarrow> (\<forall>w. R (f w)) \<and> ever_after R evs"
  by (simp_all add: ever_after_def)

lemma revoked_response:
  assumes "ever_after (revoked G a) evs"
  shows "filter is_body (fst (stream_response G a rid seq evs w)) = []"
  using assms
proof (induction evs arbitrary: seq w)
  case Nil
  then show ?case by (auto split: prod.splits sum.splits)
next
  case (Cons mev evs)
  obtain m ev where mev: "mev = (m, ev)" by (cases mev)
  have "revoked G a (m w)" using Cons.prems mev by simp
  then obtain w1 e where r: "recheck G a (m w) = (w1, Inl e)" by (metis recheck_revoked)
  show ?case
  proof (cases ev)
    case (UpChunk bytes)
    then show ?thesis using r Cons.IH [of seq "m w"] Cons.prems
      by (cases "pieces bytes") (auto simp: mev Let_def split: prod.splits)
  qed (simp_all add: mev Let_def r)
qed

lemma revoked_tail:
  assumes "ever_after (revoked G a) later"
  shows "filter is_body (fst (stream_response G a rid seq (evs @ later) w)) = filter is_body (fst (stream_response G a rid seq evs w))"
proof (induction evs arbitrary: seq w)
  case Nil
  have "filter is_body (fst (stream_response G a rid seq [] w)) = []" by (auto split: prod.splits sum.splits)
  then show ?case using revoked_response [OF assms, of rid seq w] by (simp del: stream_response.simps)
next
  case (Cons mev evs)
  obtain m ev where mev: "mev = (m, ev)" by (cases mev)
  show ?case
  proof (cases ev)
    case (UpChunk bytes)
    obtain ls w1 res where p: "send_pieces G a rid seq (pieces bytes) (m w) = (ls, w1, res)" by (metis prod_cases3)
    show ?thesis
    proof (cases res)
      case (Inr n)
      then show ?thesis using Cons.IH [of n w1] by (auto simp: mev UpChunk p Let_def split: prod.splits)
    qed (simp add: mev UpChunk p Let_def)
  next
    case UpTick
    obtain w1 res where r: "recheck G a (m w) = (w1, res)" by (cases "recheck G a (m w)")
    then show ?thesis using Cons.IH [of seq w1] by (cases res) (simp_all add: mev UpTick Let_def)
  qed (simp_all add: mev Let_def)
qed

text \<open>The same for the request body: more input changes nothing before it, and after a revocation no line gives a chunk.\<close>

lemma read_line_append:
  "read_line p input buffer pending w = (r, w', Inr l) \<Longrightarrow>
   read_line p (input @ later) buffer pending w = (r\<lparr>lr_input := lr_input r @ later\<rparr>, w', Inr l)"
proof (induction input arbitrary: buffer pending w)
  case Nil
  show ?case
  proof (cases rule: newline_cases [of pending])
    case 1
    then show ?thesis using Nil
      by (cases "MAX_LINE_BYTES + 1 < length buffer + length pending") (simp_all add: read_line_long read_line_stop)
  next
    case (2 x y)
    then show ?thesis using Nil by (auto simp: read_line_newline split: if_splits)
  qed
next
  case (Cons mf input)
  obtain m f where mf: "mf = (m, f)" by (cases mf)
  show ?case
  proof (cases rule: newline_cases [of pending])
    case 1
    have short: "length buffer + length pending \<le> MAX_LINE_BYTES + 1"
      using Cons.prems read_line_long [OF 1, of buffer p "mf # input" w] by (cases "MAX_LINE_BYTES + 1 < length buffer + length pending") auto
    have "good_frame f" using Cons.prems read_line_bad [OF 1 short, of f p m input w] mf by (cases "good_frame f") auto
    then obtain b where "f = ChunkFrame b" "length b \<le> MAX_TRANSPORT_CHUNK" by (rule good_frameE)
    then show ?thesis using Cons by (simp add: mf read_line_more [OF 1 short])
  next
    case (2 x y)
    then show ?thesis using Cons.prems by (auto simp: read_line_newline split: if_splits)
  qed
qed

lemma read_line_later:
  assumes "ever_after R later"
  shows "read_line p later buffer pending w = (r, w', Inr l) \<Longrightarrow> CHR 0x0A \<notin> set pending \<or> R w \<Longrightarrow> R w'"
  using assms
proof (induction later arbitrary: buffer pending w)
  case Nil
  then show ?case
    by (cases rule: newline_cases [of pending]; cases "MAX_LINE_BYTES + 1 < length buffer + length pending")
      (auto simp: read_line_newline read_line_long read_line_stop split: if_splits)
next
  case (Cons mf later)
  obtain m f where mf: "mf = (m, f)" by (cases mf)
  show ?case
  proof (cases rule: newline_cases [of pending])
    case 1
    have short: "length buffer + length pending \<le> MAX_LINE_BYTES + 1"
      using Cons.prems(1) read_line_long [OF 1, of buffer p "mf # later" w] by (cases "MAX_LINE_BYTES + 1 < length buffer + length pending") auto
    have "good_frame f" using Cons.prems(1) read_line_bad [OF 1 short, of f p m later w] mf by (cases "good_frame f") auto
    then obtain b where b: "f = ChunkFrame b" "length b \<le> MAX_TRANSPORT_CHUNK" by (rule good_frameE)
    have "R (m w)" using Cons.prems(3) mf by simp
    then show ?thesis using Cons.IH [of "buffer @ pending" b "m w"] Cons.prems b by (simp add: mf read_line_more [OF 1 short])
  next
    case (2 x y)
    then show ?thesis using Cons.prems(1,2) by (auto simp: read_line_newline split: if_splits)
  qed
qed

lemma read_line_refused:
  assumes "ever_after R later"
  shows "read_line p input buffer pending w = (r, w', Inl e) \<Longrightarrow>
   read_line p (input @ later) buffer pending w = (r2, w2, Inr l) \<Longrightarrow> R w2"
proof (induction input arbitrary: buffer pending w)
  case Nil
  show ?case
  proof (cases rule: newline_cases [of pending])
    case 1
    then show ?thesis using Nil(2) read_line_later [OF assms] by auto
  next
    case (2 x y)
    then show ?thesis using Nil by (auto simp: read_line_newline split: if_splits)
  qed
next
  case (Cons mf input)
  obtain m f where mf: "mf = (m, f)" by (cases mf)
  show ?case
  proof (cases rule: newline_cases [of pending])
    case 1
    have short: "length buffer + length pending \<le> MAX_LINE_BYTES + 1"
      using Cons.prems(2) read_line_long [OF 1, of buffer p "(mf # input) @ later" w] by (cases "MAX_LINE_BYTES + 1 < length buffer + length pending") auto
    have "good_frame f" using Cons.prems(2) read_line_bad [OF 1 short, of f p m "input @ later" w] mf by (cases "good_frame f") auto
    then obtain b where "f = ChunkFrame b" "length b \<le> MAX_TRANSPORT_CHUNK" by (rule good_frameE)
    then show ?thesis using Cons by (simp add: mf read_line_more [OF 1 short])
  next
    case (2 x y)
    then show ?thesis using Cons.prems by (auto simp: read_line_newline split: if_splits)
  qed
qed

lemma next_chunk_append:
  assumes "next_line (gw_from_slice G) (bs_lines st) w = (r, w1, Inr l)" "next_chunk G a rid st w = (st', w', res)"
  shows "next_chunk G a rid (st\<lparr>bs_lines := (bs_lines st)\<lparr>lr_input := lr_input (bs_lines st) @ later\<rparr>\<rparr>) w =
    (st'\<lparr>bs_lines := (bs_lines st')\<lparr>lr_input := lr_input (bs_lines st') @ later\<rparr>\<rparr>, w', res)"
proof -
  have n: "next_line (gw_from_slice G) ((bs_lines st)\<lparr>lr_input := lr_input (bs_lines st) @ later\<rparr>) w = (r\<lparr>lr_input := lr_input r @ later\<rparr>, w1, Inr l)"
    using assms(1) read_line_append [of "gw_from_slice G" "lr_input (bs_lines st)"] by (simp add: next_line_def)
  show ?thesis
  proof (cases l)
    case (RequestBody i k b)
    obtain w2 ok where c: "recheck G a w1 = (w2, ok)" by (cases "recheck G a w1")
    show ?thesis using assms(2)
      by (cases ok; cases "decode_chunk (gw_decode G) b") (auto simp: next_chunk_def assms(1) n c RequestBody Let_def split: if_splits)
  next
    case (RequestEnd i k)
    obtain w2 ok where c: "recheck G a w1 = (w2, ok)" by (cases "recheck G a w1")
    show ?thesis using assms(2)
      by (cases ok) (auto simp: next_chunk_def assms(1) n c RequestEnd Let_def split: if_splits)
  qed (use assms(2) in \<open>auto simp: next_chunk_def assms(1) n Let_def\<close>)
qed

lemma body_stream_tail:
  assumes "ever_after (revoked G a) later"
  shows "fst (body_stream G a rid (st\<lparr>bs_lines := (bs_lines st)\<lparr>lr_input := lr_input (bs_lines st) @ later\<rparr>\<rparr>) w) = fst (body_stream G a rid st w)"
  using assms
proof (induction G a rid st w rule: body_stream.induct)
  case (1 G a rid st w)
  let ?st2 = "st\<lparr>bs_lines := (bs_lines st)\<lparr>lr_input := lr_input (bs_lines st) @ later\<rparr>\<rparr>"
  obtain r w1 line where n: "next_line (gw_from_slice G) (bs_lines st) w = (r, w1, line)" by (metis prod_cases3)
  obtain st' w' res where c: "next_chunk G a rid st w = (st', w', res)" by (metis prod_cases3)
  show ?case
  proof (cases line)
    case (Inr l)
    then have c2: "next_chunk G a rid ?st2 w = (st'\<lparr>bs_lines := (bs_lines st')\<lparr>lr_input := lr_input (bs_lines st') @ later\<rparr>\<rparr>, w', res)"
      using next_chunk_append [OF n [unfolded Inr] c] by simp
    consider (err) e where "res = Inl e" | (stop) "res = Inr None" | (chunk) x where "res = Inr (Some x)"
      by (cases res) auto
    then show ?thesis
    proof cases
      case (chunk x)
      then show ?thesis using 1(1) [OF c [symmetric] refl chunk refl 1(2)]
        by (simp add: body_stream.simps [of G a rid ?st2 w] body_stream.simps [of G a rid st w] c c2 split_beta)
    qed (simp_all add: body_stream.simps [of G a rid ?st2 w] body_stream.simps [of G a rid st w] c c2)
  next
    case (Inl e)
    then have "res = Inl e" using c by (simp add: next_chunk_def n)
    then have empty: "fst (body_stream G a rid st w) = []" by (simp add: body_stream.simps [of G a rid st w] c)
    obtain st2' w2 res2 where c2: "next_chunk G a rid ?st2 w = (st2', w2, res2)" by (metis prod_cases3)
    have "\<not> (\<exists>x. res2 = Inr (Some x))"
    proof
      assume "\<exists>x. res2 = Inr (Some x)"
      then obtain x r2 w3 b where x: "next_line (gw_from_slice G) (bs_lines ?st2) w = (r2, w3, Inr (RequestBody rid (bs_expected ?st2) b))" "recheck G a w3 = (w2, Inr ())"
        using next_chunk_Some c2 by metis
      have "revoked G a w3"
        using read_line_refused [OF 1(2), of "gw_from_slice G" "lr_input (bs_lines st)"] n x(1) Inl by (simp add: next_line_def)
      then show False using recheck_revoked [of G a w3] x(2) by auto
    qed
    then show ?thesis using empty
      by (cases res2) (auto simp: body_stream.simps [of G a rid ?st2 w] c2 split: option.splits)
  qed
qed

text \<open>
  C6. After a revocation not a byte moves. Take any request, and let the assignment be lost, changed or expired, or
  the vault refuse the connection, at every moment from some arrival on: the chunks that go upstream are those
  of the lines complete before, and the body lines that go to the node are those of the provider's bytes that
  arrived before, whatever else the node, the provider and the timer still deliver.
\<close>

theorem revoked_request_moves_no_more_bytes:
  assumes "ever_after (revoked G a) later_frames" "ever_after (revoked G a) later_events"
  shows "fst (request_body G a rid (r\<lparr>lr_input := lr_input r @ later_frames\<rparr>) w) = fst (request_body G a rid r w) \<and>
    filter is_body (fst (stream_response G a rid seq (evs @ later_events) w')) = filter is_body (fst (stream_response G a rid seq evs w'))"
  using body_stream_tail [OF assms(1), of rid "\<lparr>bs_lines = r, bs_expected = 1, bs_total = 0\<rparr>" w] revoked_tail [OF assms(2)]
  by (simp add: request_body_def)

section \<open>Examples\<close>

text \<open>The gateway of the example, with a body of one chunk; and one whose world says whether the session was taken away.\<close>

definition ex_sender :: "nat gateway" where
  "ex_sender = ex_gateway\<lparr>gw_from_slice :=
     (\<lambda>s. if s = ''b'' then Some (RequestBody ''r'' 1 ''hi'') else if s = ''e'' then Some (RequestEnd ''r'' 1) else None)\<rparr>"

definition ex_sent :: "nat line_reader" where
  "ex_sent = reader_new [(id, ChunkFrame ''b''), (id, ChunkFrame ([CHR 0x0A] @ ''e'' @ [CHR 0x0A]))]"

definition ex_first :: "nat body_state" where
  "ex_first = \<lparr>bs_lines = ex_sent, bs_expected = 1, bs_total = 0\<rparr>"

definition ex_second :: "nat body_state" where
  "ex_second = \<lparr>bs_lines = \<lparr>lr_input = [], lr_buffer = [], lr_pending = ''e'' @ [CHR 0x0A]\<rparr>, bs_expected = 2, bs_total = 2\<rparr>"

lemma ex_chunk: "next_chunk ex_sender ex_accepted ''r'' ex_first 0 = (ex_second, 0, Inr (Some ''hi''))"
proof -
  let ?n = "next_chunk ex_sender ex_accepted ''r'' ex_first 0"
  have "snd ?n = (0, Inr (Some ''hi''))" "length (lr_input (bs_lines (fst ?n))) = 0" "lr_buffer (bs_lines (fst ?n)) = []"
    "lr_pending (bs_lines (fst ?n)) = ''e'' @ [CHR 0x0A]" "bs_expected (fst ?n) = 2" "bs_total (fst ?n) = 2"
    by code_simp+
  then show ?thesis by (cases ?n) (simp add: ex_second_def)
qed

lemma ex_stop: "snd (next_chunk ex_sender ex_accepted ''r'' ex_second 0) = (0, Inr None)"
  by code_simp

lemma ex_body: "request_body ex_sender ex_accepted ''r'' ex_sent 0 = ([''hi''], 0, Inr ())"
proof -
  obtain st where "next_chunk ex_sender ex_accepted ''r'' ex_second 0 = (st, 0, Inr None)" using ex_stop by (metis prod.collapse)
  then have "body_stream ex_sender ex_accepted ''r'' ex_second 0 = ([], 0, Inr ())"
    by (simp add: body_stream.simps [of ex_sender ex_accepted "''r''" ex_second 0])
  then show ?thesis unfolding request_body_def ex_first_def [symmetric]
    by (simp add: body_stream.simps [of ex_sender ex_accepted "''r''" ex_first 0] ex_chunk)
qed

theorem upstream_body_is_what_the_node_sent_witness:
  "request_body ex_sender ex_accepted ''r'' ex_sent 0 = ([''hi''], 0, Inr ()) \<and>
   (\<exists>line more rest. rest = line @ CHR 0x0A # more \<and> parse_node_line (gw_from_slice ex_sender) line = Inr (RequestEnd ''r'' (length [''hi''])))"
proof -
  note b = ex_body
  have "clean (lr_input ex_sent)" "lr_buffer ex_sent = []"
    by (simp_all add: ex_sent_def reader_new_def MAX_TRANSPORT_CHUNK_def)
  from upstream_body_is_what_the_node_sent [OF this b] b show ?thesis by blast
qed

theorem response_is_relayed_whole_witness:
  "\<exists>ps. concat ps = response_bytes [(id :: nat \<Rightarrow> nat, UpChunk ''ab''), (id, UpTick), (id, UpChunk ''c'')] \<and>
     [HeadLine ''r'' 200 [], ResponseBody ''r'' 1 ''ab'', ResponseBody ''r'' 2 ''c'', ResponseEnd ''r'' 2] =
     [HeadLine ''r'' 200 (response_headers None)] @ map (\<lambda>i. ResponseBody ''r'' (i + 1) (gw_encode ex_gateway (ps ! i))) [0..<length ps] @ [ResponseEnd ''r'' (length ps)]"
proof -
  have "forward ex_gateway ex_accepted ''r'' None (CallAnswered 200 None [(id, UpChunk ''ab''), (id, UpTick), (id, UpChunk ''c'')]) 0 =
      ([HeadLine ''r'' 200 [], ResponseBody ''r'' 1 ''ab'', ResponseBody ''r'' 2 ''c'', ResponseEnd ''r'' 2], 0, Inr ())"
    by code_simp
  from response_is_relayed_whole [OF this] show ?thesis by blast
qed

definition ex_revocable :: "bool gateway" where
  "ex_revocable = \<lparr>gw_registry = ex_nodes, gw_table = production, gw_assignment = (\<lambda>gone. if gone then no_sessions else ex_assigned),
     gw_check = (\<lambda>b w. (w, Inr ())), gw_credential = (\<lambda>b w. (w, Inl ProviderNotConnected)),
     gw_clock = (\<lambda>w. 2000), gw_ed25519 = ex_verifier, gw_quote = json_quote, gw_from_slice = ex_from_slice,
     gw_to_vec = (\<lambda>l. Some ''line''), gw_decode = Some, gw_encode = id, gw_tx = (\<lambda>b w. (w, SendDone))\<rparr>"

theorem revoked_request_moves_no_more_bytes_witness:
  "filter is_body (fst (stream_response ex_revocable ex_accepted ''r'' 0 [(id, UpChunk ''ab''), (\<lambda>_. True, UpChunk ''cd'')] False)) =
   [ResponseBody ''r'' 1 ''ab'']"
proof -
  have "ever_after (revoked ex_revocable ex_accepted) [(\<lambda>_. True, UpChunk ''cd'')]"
    by (simp add: revoked_def ex_revocable_def no_sessions_def)
  from revoked_request_moves_no_more_bytes [OF ever_after_simps(1) this, of "''r''" "reader_new []" False 0 "[(id, UpChunk ''ab'')]" False]
  have "filter is_body (fst (stream_response ex_revocable ex_accepted ''r'' 0 ([(id, UpChunk ''ab'')] @ [(\<lambda>_. True, UpChunk ''cd'')]) False)) =
      filter is_body (fst (stream_response ex_revocable ex_accepted ''r'' 0 [(id, UpChunk ''ab'')] False))" by blast
  also have "\<dots> = [ResponseBody ''r'' 1 ''ab'']" by code_simp
  finally show ?thesis by simp
qed

end
