(* ===== verification/Spec2Isabelle.thy ===== *)
theory Spec2Isabelle
  imports GateClaimApi GateWanted QueueRetries RunnerEpochs RateLimits PushPolicy Idempotency GatewayAddr GatewayStreams
begin

text \<open>
  A verification of parts of the jeryu forge server (\<^verbatim>\<open>crates/jeryu-api\<close>) and of its credential gateway
  (\<^verbatim>\<open>crates/jeryu-gateway\<close>): how a change gets from a pushed branch, through gates and the merge queue,
  onto a base branch, the machinery at the server's edge that those requests pass, and how a guest's
  request reaches a model provider without the guest ever holding the credential.

  \<^bold>\<open>The parts and how they meet.\<close> Gate runners report themselves by heartbeat and ask for leases on the
  heads they gate; the forge tells them by long poll which heads want a gate. The merge queue replays
  every queued pull request onto the entry below it, watches the verdicts the runners post, and lands the
  highest entry whose gate covers all below it through one compare-and-swap of the base. Pushes arrive
  over git's smart HTTP and are inspected before anything is unpacked. API requests pass the request
  limits and the idempotency middleware and are read by the strict query and paging helpers. The gateway
  relays a node's request to a provider: it checks who calls, adds the credential and streams both bodies.

  \<^bold>\<open>Theories.\<close> \<open>Prelude\<close> has the shared types (results as sums, operations over a world, saturating unsigned
  integers as bounded naturals, time in nanoseconds, strings as UTF-8 bytes with the library functions the
  source calls) and \<open>Tables\<close> the ordered maps, with the locales \<open>key_table\<close>, \<open>guarded_machine\<close>,
  \<open>rising_machine\<close> and \<open>lease_table\<close> that the stores below interpret. \<open>Forge\<close> has the rows of the core.

  \<^item> \<open>GateRunners\<close>: \<^verbatim>\<open>web/control_plane/gate_runners.rs\<close>, the checks of a heartbeat and the bounded store.
  \<^item> \<open>GateClaims\<close>, \<open>GateClaimApi\<close>: \<^verbatim>\<open>web/gate_claims.rs\<close>, the lease store with its refinement of an
    abstract lease service, and the handlers with policy reading between their halves.
  \<^item> \<open>GateWanted\<close>: \<^verbatim>\<open>web/gate_wanted.rs\<close>, numbered signals and the long poll as an interleaved machine.
  \<^item> \<open>GitReplay\<close>: \<^verbatim>\<open>web/merge_queue/replay.rs\<close>, over a git that is a function of the world.
  \<^item> \<open>GateVerdict\<close>, \<open>QueueTypes\<close>, \<open>QueueStore\<close>, \<open>QueueLanding\<close>, \<open>QueueTick\<close>, \<open>QueueRetries\<close>:
    \<^verbatim>\<open>web/merge_queue.rs\<close> and \<^verbatim>\<open>land_queued_batch\<close> of \<^verbatim>\<open>github/pulls.rs\<close>; the verdicts, the index and its
    loading, the requests, the landing, the pass over all stacks, and the bound on its retries.
  \<^item> \<open>PktLines\<close>, \<open>PushPolicy\<close>: \<^verbatim>\<open>git_transport.rs\<close>, \<^verbatim>\<open>git_transport/push_policy.rs\<close> and
    \<^verbatim>\<open>web/pushed_after_merge.rs\<close>; packet lines, refused pushes, the rule on merged branches.
  \<^item> \<open>Idempotency\<close>: \<^verbatim>\<open>web/idempotency.rs\<close>, requests interleaved around the kept answers.
  \<^item> \<open>RateLimits\<close>: \<^verbatim>\<open>web/auth/request_limits.rs\<close> and the counters of \<^verbatim>\<open>web/auth.rs\<close>.
  \<^item> \<open>RunnerEpochs\<close>: \<^verbatim>\<open>web/runner_epochs.rs\<close>, the fencing epochs of runner lifetimes.
  \<^item> \<open>Queries\<close>, \<open>Principals\<close>: \<^verbatim>\<open>web/paging.rs\<close>, \<^verbatim>\<open>web/strict_query.rs\<close>, \<^verbatim>\<open>web/principals.rs\<close>.
  \<^item> \<open>GatewayPolicy\<close>, \<open>GatewayAddr\<close>, \<open>GatewayAuthority\<close>, \<open>GatewayRelay\<close>, \<open>GatewayStreams\<close>:
    \<^verbatim>\<open>crates/jeryu-gateway\<close>, where a relayed request may go, the addresses a host may resolve to, phase 0 with
    the bytes a node signs, the slots, the line reader and the open phase, and the two streamed bodies.

  \<^bold>\<open>Conventions.\<close> A struct is a record with a prefix on its fields, an enum a datatype, \<^verbatim>\<open>Result\<close> a sum with
  the error on the left, a \<^verbatim>\<open>BTreeMap\<close> an association list sorted by key. An error or message is the
  constructor that names it, with the values its text quotes. A handler is a function from the state it
  locks to the state it leaves and its answer; where the source gives up a lock in between, it is two
  functions, and an inductive relation interleaves them. Code of other crates (the core, the git daemon,
  git itself, SQLite, serde, SHA-256) is an argument; what is relied on of it is a named hypothesis
  (\<open>documented_refs\<close>, \<open>documented_worktrees\<close>, \<open>json_ok\<close>, \<open>quote_ok\<close>, \<open>unforgeable\<close>), met by a concrete instance in the examples.

  \<^bold>\<open>What is shown.\<close> Here: whatever a pass lands was gated (\<open>landed_changes_were_gated\<close>), composed of the pass,
  the landing and the verdicts. In the theories: leases are exclusive and the store refines a lease
  service; polls lose no wake-up; a replayed commit carries the reviewed change and leaves no worktree; the
  verdict loop is the conjunction of its contexts; joining, restacking, retrying and landing keep the
  entries sound, and retries end; a landing moves the base once; a taken push spares merged branches;
  answers with notices and refusals are well-formed packet streams; a keyed request runs once and is
  answered again; limits admit exactly their number; fenced runners stay fenced; pages walk a collection; a relayed
  request is the calling node's own and leaves only for the provider's host, at a public address; the
  credential is asked for once, after every check; both bodies arrive whole and in order, and after a
  revocation not a byte moves.

  \<^bold>\<open>Bounds and termination.\<close> No model uses fuel: the loops recurse on their input, or have a measure (the
  lease store's room making, UTF-8 decoding, packet reading, the gateway's request body). Integers are naturals with the saturation of
  the source written out; where a theorem needs room below the maximum, it says so.

  \<^bold>\<open>Not modelled.\<close> The core crates (\<^verbatim>\<open>jeryu_core\<close>, \<^verbatim>\<open>jeryu_gitd\<close>), which the repository only calls; axum
  routing and response rendering; sign-in, sessions and mail; the GitHub-shaped read routes; the pipeline
  event log, attention inbox, flow and scorecard reports, which are SQL and arithmetic over stored rows;
  the MCP backend, agent sessions and work cells, which drive processes; the gateway's listener and HTTP client; the command line client. The
  manifest lists them with the reason for each.
\<close>

section \<open>From a green gate to the base branch\<close>

text \<open>
  What stands behind an entry that a pass landed: the merge gate of its pull request passed at the queued
  head, every context that gate asked for was green on the commit the base moved to, the core found the
  pull request ready at that head, and that commit holds the entry's own.
\<close>

definition gated_landing :: "'w forge \<Rightarrow> 'w lander \<Rightarrow> ('w \<Rightarrow> string \<times> string \<Rightarrow> string option) \<Rightarrow> string \<Rightarrow> string
    \<Rightarrow> queue_entry \<Rightarrow> bool" where
  "gated_landing F L tip owner repo e \<longleftrightarrow>
     (\<exists>w w' path base_ref base_sha head_ref head_sha linear old new statuses checks v pr blockers required.
        tip w (path, branch_ref base_ref) = Some old \<and> tip w' (path, branch_ref base_ref) = Some new \<and>
        (new = qe_queue_sha e \<or> ld_is_ancestor L w path (qe_queue_sha e) new) \<and> ld_is_ancestor L w path old new \<and>
        ld_readiness L w owner repo (qe_number e) (qe_pr_head_sha e) =
          Inr (Ready base_ref base_sha head_ref head_sha linear) \<and>
        fg_get_pull F v owner repo (qe_number e) = Some pr \<and> is_open_pull pr \<and>
        pr_head_sha pr = qe_pr_head_sha e \<and> fg_queue_gate F v pr = (True, blockers, required) \<and>
        fg_combined_status F w owner repo new = Some statuses \<and> fg_check_runs F w owner repo new = Some checks \<and>
        (\<forall>c \<in> set required. context_verdict statuses checks c = Some True))"

lemma green_contexts:
  assumes "gate_verdict ss cs contexts = Some True"
  obtains statuses checks where "ss = Some statuses" "cs = Some checks"
    "\<forall>c \<in> set contexts. context_verdict statuses checks c = Some True"
proof -
  obtain statuses checks where s: "ss = Some statuses" "cs = Some checks"
    using assms by (auto simp: gate_verdict_def split: option.splits)
  then have "\<forall>c \<in> judged statuses checks contexts. context_verdict statuses checks c = Some True"
    using assms by (auto simp: gate_verdict_judged Let_def split: if_splits)
  then show ?thesis using that [OF s] by (auto simp: judged_def split: if_splits)
qed

lemma lands_green_gated:
  assumes "documented_refs L tip" "lands_green F L owner repo e"
  shows "gated_landing F L tip owner repo e"
proof -
  obtain w w' landing members old contexts required v m where
    land: "land_queued_batch F L owner repo members old w = (w', Inr landing)" and
    m: "m \<in> set members" "ql_number m = qe_number e" "ql_pr_head m = qe_pr_head_sha e" "ql_queue_sha m = qe_queue_sha e" and
    green: "gate_result F w owner repo (ql_queue_sha (last members)) contexts = Some True" and
    gate: "set required \<subseteq> set contexts" "passes_gate F v owner repo e required"
    using assms(2) unfolding lands_green_def by blast
  obtain path base_ref where t: "landable F L owner repo members old w path base_ref"
    "tip w (path, branch_ref base_ref) = Some old" "tip w' (path, branch_ref base_ref) = Some (ql_queue_sha (last members))"
    using landing_tips [OF assms(1) land] by blast
  have "m = last members \<or> m \<in> set (butlast members)" using m(1) by (cases members rule: rev_cases) auto
  then have "ql_queue_sha (last members) = qe_queue_sha e \<or> ld_is_ancestor L w path (qe_queue_sha e) (ql_queue_sha (last members))"
    using t(1) m(4) by (auto simp: landable_def)
  moreover have "ld_is_ancestor L w path old (ql_queue_sha (last members))" using t(1) by (simp add: landable_def)
  moreover obtain base_sha head_ref head_sha linear where
    "ld_readiness L w owner repo (qe_number e) (qe_pr_head_sha e) = Inr (Ready base_ref base_sha head_ref head_sha linear)"
    using t(1) m(1-3) unfolding landable_def by metis
  moreover obtain statuses checks where "fg_combined_status F w owner repo (ql_queue_sha (last members)) = Some statuses"
    "fg_check_runs F w owner repo (ql_queue_sha (last members)) = Some checks"
    "\<forall>c \<in> set contexts. context_verdict statuses checks c = Some True"
    using green unfolding gate_result_def by (elim green_contexts)
  ultimately show ?thesis using t(2,3) gate unfolding gated_landing_def passes_gate_def by blast
qed



end
